(* ===== verification/HB_Prelude.thy ===== *)
theory HB_Prelude
  imports Complex_Main "HOL-Library.Word"
begin

text \<open>
  Shared vocabulary of the Hummingbird driver model.

  \<^item> The result type \<open>'a res\<close> (\<open>error + 'a\<close>) for the exceptions the MicroPython
    library calls of \<^verbatim>\<open>src/hummingbird.py\<close> can raise, the type \<open>'a run\<close> for a call
    that may also fail to return, and the sequencing combinators \<open>bind_res\<close>,
    \<open>bind_run\<close> and \<open>exec\<close> (a block of statements run in order, stopping at the first
    exception).
  \<^item> The Python built-ins the driver calls on numbers and byte strings: true division
    \<open>/\<close>, \<open>int()\<close> on a float (truncation towards zero), \<open>round()\<close> on a float
    (round half to even), \<open>bytes([...])\<close>, \<open>bytearray(n)\<close>, \<open>int.from_bytes(.., 'big')\<close>
    and list indexing. Floats are modelled as exact reals; every quotient the driver
    forms has a numerator below \<open>2^17\<close> and a small constant denominator, so the
    rounding of a binary float never moves it across the integer or half-integer
    boundary that \<open>int()\<close> and \<open>round()\<close> look at.
  \<^item> Integer characterisations of these built-ins (\<open>div\<close>, \<open>rhe_div\<close>), which carry
    the arithmetic of the encoder and decoder theories.
\<close>

section \<open>Fact collections\<close>

named_theorems hb_prims \<open>definitions of the hardware primitives\<close>
named_theorems hb_consts \<open>class constants of the driver\<close>
named_theorems hb_scale \<open>integer characterisations of the scaling formulas\<close>

section \<open>Results of calls\<close>

type_synonym u8 = "8 word"

datatype error = ValueError | IndexError

type_synonym 'a res = "error + 'a"
type_synonym 'a run = "'a res option"

definition bind_res :: "'a res \<Rightarrow> ('a \<Rightarrow> 'b res) \<Rightarrow> 'b res" where
  "bind_res r f = (case r of Inl e \<Rightarrow> Inl e | Inr a \<Rightarrow> f a)"

definition bind_run :: "'a run \<Rightarrow> ('a \<Rightarrow> 'b run) \<Rightarrow> 'b run" where
  "bind_run r f = (case r of None \<Rightarrow> None | Some (Inl e) \<Rightarrow> Some (Inl e) | Some (Inr a) \<Rightarrow> f a)"

fun exec :: "('s \<Rightarrow> 's res) list \<Rightarrow> 's \<Rightarrow> 's res" where
  "exec [] s = Inr s"
| "exec (c # cs) s = bind_res (c s) (exec cs)"

definition io :: "('w \<Rightarrow> 'w res) \<Rightarrow> 'l \<times> 'w \<Rightarrow> ('l \<times> 'w) res" where
  "io f = (\<lambda>(l, w). bind_res (f w) (\<lambda>w'. Inr (l, w')))"

definition returns :: "'a run \<Rightarrow> bool" where
  "returns r = (case r of Some (Inr a) \<Rightarrow> True | _ \<Rightarrow> False)"

section \<open>Python numbers\<close>

definition py_truediv :: "int \<Rightarrow> int \<Rightarrow> real" where
  "py_truediv a b = real_of_int a / real_of_int b"

definition py_int :: "real \<Rightarrow> int" where
  "py_int x = (if 0 \<le> x then \<lfloor>x\<rfloor> else \<lceil>x\<rceil>)"

definition py_round :: "real \<Rightarrow> int" where
  "py_round x =
     (let f = \<lfloor>x\<rfloor>; d = x - real_of_int f
      in if d < 1 / 2 then f else if 1 / 2 < d then f + 1 else if even f then f else f + 1)"

definition rhe_div :: "int \<Rightarrow> int \<Rightarrow> int" where
  "rhe_div a b =
     (let q = a div b; r = a mod b
      in if 2 * r < b then q else if b < 2 * r then q + 1 else if even q then q else q + 1)"

section \<open>Python byte strings and lists\<close>

definition py_bytes :: "int list \<Rightarrow> u8 list res" where
  "py_bytes xs = (if \<forall>x \<in> set xs. 0 \<le> x \<and> x < 256 then Inr (map word_of_int xs) else Inl ValueError)"

definition bytearray :: "nat \<Rightarrow> u8 list" where
  "bytearray n = replicate n 0"

definition int_from_bytes_big :: "u8 list \<Rightarrow> int" where
  "int_from_bytes_big bs = foldl (\<lambda>acc b. acc * 256 + uint b) 0 bs"

definition py_index :: "'a list \<Rightarrow> int \<Rightarrow> 'a res" where
  "py_index xs i =
     (if 0 \<le> i \<and> i < int (length xs) then Inr (xs ! nat i)
      else if i < 0 \<and> - int (length xs) \<le> i then Inr (xs ! nat (int (length xs) + i))
      else Inl IndexError)"

section \<open>Sequencing lemmas\<close>

lemma bind_res_simps [simp]:
  "bind_res (Inr a) f = f a"
  "bind_res (Inl e) f = Inl e"
  by (simp_all add: bind_res_def)

lemma bind_res_Inr_iff:
  "bind_res r f = Inr b \<longleftrightarrow> (\<exists>a. r = Inr a \<and> f a = Inr b)"
  by (cases r) simp_all

lemma bind_res_assoc:
  "bind_res (bind_res r f) g = bind_res r (\<lambda>a. bind_res (f a) g)"
  by (cases r) simp_all

lemma bind_run_simps [simp]:
  "bind_run None f = None"
  "bind_run (Some (Inl e)) f = Some (Inl e)"
  "bind_run (Some (Inr a)) f = f a"
  by (simp_all add: bind_run_def)

lemma exec_append: "exec (cs @ ds) s = bind_res (exec cs s) (exec ds)"
  by (induction cs arbitrary: s) (auto simp: bind_res_def split: sum.splits)

lemma exec_Inr_append:
  "exec cs s = Inr t \<Longrightarrow> exec (cs @ ds) s = exec ds t"
  by (simp add: exec_append)

lemma io_simps [simp]:
  "f w = Inr w' \<Longrightarrow> io f (l, w) = Inr (l, w')"
  "f w = Inl e \<Longrightarrow> io f (l, w) = Inl e"
  by (simp_all add: io_def)

lemma returns_simps [simp]:
  "returns (Some (Inr a))"
  "\<not> returns (Some (Inl e))"
  "\<not> returns None"
  by (simp_all add: returns_def)

lemma returns_iff: "returns r \<longleftrightarrow> (\<exists>a. r = Some (Inr a))"
  by (auto simp: returns_def split: option.splits sum.splits)

section \<open>Integer characterisations of \<open>int()\<close> and \<open>round()\<close>\<close>

lemma py_int_of_int [simp]: "py_int (real_of_int k) = k"
  by (simp add: py_int_def)

lemma py_int_nonneg: "0 \<le> x \<Longrightarrow> py_int x = \<lfloor>x\<rfloor>"
  by (simp add: py_int_def)

lemma py_int_truediv:
  assumes "0 \<le> a" and "0 < b"
  shows "py_int (py_truediv a b) = a div b"
proof -
  from assms have "0 \<le> real_of_int a / real_of_int b" by simp
  then show ?thesis
    by (simp add: py_int_def py_truediv_def floor_divide_of_int_eq)
qed

lemma py_int_truediv_add:
  assumes "0 \<le> a + c * b" and "0 < b"
  shows "py_int (py_truediv a b + real_of_int c) = a div b + c"
proof -
  have eq: "py_truediv a b + real_of_int c = real_of_int (a + c * b) / real_of_int b"
    using assms(2) by (simp add: py_truediv_def field_simps)
  from assms(1) have "0 \<le> real_of_int (a + c * b)"
    by (simp only: of_int_0_le_iff)
  with assms(2) have "0 \<le> real_of_int (a + c * b) / real_of_int b"
    by (intro divide_nonneg_pos) simp_all
  then have "py_int (py_truediv a b + real_of_int c) = (a + c * b) div b"
    unfolding eq by (simp only: py_int_nonneg floor_divide_of_int_eq)
  with assms(2) show ?thesis by simp
qed

lemma frac_part_truediv:
  assumes "0 < b"
  shows "py_truediv a b - real_of_int (a div b) = real_of_int (a mod b) / real_of_int b"
proof -
  have "real_of_int a = real_of_int (a div b) * real_of_int b + real_of_int (a mod b)"
    by (metis mult.commute mult_div_mod_eq of_int_add of_int_mult)
  with assms show ?thesis
    by (simp add: py_truediv_def field_simps)
qed

lemma py_round_truediv:
  assumes "0 < b"
  shows "py_round (py_truediv a b) = rhe_div a b"
proof -
  have fl: "\<lfloor>py_truediv a b\<rfloor> = a div b"
    by (simp add: py_truediv_def floor_divide_of_int_eq)
  have lt: "real_of_int (a mod b) / real_of_int b < 1 / 2 \<longleftrightarrow> 2 * (a mod b) < b"
    using assms by (simp add: field_simps) linarith
  have gt: "1 / 2 < real_of_int (a mod b) / real_of_int b \<longleftrightarrow> b < 2 * (a mod b)"
    using assms by (simp add: field_simps) linarith
  show ?thesis
    unfolding py_round_def rhe_div_def Let_def fl frac_part_truediv [OF assms] lt gt
    by (rule refl)
qed

lemma rhe_div_bounds:
  assumes "0 < b"
  shows "a div b \<le> rhe_div a b" and "rhe_div a b \<le> a div b + 1"
  by (simp_all add: rhe_div_def Let_def)

lemma rhe_div_exact: "0 < b \<Longrightarrow> rhe_div (k * b) b = k"
  by (simp add: rhe_div_def Let_def)

lemma rhe_div_nonneg: "0 \<le> a \<Longrightarrow> 0 < b \<Longrightarrow> 0 \<le> rhe_div a b"
  using rhe_div_bounds(1) [of b a] by (meson order_trans pos_imp_zdiv_nonneg_iff)

lemma rhe_div_mono:
  assumes "0 < b" and "a \<le> a'"
  shows "rhe_div a b \<le> rhe_div a' b"
proof (cases "a div b = a' div b")
  case True
  with assms have "a mod b \<le> a' mod b"
    by (metis add_le_cancel_left mult_div_mod_eq)
  with True show ?thesis
    by (auto simp: rhe_div_def Let_def)
next
  case False
  with assms have "a div b < a' div b"
    by (simp add: zdiv_mono1 order.strict_iff_order)
  then have "rhe_div a b \<le> a' div b"
    using rhe_div_bounds(2) [OF assms(1), of a] by linarith
  with rhe_div_bounds(1) [OF assms(1), of a'] show ?thesis by linarith
qed

section \<open>Byte strings\<close>

lemma py_bytes_single:
  "py_bytes [x] = (if 0 \<le> x \<and> x < 256 then Inr [word_of_int x] else Inl ValueError)"
  by (simp add: py_bytes_def)

lemma py_bytes_length: "py_bytes xs = Inr bs \<Longrightarrow> length bs = length xs"
  by (auto simp: py_bytes_def split: if_splits)

lemma uint_py_byte:
  fixes x :: int
  assumes "0 \<le> x" and "x < 256"
  shows "uint (word_of_int x :: u8) = x"
  using assms by (simp add: uint_word_of_int take_bit_eq_mod)

lemma int_from_bytes_big_single [simp]: "int_from_bytes_big [b] = uint b"
  by (simp add: int_from_bytes_big_def)

lemma uint_u8_bounds: "0 \<le> uint (b :: u8) \<and> uint b \<le> 255"
  using uint_lt2p [of b] by simp

lemma py_bytes_roundtrip:
  assumes "0 \<le> x" and "x < 256"
  shows "bind_res (py_bytes [x]) (\<lambda>bs. Inr (int_from_bytes_big bs)) = Inr x"
  using assms by (simp add: py_bytes_single uint_py_byte)

lemma py_index_in_range:
  "0 \<le> i \<Longrightarrow> nat i < length xs \<Longrightarrow> py_index xs i = Inr (xs ! nat i)"
  by (auto simp: py_index_def Let_def)

lemma bytearray_length [simp]: "length (bytearray n) = n"
  by (simp add: bytearray_def)

end
