(* ===== verification/HB_Hardware.thy ===== *)
theory HB_Hardware
  imports HB_Prelude
begin

text \<open>
  The world the driver of \<^verbatim>\<open>src/hummingbird.py\<close> runs in, and the MicroPython calls it
  makes on it.

  \<^item> \<open>world\<close> holds the one piece of state the driver owns, the class attribute
    \<open>readyToSend\<close>, together with the driver's environment: the chronological \<open>trace\<close>
    of every call made on the board (sleeps, pin writes, bytes clocked over the bus,
    display and console output) and the state \<open>dev\<close> of the controller at the other end
    of the bus.
  \<^item> The controller is a \<open>device\<close>: a machine that holds the byte it will shift out
    during the next exchange (\<open>miso\<close>) and moves to a new state on the byte it receives
    (\<open>clock\<close>). Nothing else is assumed of it, so every theorem holds for every
    controller.
  \<^item> One definition per library call the driver makes (\<open>sleep\<close>, \<open>sleep_us\<close>,
    \<open>pin_write_digital\<close>, \<open>pin_write_analog\<close>, \<open>spi_init\<close>, \<open>spi_write\<close>,
    \<open>spi_write_readinto\<close>, \<open>display_scroll\<close>, \<open>display_show\<close>, \<open>print\<close>), each
    returning \<open>Inl ValueError\<close> where the library raises, and the assignment to
    \<open>readyToSend\<close>.
  \<^item> The class constants (delays and sensor identifiers).
\<close>

section \<open>Board, bus and controller\<close>

datatype pin = Pin0 | Pin2 | Pin8 | Pin13 | Pin14 | Pin15 | Pin16

datatype image = FABULOUS

datatype event =
    Sleep int
  | SleepUs int
  | WriteDigital pin int
  | WriteAnalog pin int
  | SpiInit int int int pin pin pin
  | SpiByte u8 u8
  | Scroll int
  | Show image
  | Print string

codatatype device = Device (miso: u8) (clock: "u8 \<Rightarrow> device")

record world =
  readyToSend :: bool
  trace :: "event list"
  dev :: device

definition boot :: "device \<Rightarrow> world" where
  "boot d = \<lparr>readyToSend = False, trace = [], dev = d\<rparr>"

section \<open>Class constants\<close>

definition waitTime_1 :: int where [hb_consts]: "waitTime_1 = 4"
definition waitTime_2 :: int where [hb_consts]: "waitTime_2 = 100"
definition waitTime_Initial :: int where [hb_consts]: "waitTime_Initial = 500"
definition waitTime_Start :: int where [hb_consts]: "waitTime_Start = 2000"

definition sensor_light :: int where [hb_consts]: "sensor_light = 1"
definition sensor_dial :: int where [hb_consts]: "sensor_dial = 2"
definition sensor_distance :: int where [hb_consts]: "sensor_distance = 3"
definition sensor_sound :: int where [hb_consts]: "sensor_sound = 4"
definition sensor_other :: int where [hb_consts]: "sensor_other = 5"

section \<open>Library calls\<close>

definition emit :: "event \<Rightarrow> world \<Rightarrow> world" where
  [hb_prims]: "emit e w = w\<lparr>trace := trace w @ [e]\<rparr>"

definition sleep :: "int \<Rightarrow> world \<Rightarrow> world res" where
  [hb_prims]: "sleep ms w = Inr (emit (Sleep ms) w)"

definition sleep_us :: "int \<Rightarrow> world \<Rightarrow> world res" where
  [hb_prims]: "sleep_us us w = Inr (emit (SleepUs us) w)"

definition pin_write_digital :: "pin \<Rightarrow> int \<Rightarrow> world \<Rightarrow> world res" where
  [hb_prims]: "pin_write_digital p v w =
     (if v = 0 \<or> v = 1 then Inr (emit (WriteDigital p v) w) else Inl ValueError)"

definition pin_write_analog :: "pin \<Rightarrow> int \<Rightarrow> world \<Rightarrow> world res" where
  [hb_prims]: "pin_write_analog p v w =
     (if 0 \<le> v \<and> v \<le> 1023 then Inr (emit (WriteAnalog p v) w) else Inl ValueError)"

definition spi_init :: "int \<Rightarrow> int \<Rightarrow> int \<Rightarrow> pin \<Rightarrow> pin \<Rightarrow> pin \<Rightarrow> world \<Rightarrow> world res" where
  [hb_prims]: "spi_init baudrate bits mode sclk mosi miso_pin w =
     Inr (emit (SpiInit baudrate bits mode sclk mosi miso_pin) w)"

definition spi_exchange :: "u8 \<Rightarrow> world \<Rightarrow> u8 \<times> world" where
  "spi_exchange tx w =
     (miso (dev w), (emit (SpiByte tx (miso (dev w))) w)\<lparr>dev := clock (dev w) tx\<rparr>)"

fun spi_transfer :: "u8 list \<Rightarrow> world \<Rightarrow> u8 list \<times> world" where
  "spi_transfer [] w = ([], w)"
| "spi_transfer (tx # txs) w =
     (let (rx, w') = spi_exchange tx w; (rxs, w'') = spi_transfer txs w' in (rx # rxs, w''))"

definition spi_write :: "u8 list \<Rightarrow> world \<Rightarrow> world res" where
  "spi_write buf w = Inr (snd (spi_transfer buf w))"

definition spi_write_bytes :: "int list \<Rightarrow> world \<Rightarrow> world res" where
  "spi_write_bytes xs w = bind_res (py_bytes xs) (\<lambda>buf. spi_write buf w)"

definition spi_write_readinto :: "u8 list \<Rightarrow> u8 list \<Rightarrow> world \<Rightarrow> (u8 list \<times> world) res" where
  "spi_write_readinto out buf w =
     (if length out = length buf then Inr (spi_transfer out w) else Inl ValueError)"

definition readinto ::
  "u8 list \<Rightarrow> ('l \<Rightarrow> u8 list) \<Rightarrow> (u8 list \<Rightarrow> 'l \<Rightarrow> 'l) \<Rightarrow> 'l \<times> world \<Rightarrow> ('l \<times> world) res" where
  "readinto out get put = (\<lambda>(l, w).
     bind_res (spi_write_readinto out (get l) w) (\<lambda>(rx, w'). Inr (put rx l, w')))"

definition display_scroll :: "int \<Rightarrow> world \<Rightarrow> world res" where
  [hb_prims]: "display_scroll n w = Inr (emit (Scroll n) w)"

definition display_show :: "image \<Rightarrow> world \<Rightarrow> world res" where
  [hb_prims]: "display_show i w = Inr (emit (Show i) w)"

definition print :: "string \<Rightarrow> world \<Rightarrow> world res" where
  [hb_prims]: "print s w = Inr (emit (Print s) w)"

definition set_readyToSend :: "bool \<Rightarrow> world \<Rightarrow> world res" where
  [hb_prims]: "set_readyToSend b w = Inr (w\<lparr>readyToSend := b\<rparr>)"

section \<open>What a controller answers\<close>

fun feed :: "device \<Rightarrow> u8 list \<Rightarrow> device" where
  "feed d [] = d"
| "feed d (tx # txs) = feed (clock d tx) txs"

fun replies :: "device \<Rightarrow> u8 list \<Rightarrow> u8 list" where
  "replies d [] = []"
| "replies d (tx # txs) = miso d # replies (clock d tx) txs"

definition wire :: "device \<Rightarrow> u8 list \<Rightarrow> event list" where
  "wire d txs = map (\<lambda>(tx, rx). SpiByte tx rx) (zip txs (replies d txs))"

primcorec echo_device :: "u8 \<Rightarrow> device" where
  "echo_device b = Device b (\<lambda>tx. echo_device tx)"

section \<open>Effects of the calls\<close>

lemma emit_simps [simp]:
  "trace (emit e w) = trace w @ [e]"
  "readyToSend (emit e w) = readyToSend w"
  "dev (emit e w) = dev w"
  by (simp_all add: emit_def)

lemma emit_update_commute [simp]:
  "emit e (w\<lparr>readyToSend := b\<rparr>) = (emit e w)\<lparr>readyToSend := b\<rparr>"
  "emit e (w\<lparr>dev := d\<rparr>) = (emit e w)\<lparr>dev := d\<rparr>"
  by (simp_all add: emit_def)

lemma replies_length [simp]: "length (replies d txs) = length txs"
  by (induction txs arbitrary: d) simp_all

lemma feed_append: "feed d (xs @ ys) = feed (feed d xs) ys"
  by (induction xs arbitrary: d) simp_all

lemma replies_append: "replies d (xs @ ys) = replies d xs @ replies (feed d xs) ys"
  by (induction xs arbitrary: d) simp_all

lemma wire_Nil [simp]: "wire d [] = []"
  by (simp add: wire_def)

lemma wire_Cons [simp]: "wire d (tx # txs) = SpiByte tx (miso d) # wire (clock d tx) txs"
  by (simp add: wire_def)

lemma wire_append: "wire d (xs @ ys) = wire d xs @ wire (feed d xs) ys"
  by (induction xs arbitrary: d) simp_all

lemma length_wire [simp]: "length (wire d txs) = length txs"
  by (simp add: wire_def)

lemma spi_transfer_eq:
  "spi_transfer txs w =
     (replies (dev w) txs, w\<lparr>trace := trace w @ wire (dev w) txs, dev := feed (dev w) txs\<rparr>)"
proof (induction txs arbitrary: w)
  case Nil
  show ?case by simp
next
  case (Cons tx txs)
  show ?case
    by (simp add: Cons.IH spi_exchange_def emit_def)
qed

lemma spi_write_eq [hb_prims]:
  "spi_write buf w = Inr (w\<lparr>trace := trace w @ wire (dev w) buf, dev := feed (dev w) buf\<rparr>)"
  by (simp add: spi_write_def spi_transfer_eq)

lemma spi_write_bytes_single [hb_prims]:
  "spi_write_bytes [x] w =
     (if 0 \<le> x \<and> x < 256
      then Inr (w\<lparr>trace := trace w @ [SpiByte (word_of_int x) (miso (dev w))],
                   dev := clock (dev w) (word_of_int x)\<rparr>)
      else Inl ValueError)"
  by (simp add: spi_write_bytes_def py_bytes_single spi_write_eq)

lemma spi_write_readinto_eq:
  "length out = length buf \<Longrightarrow>
   spi_write_readinto out buf w =
     Inr (replies (dev w) out,
          w\<lparr>trace := trace w @ wire (dev w) out, dev := feed (dev w) out\<rparr>)"
  by (simp add: spi_write_readinto_def spi_transfer_eq)

lemma spi_write_readinto_mismatch:
  "length out \<noteq> length buf \<Longrightarrow> spi_write_readinto out buf w = Inl ValueError"
  by (simp add: spi_write_readinto_def)

lemma readinto_eq:
  "length out = length (get l) \<Longrightarrow>
   readinto out get put (l, w) =
     Inr (put (replies (dev w) out) l,
          w\<lparr>trace := trace w @ wire (dev w) out, dev := feed (dev w) out\<rparr>)"
  by (simp add: readinto_def spi_write_readinto_eq)

lemma pin_write_digital_ok [simp]:
  "pin_write_digital p 0 w = Inr (emit (WriteDigital p 0) w)"
  "pin_write_digital p 1 w = Inr (emit (WriteDigital p 1) w)"
  by (simp_all add: pin_write_digital_def)

lemma pin_write_analog_iff:
  "(\<exists>w'. pin_write_analog p v w = Inr w') \<longleftrightarrow> 0 \<le> v \<and> v \<le> 1023"
  by (simp add: pin_write_analog_def)

lemma echo_device_replies: "replies (echo_device b) txs = butlast (b # txs)"
  by (induction txs arbitrary: b) simp_all

end
