(* ===== verification/HB_Gate.thy ===== *)
theory HB_Gate
  imports HB_Hardware
begin

text \<open>
  The readiness gate: the two waiting loops every public method of
  \<^verbatim>\<open>src/hummingbird.py\<close> runs on the class attribute \<open>readyToSend\<close> before it touches
  the bus.

  \<^item> \<open>coarse_wait\<close> is the bounded poll
    \<^verbatim>\<open>while (not readyToSend and timeout < 25): sleep(10); timeout += 1\<close>, a recursive
    function on the counter with the measure \<open>25 - timeout\<close>.
  \<^item> \<open>spin_wait\<close> is the unbounded \<^verbatim>\<open>while (not readyToSend): sleep_us(10)\<close>. It has no
    bound, so it is a \<open>partial_function\<close> into \<open>option\<close>; \<open>None\<close> is a loop that
    never ends.

  This theory is about one caller running alone: a sleep then leaves \<open>readyToSend\<close> as
  it is. The lemmas give the exact result of both loops: the poll costs nothing when
  the token is free and exactly 25 sleeps of 10 ms when it is not; the spin returns at
  once when the token is free and never otherwise.
\<close>

section \<open>The two loops\<close>

function coarse_wait :: "int \<Rightarrow> world \<Rightarrow> world res" where
  "coarse_wait timeout w =
     (if \<not> readyToSend w \<and> timeout < 25
      then bind_res (sleep 10 w) (\<lambda>w'. coarse_wait (timeout + 1) w')
      else Inr w)"
  by pat_completeness auto
termination
  by (relation "measure (\<lambda>(timeout, w). nat (25 - timeout))") auto

declare coarse_wait.simps [simp del]

partial_function (option) spin_wait :: "world \<Rightarrow> world res option" where
  "spin_wait w =
     (if readyToSend w then Some (Inr w)
      else case sleep_us 10 w of Inl e \<Rightarrow> Some (Inl e) | Inr w' \<Rightarrow> spin_wait w')"

section \<open>What the waits leave behind\<close>

definition naps :: "nat \<Rightarrow> world \<Rightarrow> world" where
  "naps n w = w\<lparr>trace := trace w @ replicate n (Sleep 10)\<rparr>"

definition idle :: "world \<Rightarrow> world" where
  "idle w = (if readyToSend w then w else naps 25 w)"

lemma naps_simps [simp]:
  "readyToSend (naps n w) = readyToSend w"
  "dev (naps n w) = dev w"
  "trace (naps n w) = trace w @ replicate n (Sleep 10)"
  by (simp_all add: naps_def)

lemma naps_0 [simp]: "naps 0 w = w"
  by (simp add: naps_def)

lemma naps_emit: "naps n (emit (Sleep 10) w) = naps (Suc n) w"
  by (simp add: naps_def emit_def replicate_append_same)

lemma idle_simps [simp]:
  "readyToSend (idle w) = readyToSend w"
  "dev (idle w) = dev w"
  by (simp_all add: idle_def)

lemma idle_ready [simp]: "readyToSend w \<Longrightarrow> idle w = w"
  by (simp add: idle_def)

lemma idle_trace:
  "trace (idle w) = trace w @ (if readyToSend w then [] else replicate 25 (Sleep 10))"
  by (simp add: idle_def)

section \<open>The bounded poll\<close>

lemma coarse_wait_ready: "readyToSend w \<Longrightarrow> coarse_wait timeout w = Inr w"
  by (simp add: coarse_wait.simps)

lemma coarse_wait_expired: "25 \<le> timeout \<Longrightarrow> coarse_wait timeout w = Inr w"
  by (simp add: coarse_wait.simps)

lemma coarse_wait_busy:
  "\<not> readyToSend w \<Longrightarrow> coarse_wait timeout w = Inr (naps (nat (25 - timeout)) w)"
proof (induction timeout w rule: coarse_wait.induct)
  case (1 timeout w)
  show ?case
  proof (cases "timeout < 25")
    case True
    with "1.prems" have "coarse_wait (timeout + 1) (emit (Sleep 10) w)
        = Inr (naps (nat (25 - (timeout + 1))) (emit (Sleep 10) w))"
      by (intro "1.IH") (simp_all add: sleep_def)
    moreover from True have "Suc (nat (25 - (timeout + 1))) = nat (25 - timeout)"
      by simp
    ultimately show ?thesis
      using True "1.prems" by (simp add: coarse_wait.simps [of timeout w] sleep_def naps_emit)
  next
    case False
    then show ?thesis
      by (simp add: coarse_wait_expired)
  qed
qed

lemma coarse_wait_0: "coarse_wait 0 w = Inr (idle w)"
  by (simp add: idle_def coarse_wait_ready coarse_wait_busy)

section \<open>The unbounded spin\<close>

lemma spin_wait_ready: "readyToSend w \<Longrightarrow> spin_wait w = Some (Inr w)"
  by (simp add: spin_wait.simps)

lemma spin_wait_returns_ready:
  assumes "spin_wait w = Some r"
  shows "readyToSend w"
proof (rule spin_wait.raw_induct [where P = "\<lambda>w r. readyToSend w", OF _ assms])
  fix f w r
  assume IH: "\<And>w r. f w = Some r \<Longrightarrow> readyToSend w"
    and eq: "(if readyToSend w then Some (Inr w)
       else case sleep_us 10 w of Inl e \<Rightarrow> Some (Inl e) | Inr w' \<Rightarrow> f w') = Some r"
  show "readyToSend w"
  proof (rule ccontr)
    assume busy: "\<not> readyToSend w"
    with eq have "f (emit (SleepUs 10) w) = Some r"
      by (simp add: sleep_us_def)
    then have "readyToSend (emit (SleepUs 10) w)" by (rule IH)
    with busy show False by simp
  qed
qed

lemma spin_wait_busy: "\<not> readyToSend w \<Longrightarrow> spin_wait w = None"
  using spin_wait_returns_ready [of w] by (cases "spin_wait w") auto

lemma spin_wait_eq: "spin_wait w = (if readyToSend w then Some (Inr w) else None)"
  by (simp add: spin_wait_ready spin_wait_busy)

section \<open>Properties of the gate\<close>

text \<open>
  Acquiring a free token costs nothing: when \<open>readyToSend\<close> is
  true the bounded poll and the spin wait both return at once, without a single sleep
  and without touching the world.
\<close>

theorem acquire_immediate:
  "readyToSend w \<Longrightarrow> coarse_wait 0 w = Inr w \<and> spin_wait w = Some (Inr w)"
  by (simp add: coarse_wait_ready spin_wait_ready)

theorem acquire_immediate_witness:
  "coarse_wait 0 ((boot (echo_device 0))\<lparr>readyToSend := True\<rparr>)
     = Inr ((boot (echo_device 0))\<lparr>readyToSend := True\<rparr>)
   \<and> spin_wait ((boot (echo_device 0))\<lparr>readyToSend := True\<rparr>)
     = Some (Inr ((boot (echo_device 0))\<lparr>readyToSend := True\<rparr>))"
  using acquire_immediate [of "(boot (echo_device 0))\<lparr>readyToSend := True\<rparr>"]
  by simp

text \<open>
  Claim C34 (termination). The bounded poll always returns and never raises. Entered
  with its counter at \<open>timeout\<close> while the token is taken, it sleeps exactly
  \<open>25 - timeout\<close> times for 10 ms (250 ms from the start) and changes nothing else; the
  token is as it was.
\<close>

theorem coarse_wait_exact:
  "coarse_wait timeout w
     = Inr (w\<lparr>trace := trace w
              @ replicate (if readyToSend w then 0 else nat (25 - timeout)) (Sleep 10)\<rparr>)"
  by (simp add: coarse_wait_ready coarse_wait_busy naps_def)

text \<open>
  Claim C33 (liveness). The spin wait has no time-out: for a caller running alone it
  returns only if the token is free when it is entered. Entered with the token taken
  it never returns.
\<close>

theorem spin_wait_never_times_out:
  "\<not> readyToSend w \<Longrightarrow> spin_wait w = None"
  by (rule spin_wait_busy)

theorem spin_wait_never_times_out_witness:
  "spin_wait (boot (echo_device 0)) = None"
  using spin_wait_never_times_out [of "boot (echo_device 0)"]
  by (simp add: boot_def)

end
