(* ===== verification/HB_Encoder.thy ===== *)
theory HB_Encoder
  imports HB_Prelude
begin

text \<open>
  The command encoder: the arithmetic by which \<^verbatim>\<open>setLED\<close>, \<^verbatim>\<open>setTriLED\<close>,
  \<^verbatim>\<open>setPositionServo\<close> and \<^verbatim>\<open>setRotationServo\<close> of \<^verbatim>\<open>src/hummingbird.py\<close> turn their
  arguments into the bytes of a command frame. Each definition is the block of
  assignments the method makes between its port check and its spin wait, with the
  method's own variable names: the clamp first, then the float quotient, then \<open>int()\<close>.

  The lemmas give each value in integer arithmetic (\<open>div\<close>), its range, its values at
  the ends of the input range and its monotonicity. The ranges are what makes the
  later calls \<open>bytes([...])\<close> and \<open>write_analog\<close> safe.
\<close>

section \<open>Definitions\<close>

definition intensityScaled :: "int \<Rightarrow> int" where
  "intensityScaled intensity =
     (let intensity = (if intensity > 100 then 100 else intensity);
          intensity = (if intensity < 0 then 0 else intensity)
      in py_int (py_truediv (intensity * 255) 100))"

definition tri_scaled :: "int \<Rightarrow> int" where
  "tri_scaled colour =
     (let colour = max 0 (min colour 100)
      in py_int (py_truediv (colour * 255) 100))"

definition tri_port_val :: "int \<Rightarrow> int" where
  "tri_port_val port = 0xC3 + port"

definition angle_conv :: "int \<Rightarrow> int" where
  "angle_conv angle =
     (let angle = max 0 (min angle 180)
      in py_int (py_truediv (angle * 254) 180))"

definition servo_port_val :: "int \<Rightarrow> int" where
  "servo_port_val port = 0xC5 + port"

definition speed_conv :: "int \<Rightarrow> int" where
  "speed_conv speed =
     (let speed = max (- 100) (min speed 100)
      in if speed > - 10 \<and> speed < 10 then 255
         else py_int (py_truediv (speed * 23) 100 + 122))"

section \<open>Integer characterisations\<close>

lemma intensityScaled_eq [hb_scale]:
  "intensityScaled i = max 0 (min i 100) * 255 div 100"
  by (auto simp: intensityScaled_def Let_def py_int_truediv max_def min_def)

lemma tri_scaled_eq [hb_scale]:
  "tri_scaled c = max 0 (min c 100) * 255 div 100"
  by (simp add: tri_scaled_def Let_def py_int_truediv)

lemma tri_scaled_intensityScaled: "tri_scaled c = intensityScaled c"
  by (simp add: tri_scaled_eq intensityScaled_eq)

lemma angle_conv_eq [hb_scale]:
  "angle_conv a = max 0 (min a 180) * 254 div 180"
  by (simp add: angle_conv_def Let_def py_int_truediv)

lemma speed_conv_eq [hb_scale]:
  "speed_conv s =
     (let c = max (- 100) (min s 100)
      in if - 10 < c \<and> c < 10 then 255 else c * 23 div 100 + 122)"
proof -
  define c where "c = max (- 100) (min s 100)"
  have "0 \<le> c * 23 + 122 * 100"
    unfolding c_def by linarith
  then have "py_int (py_truediv (c * 23) 100 + 122) = c * 23 div 100 + 122"
    using py_int_truediv_add [of "c * 23" 122 100] by simp
  then show ?thesis
    by (simp add: speed_conv_def Let_def c_def)
qed

section \<open>Ranges\<close>

lemma scaled_255_bounds:
  fixes c :: int
  assumes "0 \<le> c" and "c \<le> 100"
  shows "0 \<le> c * 255 div 100" and "c * 255 div 100 \<le> 255"
  using assms by (simp_all add: pos_imp_zdiv_nonneg_iff)

lemma intensityScaled_bounds: "0 \<le> intensityScaled i \<and> intensityScaled i \<le> 255"
  using scaled_255_bounds [of "max 0 (min i 100)"] by (simp add: intensityScaled_eq)

lemma tri_scaled_bounds: "0 \<le> tri_scaled c \<and> tri_scaled c \<le> 255"
  by (simp add: tri_scaled_intensityScaled intensityScaled_bounds)

lemma angle_conv_bounds: "0 \<le> angle_conv a \<and> angle_conv a \<le> 254"
proof -
  define c where "c = max 0 (min a 180)"
  have c: "0 \<le> c" "c \<le> 180" by (simp_all add: c_def)
  then have "0 \<le> c * 254 div 180"
    by (simp add: pos_imp_zdiv_nonneg_iff)
  moreover from c have "c * 254 div 180 \<le> 254" by linarith
  ultimately show ?thesis by (simp add: angle_conv_eq c_def)
qed

lemma speed_conv_range:
  "speed_conv s = 255 \<or> (99 \<le> speed_conv s \<and> speed_conv s \<le> 119)
     \<or> (124 \<le> speed_conv s \<and> speed_conv s \<le> 145)"
proof -
  define c where "c = max (- 100) (min s 100)"
  have c: "- 100 \<le> c" "c \<le> 100" by (simp_all add: c_def)
  show ?thesis
  proof (cases "- 10 < c \<and> c < 10")
    case True
    then show ?thesis by (simp add: speed_conv_eq Let_def c_def)
  next
    case False
    with c have "(- 23 \<le> c * 23 div 100 \<and> c * 23 div 100 \<le> - 3)
        \<or> (2 \<le> c * 23 div 100 \<and> c * 23 div 100 \<le> 23)"
      by linarith
    with False show ?thesis
      by (simp add: speed_conv_eq Let_def c_def [symmetric]) linarith
  qed
qed

lemma speed_conv_bounds: "0 \<le> speed_conv s \<and> speed_conv s \<le> 255"
  using speed_conv_range [of s] by linarith

lemma tri_port_val_bounds:
  "1 \<le> port \<Longrightarrow> port \<le> 2 \<Longrightarrow> 0 \<le> tri_port_val port \<and> tri_port_val port < 256"
  by (simp add: tri_port_val_def)

lemma servo_port_val_bounds:
  "1 \<le> port \<Longrightarrow> port \<le> 4 \<Longrightarrow> 0 \<le> servo_port_val port \<and> servo_port_val port < 256"
  by (simp add: servo_port_val_def)

section \<open>End points, clamping and monotonicity\<close>

lemma intensityScaled_clamps:
  "i \<le> 0 \<Longrightarrow> intensityScaled i = 0"
  "100 \<le> i \<Longrightarrow> intensityScaled i = 255"
  by (simp_all add: intensityScaled_eq)

lemma intensityScaled_mono: "i \<le> j \<Longrightarrow> intensityScaled i \<le> intensityScaled j"
  unfolding intensityScaled_eq
  by (intro zdiv_mono1 mult_right_mono) (simp_all add: max_def min_def)

lemma intensityScaled_analog: "0 \<le> intensityScaled i * 4 \<and> intensityScaled i * 4 \<le> 1023"
  using intensityScaled_bounds [of i] by linarith

lemma angle_conv_clamps:
  "a \<le> 0 \<Longrightarrow> angle_conv a = 0"
  "180 \<le> a \<Longrightarrow> angle_conv a = 254"
  by (simp_all add: angle_conv_eq)

lemma angle_conv_mono: "a \<le> b \<Longrightarrow> angle_conv a \<le> angle_conv b"
  unfolding angle_conv_eq
  by (intro zdiv_mono1 mult_right_mono) (simp_all add: max_def min_def)

lemma speed_conv_stop: "- 10 < s \<Longrightarrow> s < 10 \<Longrightarrow> speed_conv s = 255"
  by (simp add: speed_conv_eq Let_def)

lemma speed_conv_clamps:
  "s \<le> - 100 \<Longrightarrow> speed_conv s = 99"
  "100 \<le> s \<Longrightarrow> speed_conv s = 145"
  by (simp_all add: speed_conv_eq Let_def)

lemma speed_conv_mono_forward:
  assumes "10 \<le> s" and "s \<le> t"
  shows "speed_conv s \<le> speed_conv t"
proof -
  have "min s 100 * 23 div 100 \<le> min t 100 * 23 div 100"
    using assms by (intro zdiv_mono1 mult_right_mono) (simp_all add: min_def)
  with assms show ?thesis
    by (simp add: speed_conv_eq Let_def)
qed

lemma speed_conv_mono_backward:
  assumes "s \<le> t" and "t \<le> - 10"
  shows "speed_conv s \<le> speed_conv t"
proof -
  have "max (- 100) s * 23 div 100 \<le> max (- 100) t * 23 div 100"
    using assms by (intro zdiv_mono1 mult_right_mono) (simp_all add: max_def)
  with assms show ?thesis
    by (simp add: speed_conv_eq Let_def)
qed

section \<open>Properties of the encoder\<close>

text \<open>
  Claim C36 (equivalence). The brightness byte of \<^verbatim>\<open>setLED\<close> and of each channel of
  \<^verbatim>\<open>setTriLED\<close>, computed in the source with a float quotient and \<open>int()\<close>, is the
  integer quotient of the clamped percentage: inputs below 0 give 0, inputs above 100
  give 255, and in between the byte is \<open>intensity * 255 div 100\<close>, truncated and not
  rounded.
\<close>

theorem led_byte_spec:
  "intensityScaled i = (if i < 0 then 0 else if 100 < i then 255 else i * 255 div 100)
   \<and> tri_scaled i = intensityScaled i"
  by (simp add: intensityScaled_eq tri_scaled_eq max_def min_def)

text \<open>
  Every value the encoder hands to \<open>bytes([...])\<close> is a byte, and the
  value \<^verbatim>\<open>setLED\<close> hands to \<open>write_analog\<close> for the LED ports 2 and 3 is within the
  0 to 1023 the pin accepts, whatever the caller passes.
\<close>

theorem encoder_outputs_in_range:
  "0 \<le> intensityScaled i \<and> intensityScaled i < 256
   \<and> 0 \<le> intensityScaled i * 4 \<and> intensityScaled i * 4 \<le> 1023
   \<and> 0 \<le> tri_scaled c \<and> tri_scaled c < 256
   \<and> 0 \<le> angle_conv a \<and> angle_conv a < 256
   \<and> 0 \<le> speed_conv s \<and> speed_conv s < 256"
  using intensityScaled_bounds [of i] tri_scaled_bounds [of c] angle_conv_bounds [of a]
    speed_conv_bounds [of s]
  by simp

text \<open>
  The position servo byte is \<open>angle * 254 div 180\<close> of the angle
  clamped to 0..180: it is monotone in the angle, 0 at 0 degrees and below, 127 at 90
  degrees and 254 at 180 degrees and above.
\<close>

theorem angle_conv_spec:
  "angle_conv a = max 0 (min a 180) * 254 div 180
   \<and> angle_conv 90 = 127
   \<and> (a \<le> 0 \<longrightarrow> angle_conv a = 0)
   \<and> (180 \<le> a \<longrightarrow> angle_conv a = 254)
   \<and> (a \<le> b \<longrightarrow> angle_conv a \<le> angle_conv b)"
  by (simp add: angle_conv_clamps angle_conv_mono) (simp add: angle_conv_eq)

theorem angle_conv_spec_witness:
  "angle_conv 200 = 254 \<and> angle_conv (- 5) = 0 \<and> angle_conv 45 \<le> angle_conv 46"
  using angle_conv_spec [of 200 200] angle_conv_spec [of "- 5" 0] angle_conv_spec [of 45 46]
  by simp

text \<open>
  Claim C35 (bounds). The rotation servo byte is the stop code 255 exactly for speeds
  strictly between -10 and 10; every other speed gives a command in 99..119
  (backwards) or 124..145 (forwards), with 99 at -100 and below and 145 at 100 and
  above. The band is wider than the 104..144 the source's comment states, and no
  speed produces 120..123.
\<close>

theorem speed_conv_band:
  "(speed_conv s = 255 \<longleftrightarrow> - 10 < s \<and> s < 10)
   \<and> (s \<le> - 10 \<longrightarrow> 99 \<le> speed_conv s \<and> speed_conv s \<le> 119)
   \<and> (10 \<le> s \<longrightarrow> 124 \<le> speed_conv s \<and> speed_conv s \<le> 145)
   \<and> speed_conv (- 100) = 99 \<and> speed_conv (- 10) = 119
   \<and> speed_conv 10 = 124 \<and> speed_conv 100 = 145"
proof -
  have bwd: "99 \<le> speed_conv s \<and> speed_conv s \<le> 119" if "s \<le> - 10"
    using that speed_conv_mono_backward [of "- 100" s] speed_conv_mono_backward [of s "- 10"]
      speed_conv_clamps(1) [of s] speed_conv_clamps(1) [of "- 100"]
    by (cases "s \<le> - 100") (simp_all add: speed_conv_eq [of "- 10"])
  have fwd: "124 \<le> speed_conv s \<and> speed_conv s \<le> 145" if "10 \<le> s"
    using that speed_conv_mono_forward [of 10 s] speed_conv_mono_forward [of s 100]
      speed_conv_clamps(2) [of s] speed_conv_clamps(2) [of 100]
    by (cases "100 \<le> s") (simp_all add: speed_conv_eq [of 10])
  have "speed_conv s = 255 \<longleftrightarrow> - 10 < s \<and> s < 10"
    using bwd fwd speed_conv_stop [of s] by (cases "s \<le> - 10"; cases "10 \<le> s") auto
  with bwd fwd show ?thesis
    by (simp add: speed_conv_eq [of "- 100"] speed_conv_eq [of "- 10"] speed_conv_eq [of 10]
        speed_conv_eq [of 100])
qed

theorem speed_conv_band_witness:
  "speed_conv 0 = 255 \<and> 99 \<le> speed_conv (- 50) \<and> speed_conv 50 \<le> 145"
  using speed_conv_band [of 0] speed_conv_band [of "- 50"] speed_conv_band [of 50]
  by simp

end
