(* ===== verification/HB_Decoder.thy ===== *)
theory HB_Decoder
  imports HB_Hardware
begin

text \<open>
  The sensor decoder: the formulas by which \<^verbatim>\<open>getSensor\<close> and \<^verbatim>\<open>getBattery\<close> of
  \<^verbatim>\<open>src/hummingbird.py\<close> turn the byte read from the bus into the value they return.
  \<open>sensor_value\<close> is the \<^verbatim>\<open>if\<close>/\<^verbatim>\<open>elif\<close> chain over the sensor kind (in the source's
  order: distance, sound, dial, everything else), \<open>battery_value\<close> the millivolt
  formula; both take the integer that \<open>int.from_bytes\<close> produced.

  The lemmas give each formula in integer arithmetic (\<open>rhe_div\<close>, Python's rounding of
  halves to the even neighbour), show where that rounding differs from rounding
  halves up (only for the distance sensor), bound the result for a raw byte and show
  that every formula is monotone in the raw reading.
\<close>

section \<open>Definitions\<close>

definition sensor_value :: "int \<Rightarrow> int \<Rightarrow> int" where
  "sensor_value sensor raw =
     (if sensor = 3 then py_round (py_truediv (raw * 117) 100)
      else if sensor = 4 then py_round (py_truediv (raw * 200) 255)
      else if sensor = 2 then min (py_round (py_truediv (raw * 100) 230)) 100
      else py_round (py_truediv (raw * 100) 255))"

definition battery_value :: "int \<Rightarrow> int" where
  "battery_value raw = py_round (py_truediv (raw * 406) 10)"

section \<open>Integer characterisations\<close>

lemma sensor_value_eq [hb_scale]:
  "sensor_value sensor raw =
     (if sensor = 3 then rhe_div (raw * 117) 100
      else if sensor = 4 then rhe_div (raw * 200) 255
      else if sensor = 2 then min (rhe_div (raw * 100) 230) 100
      else rhe_div (raw * 100) 255)"
  by (simp add: sensor_value_def py_round_truediv)

lemma battery_value_eq [hb_scale]: "battery_value raw = rhe_div (raw * 406) 10"
  by (simp add: battery_value_def py_round_truediv)

lemma rhe_div_no_tie:
  assumes "0 < b" and "2 * (a mod b) \<noteq> b"
  shows "rhe_div a b = (2 * a + b) div (2 * b)"
proof -
  have r: "0 \<le> a mod b" "a mod b < b" using assms(1) by simp_all
  have "2 * (b * (a div b) + a mod b) + b = (2 * (a mod b) + b) + (a div b) * (2 * b)"
    by (simp only: algebra_simps)
  then have eq: "2 * a + b = (2 * (a mod b) + b) + (a div b) * (2 * b)"
    by (simp only: mult_div_mod_eq)
  have split: "(2 * a + b) div (2 * b) = a div b + (2 * (a mod b) + b) div (2 * b)"
    unfolding eq using assms(1) div_mult_self1 [of "2 * b" "2 * (a mod b) + b" "a div b"]
    by simp
  show ?thesis
  proof (cases "2 * (a mod b) < b")
    case True
    with r assms have "(2 * (a mod b) + b) div (2 * b) = 0"
      by (intro div_pos_pos_trivial) simp_all
    with True show ?thesis
      by (simp add: rhe_div_def Let_def split)
  next
    case False
    with assms have big: "b < 2 * (a mod b)" by simp
    have "(2 * (a mod b) + b) div (2 * b) = 1 + (2 * (a mod b) - b) div (2 * b)"
      using assms(1) div_mult_self1 [of "2 * b" "2 * (a mod b) - b" 1]
      by (simp add: add.commute)
    moreover have "(2 * (a mod b) - b) div (2 * b) = 0"
      using big r by (intro div_pos_pos_trivial) simp_all
    ultimately show ?thesis using big
      by (simp add: rhe_div_def Let_def split)
  qed
qed

lemma rhe_div_odd:
  assumes "0 < b" and "odd b"
  shows "rhe_div a b = (2 * a + b) div (2 * b)"
proof (rule rhe_div_no_tie [OF assms(1)])
  from assms(2) show "2 * (a mod b) \<noteq> b"
    by (metis dvd_triv_left)
qed

lemma sensor_value_light: "sensor \<notin> {2, 3, 4} \<Longrightarrow> sensor_value sensor raw = (200 * raw + 255) div 510"
  by (simp add: sensor_value_eq rhe_div_odd algebra_simps)

lemma sensor_value_sound: "sensor_value 4 raw = (400 * raw + 255) div 510"
  by (simp add: sensor_value_eq rhe_div_odd algebra_simps)

lemma battery_value_half_up: "battery_value raw = (812 * raw + 10) div 20"
proof -
  have "even (raw * 406 mod 10)"
    by (intro dvd_mod) simp_all
  then have "raw * 406 mod 10 \<noteq> 5"
    by (metis odd_numeral)
  then have "2 * (raw * 406 mod 10) \<noteq> 10"
    by simp
  then show ?thesis
    by (simp add: battery_value_eq rhe_div_no_tie algebra_simps)
qed

section \<open>Ranges for a raw byte\<close>

lemma rhe_div_between:
  assumes "0 < b" and "lo \<le> a" and "a \<le> hi"
  shows "rhe_div lo b \<le> rhe_div a b \<and> rhe_div a b \<le> rhe_div hi b"
  using assms by (simp add: rhe_div_mono)

lemma rhe_div_byte_range:
  fixes k :: int
  assumes "0 \<le> k" and "0 < b" and "0 \<le> raw" and "raw \<le> 255"
  shows "0 \<le> rhe_div (raw * k) b \<and> rhe_div (raw * k) b \<le> rhe_div (255 * k) b"
proof -
  from assms have "0 \<le> raw * k" and "raw * k \<le> 255 * k"
    by (simp_all add: mult_right_mono)
  with rhe_div_between [of b 0 "raw * k" "255 * k"] assms(2) show ?thesis
    by (simp add: rhe_div_def)
qed

lemma sensor_value_range:
  assumes "0 \<le> raw" and "raw \<le> 255"
  shows "0 \<le> sensor_value sensor raw"
    and "sensor_value sensor raw \<le> (if sensor = 3 then 298 else if sensor = 4 then 200 else 100)"
proof -
  have d: "0 \<le> rhe_div (raw * 117) 100 \<and> rhe_div (raw * 117) 100 \<le> 298"
    using rhe_div_byte_range [of 117 100 raw] assms by (simp add: rhe_div_def)
  have s: "0 \<le> rhe_div (raw * 200) 255 \<and> rhe_div (raw * 200) 255 \<le> 200"
    using rhe_div_byte_range [of 200 255 raw] assms by (simp add: rhe_div_def)
  have p: "0 \<le> rhe_div (raw * 100) 230"
    using rhe_div_byte_range [of 100 230 raw] assms by simp
  have l: "0 \<le> rhe_div (raw * 100) 255 \<and> rhe_div (raw * 100) 255 \<le> 100"
    using rhe_div_byte_range [of 100 255 raw] assms by (simp add: rhe_div_def)
  from d s p l show "0 \<le> sensor_value sensor raw"
    by (simp add: sensor_value_eq)
  from d s p l show "sensor_value sensor raw
      \<le> (if sensor = 3 then 298 else if sensor = 4 then 200 else 100)"
    by (simp add: sensor_value_eq)
qed

lemma battery_value_range:
  assumes "0 \<le> raw" and "raw \<le> 255"
  shows "0 \<le> battery_value raw \<and> battery_value raw \<le> 10353"
  using rhe_div_byte_range [of 406 10 raw] assms by (simp add: battery_value_eq rhe_div_def)

section \<open>Monotonicity and saturation\<close>

lemma sensor_value_mono:
  assumes "raw \<le> raw'"
  shows "sensor_value sensor raw \<le> sensor_value sensor raw'"
proof -
  have m: "rhe_div (raw * k) b \<le> rhe_div (raw' * k) b" if "0 \<le> k" and "0 < b" for k b
    using assms that by (intro rhe_div_mono mult_right_mono)
  from m [of 100 230]
  have "min (rhe_div (raw * 100) 230) 100 \<le> min (rhe_div (raw' * 100) 230) 100"
    by linarith
  with m [of 117 100] m [of 200 255] m [of 100 255] show ?thesis
    by (simp add: sensor_value_eq)
qed

lemma battery_value_mono: "raw \<le> raw' \<Longrightarrow> battery_value raw \<le> battery_value raw'"
  by (simp add: battery_value_eq rhe_div_mono)

lemma dial_saturates:
  assumes "229 \<le> raw"
  shows "sensor_value 2 raw = 100"
proof -
  from assms have "rhe_div (229 * 100) 230 \<le> rhe_div (raw * 100) 230"
    by (intro rhe_div_mono) simp_all
  then have "100 \<le> rhe_div (raw * 100) 230"
    by (simp add: rhe_div_def)
  then show ?thesis
    by (simp add: sensor_value_eq)
qed

lemma distance_ties_to_even:
  "sensor_value 3 50 = 58" "sensor_value 3 150 = 176" "sensor_value 3 250 = 292"
  by (simp_all add: sensor_value_eq rhe_div_def)

lemma dial_no_tie: "2 * (raw * 100 mod 230) \<noteq> (230::int)"
proof
  assume "2 * (raw * 100 mod 230) = (230::int)"
  then have "raw * 100 mod 230 = 115" by simp
  moreover have "(10::int) dvd raw * 100 mod 230"
    by (intro dvd_mod) simp_all
  ultimately have "(10::int) dvd 115" by simp
  then show False by simp
qed

section \<open>Properties of the decoder\<close>

text \<open>
  Claim C37 (bounds). Whatever byte the controller returns and whatever sensor kind the
  caller names, the value \<^verbatim>\<open>getSensor\<close> computes is within the range its documentation
  gives: 0..100 for light, dial and other sensors, 0..200 for sound (the documentation
  says 0..100 there), 0..298 centimetres for distance; \<^verbatim>\<open>getBattery\<close> computes between
  0 and 10353 millivolts.
\<close>

theorem reading_ranges:
  fixes b :: u8
  shows "0 \<le> sensor_value sensor (uint b)
    \<and> sensor_value sensor (uint b) \<le> (if sensor = 3 then 298 else if sensor = 4 then 200 else 100)
    \<and> 0 \<le> battery_value (uint b) \<and> battery_value (uint b) \<le> 10353"
  using sensor_value_range [of "uint b" sensor] battery_value_range [of "uint b"]
    uint_u8_bounds [of b]
  by simp

text \<open>
  Claim C38 (equivalence). Python's \<open>round\<close> sends halves to the even neighbour. For the
  light, sound and dial formulas and for the battery formula no reading ever lies on a
  half, so each is the familiar "add half and truncate" in integer arithmetic; only the
  distance formula meets halves (at raw readings 50, 150 and 250), and there the
  result is the even neighbour.
\<close>

theorem rounding_in_integers:
  "(sensor \<notin> {2, 3, 4} \<longrightarrow> sensor_value sensor raw = (200 * raw + 255) div 510)
   \<and> sensor_value 4 raw = (400 * raw + 255) div 510
   \<and> sensor_value 2 raw = min ((200 * raw + 230) div 460) 100
   \<and> battery_value raw = (812 * raw + 10) div 20
   \<and> sensor_value 3 raw = rhe_div (raw * 117) 100
   \<and> sensor_value 3 50 = 58 \<and> sensor_value 3 150 = 176 \<and> sensor_value 3 250 = 292"
proof -
  have "sensor_value 2 raw = min ((200 * raw + 230) div 460) 100"
    by (simp add: sensor_value_eq rhe_div_no_tie [OF _ dial_no_tie] algebra_simps)
  then show ?thesis
    by (simp add: sensor_value_light sensor_value_sound battery_value_half_up
        distance_ties_to_even) (simp add: sensor_value_eq)
qed

theorem rounding_in_integers_witness:
  "sensor_value 1 128 = 50 \<and> sensor_value 5 255 = 100"
  using rounding_in_integers [of 1 128] rounding_in_integers [of 5 255]
  by simp

text \<open>
  Every decoding formula is monotone in the raw reading, and the
  dial formula saturates: every raw reading of 229 or more reads as 100.
\<close>

theorem readings_monotone:
  "(raw \<le> raw' \<longrightarrow> sensor_value sensor raw \<le> sensor_value sensor raw'
                  \<and> battery_value raw \<le> battery_value raw')
   \<and> (229 \<le> raw \<longrightarrow> sensor_value 2 raw = 100)"
  by (simp add: sensor_value_mono battery_value_mono dial_saturates)

theorem readings_monotone_witness:
  "sensor_value 3 10 \<le> sensor_value 3 20 \<and> sensor_value 2 240 = 100"
  using readings_monotone [of 10 20 3] readings_monotone [of 240 240 2]
  by simp

text \<open>
  The decoder on the values the specification lists: a dial at
  230 and at 255 reads 100, a distance reading of 100 is 117 cm, a sound reading of
  255 is 200, and a battery reading of 255 is 10353 mV (the specification's table
  says 10363).
\<close>

theorem decoder_examples:
  "sensor_value sensor_dial 230 = 100 \<and> sensor_value sensor_dial 255 = 100
   \<and> sensor_value sensor_distance 100 = 117 \<and> sensor_value sensor_sound 255 = 200
   \<and> sensor_value sensor_light 255 = 100 \<and> sensor_value sensor_other 0 = 0
   \<and> battery_value 255 = 10353"
  by (simp add: sensor_value_eq battery_value_eq rhe_div_def hb_consts)

end
