(* ===== verification/HB_Protocol.thy ===== *)
theory HB_Protocol
  imports HB_Hardware
begin

text \<open>
  The bus protocol as a specification, independent of the methods that speak it.

  \<^item> \<open>transaction d slots\<close> is the framed exchange every method of
    \<^verbatim>\<open>src/hummingbird.py\<close> performs: settle for \<open>waitTime_Initial\<close>, strobe (pin 16) low,
    \<open>waitTime_1\<close>, then each byte followed by its gap, strobe high. \<open>command_gaps\<close>,
    \<open>poll_gaps\<close> are the gap profiles the source uses for four-byte commands and for
    the six-byte sensor poll; \<open>performed\<close> is the world after a transaction.
  \<^item> \<open>bus\<close> is the strobe line seen as a three-state machine (released, selected with
    the bytes sent so far, fault) that reads a trace event by event. \<open>framed\<close> says a
    trace never clocks a byte while the strobe is high and never opens a frame inside
    a frame; \<open>frames\<close> abstracts a trace to the list of byte frames it put on the bus.
  \<^item> \<open>elapsed_us\<close> adds up the sleeps of a trace.

  The lemmas show that a transaction appended to a framed trace leaves it framed,
  adds exactly one frame, and takes 504 microseconds plus its gaps.
\<close>

section \<open>Transactions\<close>

fun clocked :: "device \<Rightarrow> (u8 \<times> int) list \<Rightarrow> event list" where
  "clocked d [] = []"
| "clocked d ((tx, gap) # slots) = SpiByte tx (miso d) # SleepUs gap # clocked (clock d tx) slots"

definition transaction :: "device \<Rightarrow> (u8 \<times> int) list \<Rightarrow> event list" where
  "transaction d slots =
     [SleepUs waitTime_Initial, WriteDigital Pin16 0, SleepUs waitTime_1]
       @ clocked d slots @ [WriteDigital Pin16 1]"

definition command_gaps :: "int list" where
  "command_gaps = [waitTime_2, waitTime_2, waitTime_2, waitTime_1]"

definition poll_gaps :: "int list" where
  "poll_gaps = [waitTime_2, waitTime_2, waitTime_2, waitTime_1, waitTime_1, waitTime_1]"

definition command :: "u8 list \<Rightarrow> (u8 \<times> int) list" where
  "command bytes = zip bytes command_gaps"

definition performed :: "(u8 \<times> int) list \<Rightarrow> world \<Rightarrow> world" where
  "performed slots w =
     w\<lparr>readyToSend := True,
       trace := trace w @ transaction (dev w) slots,
       dev := feed (dev w) (map fst slots)\<rparr>"

section \<open>The strobe line as a state machine\<close>

datatype bus = Released | Selected "u8 list" | Fault

fun bus_step :: "bus \<Rightarrow> event \<Rightarrow> bus" where
  "bus_step Fault e = Fault"
| "bus_step Released (WriteDigital Pin16 v) = (if v = 0 then Selected [] else Released)"
| "bus_step (Selected bs) (WriteDigital Pin16 v) = (if v = 0 then Fault else Released)"
| "bus_step Released (SpiByte tx rx) = Fault"
| "bus_step (Selected bs) (SpiByte tx rx) = Selected (bs @ [tx])"
| "bus_step s e = s"

definition bus_after :: "bus \<Rightarrow> event list \<Rightarrow> bus" where
  "bus_after s es = foldl bus_step s es"

definition framed :: "event list \<Rightarrow> bool" where
  "framed es \<longleftrightarrow> bus_after Released es = Released"

fun frames_from :: "bus \<Rightarrow> event list \<Rightarrow> u8 list list" where
  "frames_from s [] = []"
| "frames_from s (e # es) =
     (case (s, bus_step s e) of
        (Selected bs, Released) \<Rightarrow> bs # frames_from Released es
      | (_, s') \<Rightarrow> frames_from s' es)"

definition frames :: "event list \<Rightarrow> u8 list list" where
  "frames es = frames_from Released es"

definition quiet :: "event \<Rightarrow> bool" where
  "quiet e = (case e of WriteDigital p v \<Rightarrow> p \<noteq> Pin16 | SpiByte tx rx \<Rightarrow> False | _ \<Rightarrow> True)"

section \<open>Time\<close>

fun duration_us :: "event \<Rightarrow> int" where
  "duration_us (Sleep ms) = 1000 * ms"
| "duration_us (SleepUs us) = us"
| "duration_us e = 0"

definition elapsed_us :: "event list \<Rightarrow> int" where
  "elapsed_us es = sum_list (map duration_us es)"

section \<open>Lemmas on the state machine\<close>

lemma bus_after_simps [simp]:
  "bus_after s [] = s"
  "bus_after s (e # es) = bus_after (bus_step s e) es"
  by (simp_all add: bus_after_def)

lemma bus_after_append: "bus_after s (xs @ ys) = bus_after (bus_after s xs) ys"
  by (simp add: bus_after_def)

lemma bus_step_quiet [simp]: "quiet e \<Longrightarrow> bus_step s e = s"
  by (cases "(s, e)" rule: bus_step.cases) (simp_all add: quiet_def)

lemma bus_after_quiet: "\<forall>e \<in> set es. quiet e \<Longrightarrow> bus_after s es = s"
  by (induction es) simp_all

lemma bus_after_Fault [simp]: "bus_after Fault es = Fault"
  by (induction es) simp_all

lemma frames_from_append:
  "frames_from s (xs @ ys) = frames_from s xs @ frames_from (bus_after s xs) ys"
  by (induction xs arbitrary: s) (auto split: bus.splits)

lemma frames_from_quiet: "\<forall>e \<in> set es. quiet e \<Longrightarrow> frames_from s es = []"
  by (induction es) (auto split: bus.splits)

lemma quiet_simps [simp]:
  "quiet (Sleep n)" "quiet (SleepUs n)" "quiet (WriteAnalog p v)"
  "quiet (SpiInit a b c p1 p2 p3)" "quiet (Scroll n)" "quiet (Show i)" "quiet (Print s)"
  "quiet (WriteDigital p v) \<longleftrightarrow> p \<noteq> Pin16" "\<not> quiet (SpiByte tx rx)"
  by (simp_all add: quiet_def)

section \<open>Lemmas on transactions\<close>

lemma bus_after_clocked:
  "bus_after (Selected bs) (clocked d slots) = Selected (bs @ map fst slots)"
  by (induction slots arbitrary: d bs) auto

lemma frames_from_clocked: "frames_from (Selected bs) (clocked d slots) = []"
  by (induction slots arbitrary: d bs) auto

lemma bus_after_transaction [simp]: "bus_after Released (transaction d slots) = Released"
  by (simp add: transaction_def bus_after_append bus_after_clocked)

lemma frames_from_transaction [simp]:
  "frames_from Released (transaction d slots) = [map fst slots]"
  by (simp add: transaction_def frames_from_append frames_from_clocked bus_after_clocked)

lemma framed_Nil [simp]: "framed []"
  by (simp add: framed_def)

lemma framed_append: "framed xs \<Longrightarrow> framed (xs @ ys) \<longleftrightarrow> framed ys"
  by (simp add: framed_def bus_after_append)

lemma framed_transaction [simp]: "framed (transaction d slots)"
  by (simp add: framed_def)

lemma framed_quiet: "\<forall>e \<in> set es. quiet e \<Longrightarrow> framed es"
  by (simp add: framed_def bus_after_quiet)

lemma frames_append: "framed xs \<Longrightarrow> frames (xs @ ys) = frames xs @ frames ys"
  by (simp add: frames_def framed_def frames_from_append)

lemma frames_transaction [simp]: "frames (transaction d slots) = [map fst slots]"
  by (simp add: frames_def)

lemma frames_quiet: "\<forall>e \<in> set es. quiet e \<Longrightarrow> frames es = []"
  by (simp add: frames_def frames_from_quiet)

lemma elapsed_us_append [simp]: "elapsed_us (xs @ ys) = elapsed_us xs + elapsed_us ys"
  by (simp add: elapsed_us_def)

lemma elapsed_us_simps [simp]:
  "elapsed_us [] = 0"
  "elapsed_us (e # es) = duration_us e + elapsed_us es"
  by (simp_all add: elapsed_us_def)

lemma elapsed_us_clocked: "elapsed_us (clocked d slots) = sum_list (map snd slots)"
  by (induction slots arbitrary: d) auto

lemma elapsed_us_transaction:
  "elapsed_us (transaction d slots) = 504 + sum_list (map snd slots)"
  by (simp add: transaction_def elapsed_us_clocked hb_consts)

lemma elapsed_us_replicate: "elapsed_us (replicate n e) = int n * duration_us e"
  by (induction n) (simp_all add: algebra_simps)

lemma performed_simps [simp]:
  "readyToSend (performed slots w)"
  "trace (performed slots w) = trace w @ transaction (dev w) slots"
  "dev (performed slots w) = feed (dev w) (map fst slots)"
  by (simp_all add: performed_def)

lemma map_fst_command:
  "length bytes = 4 \<Longrightarrow> map fst (command bytes) = bytes"
  by (simp add: command_def command_gaps_def)

lemma bus_after_not_Released_byte:
  "bus_after Released (SpiByte tx rx # es) = Fault"
  by simp

section \<open>Properties of the protocol\<close>

text \<open>
  Claim C32 (invariant). A transaction appended to a framed trace leaves it framed and
  adds exactly one frame, made of the transaction's bytes in order: the strobe goes low
  before the first byte and high after the last, whatever the controller answers.
\<close>

theorem transaction_adds_one_frame:
  "framed es \<Longrightarrow>
   framed (es @ transaction d slots)
   \<and> frames (es @ transaction d slots) = frames es @ [map fst slots]"
  by (simp add: framed_append frames_append)

theorem transaction_adds_one_frame_witness:
  "framed ([] @ transaction (echo_device 0) (command [1, 2, 3, 4]))
   \<and> frames ([] @ transaction (echo_device 0) (command [1, 2, 3, 4])) = frames [] @ [[1, 2, 3, 4]]"
  using transaction_adds_one_frame [of "[]" "echo_device 0" "command [1, 2, 3, 4]"]
  by (simp add: map_fst_command)

text \<open>
  The framing predicate rejects what the protocol forbids: a byte
  clocked while the strobe is high, or a strobe pulled low inside an open frame, makes
  the trace unframed, and nothing that follows can repair it.
\<close>

theorem framed_rejects_violations:
  "framed es \<Longrightarrow>
   \<not> framed (es @ SpiByte tx rx # rest)
   \<and> \<not> framed (es @ WriteDigital Pin16 0 # WriteDigital Pin16 0 # rest)"
  by (simp add: framed_def bus_after_append)

theorem framed_rejects_violations_witness:
  "\<not> framed ([] @ SpiByte 1 2 # [WriteDigital Pin16 1])
   \<and> \<not> framed ([] @ WriteDigital Pin16 0 # WriteDigital Pin16 0 # [WriteDigital Pin16 1])"
  using framed_rejects_violations [of "[]" 1 2 "[WriteDigital Pin16 1]"]
  by simp

text \<open>
  The sleeps of a transaction add up to 504 microseconds plus its
  gaps: 808 microseconds for a four-byte command (gaps 100, 100, 100, 4) and 816 for
  the six-byte sensor poll (gaps 100, 100, 100, 4, 4, 4).
\<close>

theorem transaction_timing:
  "(length bytes = 4 \<longrightarrow> elapsed_us (transaction d (command bytes)) = 808)
   \<and> (length bytes = 6 \<longrightarrow> elapsed_us (transaction d (zip bytes poll_gaps)) = 816)"
proof -
  have "sum_list (map snd (zip bytes command_gaps)) = 304" if "length bytes = 4"
  proof -
    from that have "map snd (zip bytes command_gaps) = command_gaps"
      by (simp add: command_gaps_def)
    then show ?thesis by (simp add: command_gaps_def hb_consts)
  qed
  moreover have "sum_list (map snd (zip bytes poll_gaps)) = 312" if "length bytes = 6"
  proof -
    from that have "map snd (zip bytes poll_gaps) = poll_gaps"
      by (simp add: poll_gaps_def)
    then show ?thesis by (simp add: poll_gaps_def hb_consts)
  qed
  ultimately show ?thesis
    by (simp add: elapsed_us_transaction command_def)
qed

theorem transaction_timing_witness:
  "elapsed_us (transaction (echo_device 0) (command [1, 2, 3, 4])) = 808
   \<and> elapsed_us (transaction (echo_device 0) (zip [1, 2, 3, 4, 5, 6] poll_gaps)) = 816"
  using transaction_timing [of "[1, 2, 3, 4]" "echo_device 0"]
    transaction_timing [of "[1, 2, 3, 4, 5, 6]" "echo_device 0"]
  by simp

end
