(* ===== verification/HB_Driver.thy ===== *)
theory HB_Driver
  imports HB_Gate HB_Encoder HB_Decoder HB_Protocol
begin

text \<open>
  The seven public methods of class \<^verbatim>\<open>hummingbird\<close> in \<^verbatim>\<open>src/hummingbird.py\<close>, each
  translated statement by statement: the bounded poll, the check of the port and of the
  token, the encoder's arithmetic, the spin wait, and then the method's transaction as
  a block of library calls (\<open>\<dots>_body\<close>) run by \<open>exec\<close>, from \<^verbatim>\<open>readyToSend = False\<close> to
  \<^verbatim>\<open>readyToSend = True\<close>. A method returns \<open>None\<close> if its spin wait never ends,
  \<open>Some (Inl e)\<close> if a library call raises \<open>e\<close>, and \<open>Some (Inr \<dots>)\<close> otherwise.

  The theorems give the exact outcome of every method on every input and every world
  (one caller running alone): the method always returns, never raises, and either
  performs one transaction of the protocol theory or only idles through the poll.
\<close>

section \<open>Bring-up\<close>

definition startHummingbird :: "world \<Rightarrow> world res" where
  "startHummingbird = exec
     [pin_write_analog Pin0 0,
      sleep waitTime_Start,
      pin_write_digital Pin16 1,
      spi_init 1000000 8 0 Pin13 Pin15 Pin14,
      sleep_us waitTime_Initial,
      pin_write_digital Pin16 0,
      sleep_us waitTime_1,
      spi_write [0xCB],
      sleep_us waitTime_2,
      spi_write [0xFF],
      sleep_us waitTime_2,
      spi_write [0xFF],
      sleep_us waitTime_2,
      spi_write [0xFF],
      sleep_us waitTime_1,
      pin_write_digital Pin16 1,
      set_readyToSend True,
      pin_write_analog Pin2 0,
      pin_write_analog Pin8 0,
      print ''Hummingbird READY'',
      display_show FABULOUS]"

section \<open>Actuators\<close>

definition setLED_body :: "int \<Rightarrow> int \<Rightarrow> (world \<Rightarrow> world res) list" where
  "setLED_body port scaled =
     [set_readyToSend False] @
     (if port = 1 then
        [display_scroll 1,
         sleep_us waitTime_Initial,
         pin_write_digital Pin16 0,
         sleep_us waitTime_1,
         spi_write [0xC0],
         sleep_us waitTime_2,
         spi_write_bytes [scaled],
         sleep_us waitTime_2,
         spi_write [0xFF],
         sleep_us waitTime_2,
         spi_write [0xFF],
         sleep_us waitTime_1,
         pin_write_digital Pin16 1]
      else if port = 2 then
        [display_scroll 2,
         pin_write_analog Pin2 (scaled * 4)]
      else if port = 3 then
        [display_scroll 3,
         pin_write_analog Pin8 (scaled * 4)]
      else []) @
     [set_readyToSend True]"

definition setLED :: "int \<Rightarrow> int \<Rightarrow> world \<Rightarrow> world run" where
  "setLED port intensity w =
     bind_run (Some (coarse_wait 0 w)) (\<lambda>w.
       if port \<ge> 1 \<and> port \<le> 3 \<and> readyToSend w then
         let scaled = intensityScaled intensity
         in bind_run (spin_wait w) (\<lambda>w. Some (exec (setLED_body port scaled) w))
       else Some (Inr w))"

definition command_body :: "int \<Rightarrow> int \<Rightarrow> int \<Rightarrow> int \<Rightarrow> (world \<Rightarrow> world res) list" where
  "command_body b0 b1 b2 b3 =
     [set_readyToSend False,
      sleep_us waitTime_Initial,
      pin_write_digital Pin16 0,
      sleep_us waitTime_1,
      spi_write_bytes [b0],
      sleep_us waitTime_2,
      spi_write_bytes [b1],
      sleep_us waitTime_2,
      spi_write_bytes [b2],
      sleep_us waitTime_2,
      spi_write_bytes [b3],
      sleep_us waitTime_1,
      pin_write_digital Pin16 1,
      set_readyToSend True]"

definition setTriLED :: "int \<Rightarrow> int \<Rightarrow> int \<Rightarrow> int \<Rightarrow> world \<Rightarrow> world run" where
  "setTriLED port red green blue w =
     bind_run (Some (coarse_wait 0 w)) (\<lambda>w.
       if port \<ge> 1 \<and> port \<le> 2 \<and> readyToSend w then
         let port_val = tri_port_val port;
             red = tri_scaled red;
             green = tri_scaled green;
             blue = tri_scaled blue
         in bind_run (spin_wait w) (\<lambda>w. Some (exec (command_body port_val red green blue) w))
       else Some (Inr w))"

definition setPositionServo :: "int \<Rightarrow> int \<Rightarrow> world \<Rightarrow> world run" where
  "setPositionServo port angle w =
     bind_run (Some (coarse_wait 0 w)) (\<lambda>w.
       if port \<ge> 1 \<and> port \<le> 4 \<and> readyToSend w then
         let angle_conv = angle_conv angle;
             port_val = servo_port_val port
         in bind_run (spin_wait w)
              (\<lambda>w. Some (exec (command_body port_val angle_conv 0xFF 0xFF) w))
       else Some (Inr w))"

definition setRotationServo :: "int \<Rightarrow> int \<Rightarrow> world \<Rightarrow> world run" where
  "setRotationServo port speed w =
     bind_run (Some (coarse_wait 0 w)) (\<lambda>w.
       if port \<ge> 1 \<and> port \<le> 4 \<and> readyToSend w then
         let speed_conv = speed_conv speed;
             port_val = servo_port_val port
         in bind_run (spin_wait w)
              (\<lambda>w. Some (exec (command_body port_val speed_conv 0xFF 0xFF) w))
       else Some (Inr w))"

section \<open>Sensors\<close>

definition into :: "nat \<Rightarrow> u8 list \<Rightarrow> u8 list list \<times> world \<Rightarrow> (u8 list list \<times> world) res" where
  "into i out = (\<lambda>(vals, w).
     if i < length vals
     then readinto out (\<lambda>vals. vals ! i) (\<lambda>rx vals. vals[i := rx]) (vals, w)
     else Inl IndexError)"

definition getSensor_body :: "(u8 list list \<times> world \<Rightarrow> (u8 list list \<times> world) res) list" where
  "getSensor_body =
     [io (set_readyToSend False),
      io (sleep_us waitTime_Initial),
      io (pin_write_digital Pin16 0),
      io (sleep_us waitTime_1),
      into 0 [0xCC],
      io (sleep_us waitTime_2),
      into 1 [0x66],
      io (sleep_us waitTime_2),
      into 2 [0x77],
      io (sleep_us waitTime_2),
      into 3 [0x88],
      io (sleep_us waitTime_1),
      into 0 [0x55],
      io (sleep_us waitTime_1),
      into 1 [0x66],
      io (sleep_us waitTime_1),
      io (pin_write_digital Pin16 1),
      io (set_readyToSend True)]"

definition getSensor :: "int \<Rightarrow> int \<Rightarrow> world \<Rightarrow> (int \<times> world) run" where
  "getSensor sensor port w =
     bind_run (Some (coarse_wait 0 w)) (\<lambda>w.
       if port \<ge> 1 \<and> port \<le> 3 \<and> readyToSend w then
         let vals = [bytearray 1, bytearray 1, bytearray 1, bytearray 1]
         in bind_run (spin_wait w) (\<lambda>w. Some (
              bind_res (exec getSensor_body (vals, w)) (\<lambda>(vals, w).
              bind_res (py_index vals (port - 1)) (\<lambda>raw.
              Inr (sensor_value sensor (int_from_bytes_big raw), w)))))
       else Some (Inr (0, w)))"

definition getBattery_body ::
  "((u8 list \<times> u8 list) \<times> world \<Rightarrow> ((u8 list \<times> u8 list) \<times> world) res) list" where
  "getBattery_body =
     [io (set_readyToSend False),
      io (sleep_us waitTime_Initial),
      io (pin_write_digital Pin16 0),
      io (sleep_us waitTime_1),
      readinto [0x55] snd (\<lambda>rx (batt, junk). (batt, rx)),
      io (sleep_us waitTime_2),
      readinto [0x66] snd (\<lambda>rx (batt, junk). (batt, rx)),
      io (sleep_us waitTime_2),
      readinto [0x77] snd (\<lambda>rx (batt, junk). (batt, rx)),
      io (sleep_us waitTime_2),
      readinto [0x88] fst (\<lambda>rx (batt, junk). (rx, junk)),
      io (sleep_us waitTime_1),
      io (pin_write_digital Pin16 1),
      io (set_readyToSend True)]"

definition getBattery :: "world \<Rightarrow> (int \<times> world) run" where
  "getBattery w =
     bind_run (Some (coarse_wait 0 w)) (\<lambda>w.
       if readyToSend w then
         bind_run (spin_wait w) (\<lambda>w. Some (
           bind_res (exec getBattery_body ((bytearray 1, bytearray 1), w)) (\<lambda>((batt, junk), w).
           Inr (battery_value (int_from_bytes_big batt), w))))
       else Some (Inr (0, w)))"

section \<open>The frames the methods send\<close>

definition poll_bytes :: "u8 list" where
  "poll_bytes = [0xCC, 0x66, 0x77, 0x88, 0x55, 0x66]"

definition battery_bytes :: "u8 list" where
  "battery_bytes = [0x55, 0x66, 0x77, 0x88]"

definition frame :: "int \<Rightarrow> int \<Rightarrow> int \<Rightarrow> int \<Rightarrow> u8 list" where
  "frame b0 b1 b2 b3 = map word_of_int [b0, b1, b2, b3]"

definition poll_slot :: "int \<Rightarrow> nat" where
  "poll_slot port = (if port = 1 then 4 else if port = 2 then 5 else 2)"

definition poll_vals :: "u8 list \<Rightarrow> u8 list list" where
  "poll_vals rx = [[rx ! 4], [rx ! 5], [rx ! 2], [rx ! 3]]"

definition ready_world :: world where
  "ready_world = (boot (echo_device 7))\<lparr>readyToSend := True\<rparr>"

section \<open>Running the transaction blocks\<close>

lemma io_apply [simp]: "io f (l, w) = bind_res (f w) (\<lambda>w'. Inr (l, w'))"
  by (simp add: io_def)

lemma into_apply:
  "i < length vals \<Longrightarrow> length out = length (vals ! i) \<Longrightarrow>
   into i out (vals, w) =
     Inr (vals[i := replies (dev w) out],
          w\<lparr>trace := trace w @ wire (dev w) out, dev := feed (dev w) out\<rparr>)"
  by (simp add: into_def readinto_eq)

lemmas hb_frames = command_def command_gaps_def poll_gaps_def performed_def transaction_def

lemma command_body_exec:
  assumes "0 \<le> b0 \<and> b0 < 256" and "0 \<le> b1 \<and> b1 < 256"
    and "0 \<le> b2 \<and> b2 < 256" and "0 \<le> b3 \<and> b3 < 256"
  shows "exec (command_body b0 b1 b2 b3) w = Inr (performed (command (frame b0 b1 b2 b3)) w)"
  using assms by (simp add: command_body_def hb_prims hb_frames frame_def)

lemma setLED_body_exec:
  assumes "0 \<le> scaled \<and> scaled \<le> 255"
  shows "exec (setLED_body port scaled) w = Inr (
     if port = 1
     then performed (command [0xC0, word_of_int scaled, 0xFF, 0xFF]) (emit (Scroll 1) w)
     else if port = 2
     then (emit (WriteAnalog Pin2 (scaled * 4)) (emit (Scroll 2) w))\<lparr>readyToSend := True\<rparr>
     else if port = 3
     then (emit (WriteAnalog Pin8 (scaled * 4)) (emit (Scroll 3) w))\<lparr>readyToSend := True\<rparr>
     else w\<lparr>readyToSend := True\<rparr>)"
  using assms by (simp add: setLED_body_def hb_prims hb_frames)

lemma bytearray_1 [simp]: "bytearray (Suc 0) = [0]"
  by (simp add: bytearray_def)

lemma getSensor_body_exec:
  "exec getSensor_body ([[0], [0], [0], [0]], w) =
     Inr (poll_vals (replies (dev w) poll_bytes), performed (zip poll_bytes poll_gaps) w)"
  by (simp add: getSensor_body_def into_apply hb_prims hb_frames poll_vals_def poll_bytes_def)

lemma getBattery_body_exec:
  "exec getBattery_body (([0], [0]), w) =
     Inr (([replies (dev w) battery_bytes ! 3], [replies (dev w) battery_bytes ! 2]),
          performed (command battery_bytes) w)"
  by (simp add: getBattery_body_def readinto_eq hb_prims hb_frames battery_bytes_def)

lemma poll_vals_index:
  "1 \<le> port \<Longrightarrow> port \<le> 3 \<Longrightarrow> py_index (poll_vals rx) (port - 1) = Inr [rx ! poll_slot port]"
proof -
  assume "1 \<le> port" and "port \<le> 3"
  then consider "port = 1" | "port = 2" | "port = 3" by linarith
  then show ?thesis
    by cases (simp_all add: py_index_def poll_vals_def poll_slot_def)
qed

section \<open>The exact outcome of every method\<close>

lemma startHummingbird_eq:
  "startHummingbird w = Inr (
     w\<lparr>readyToSend := True,
       trace := trace w
         @ [WriteAnalog Pin0 0, Sleep waitTime_Start, WriteDigital Pin16 1,
            SpiInit 1000000 8 0 Pin13 Pin15 Pin14]
         @ transaction (dev w) (command [0xCB, 0xFF, 0xFF, 0xFF])
         @ [WriteAnalog Pin2 0, WriteAnalog Pin8 0, Print ''Hummingbird READY'', Show FABULOUS],
       dev := feed (dev w) [0xCB, 0xFF, 0xFF, 0xFF]\<rparr>)"
  by (simp add: startHummingbird_def hb_prims hb_frames)

lemma setLED_eq:
  "setLED port intensity w = Some (Inr (
     if 1 \<le> port \<and> port \<le> 3 \<and> readyToSend w
     then if port = 1
          then performed (command [0xC0, word_of_int (intensityScaled intensity), 0xFF, 0xFF])
                 (emit (Scroll 1) w)
          else emit (WriteAnalog (if port = 2 then Pin2 else Pin8) (intensityScaled intensity * 4))
                 (emit (Scroll port) w)
     else idle w))"
proof -
  have "port = 2 \<or> port = 3" if "1 \<le> port" "port \<le> 3" "port \<noteq> 1"
    using that by linarith
  then show ?thesis
    using intensityScaled_bounds [of intensity]
    by (auto simp: setLED_def coarse_wait_0 spin_wait_eq Let_def setLED_body_exec)
qed

lemma setTriLED_eq:
  "setTriLED port red green blue w = Some (Inr (
     if 1 \<le> port \<and> port \<le> 2 \<and> readyToSend w
     then performed (command
            (frame (tri_port_val port) (tri_scaled red) (tri_scaled green) (tri_scaled blue))) w
     else idle w))"
  using tri_scaled_bounds [of red] tri_scaled_bounds [of green] tri_scaled_bounds [of blue]
  by (simp add: setTriLED_def coarse_wait_0 spin_wait_eq Let_def command_body_exec
      tri_port_val_bounds)

lemma setPositionServo_eq:
  "setPositionServo port angle w = Some (Inr (
     if 1 \<le> port \<and> port \<le> 4 \<and> readyToSend w
     then performed (command (frame (servo_port_val port) (angle_conv angle) 0xFF 0xFF)) w
     else idle w))"
  using angle_conv_bounds [of angle]
  by (simp add: setPositionServo_def coarse_wait_0 spin_wait_eq Let_def command_body_exec
      servo_port_val_bounds)

lemma setRotationServo_eq:
  "setRotationServo port speed w = Some (Inr (
     if 1 \<le> port \<and> port \<le> 4 \<and> readyToSend w
     then performed (command (frame (servo_port_val port) (speed_conv speed) 0xFF 0xFF)) w
     else idle w))"
  using speed_conv_bounds [of speed]
  by (simp add: setRotationServo_def coarse_wait_0 spin_wait_eq Let_def command_body_exec
      servo_port_val_bounds)

lemma getSensor_eq:
  "getSensor sensor port w = Some (Inr (
     if 1 \<le> port \<and> port \<le> 3 \<and> readyToSend w
     then (sensor_value sensor (uint (replies (dev w) poll_bytes ! poll_slot port)),
           performed (zip poll_bytes poll_gaps) w)
     else (0, idle w)))"
  by (simp add: getSensor_def coarse_wait_0 spin_wait_eq Let_def getSensor_body_exec
      poll_vals_index)

lemma getBattery_eq:
  "getBattery w = Some (Inr (
     if readyToSend w
     then (battery_value (uint (replies (dev w) battery_bytes ! 3)),
           performed (command battery_bytes) w)
     else (0, idle w)))"
  by (simp add: getBattery_def coarse_wait_0 spin_wait_eq getBattery_body_exec)

lemma ready_world_simps [simp]:
  "readyToSend ready_world"
  "trace ready_world = []"
  "dev ready_world = echo_device 7"
  by (simp_all add: ready_world_def boot_def)

section \<open>Properties of the methods\<close>

text \<open>
  Claim C18 (functional). \<^verbatim>\<open>setTriLED\<close> on port 1 or 2 with the token free returns after
  exactly one transaction: the four bytes \<open>0xC3 + port\<close>, red, green, blue, each colour
  clamped to 0..100 and scaled to \<open>colour * 255 div 100\<close>, with gaps 100, 100, 100 and
  4 microseconds, framed by the strobe; the token is free again afterwards.
\<close>

theorem setTriLED_performs:
  assumes "readyToSend w" and "1 \<le> port" and "port \<le> 2"
  shows "setTriLED port red green blue w = Some (Inr (performed (command
           (map word_of_int [0xC3 + port, max 0 (min red 100) * 255 div 100,
              max 0 (min green 100) * 255 div 100, max 0 (min blue 100) * 255 div 100])) w))"
  using assms by (simp add: setTriLED_eq frame_def tri_port_val_def tri_scaled_eq)

theorem setTriLED_performs_witness:
  "setTriLED 2 100 0 50 ready_world
     = Some (Inr (performed (command [0xC5, 255, 0, 127]) ready_world))"
  using setTriLED_performs [of ready_world 2 100 0 50] by simp

text \<open>
  Claim C21 (functional). \<^verbatim>\<open>setPositionServo\<close> on ports 1 to 4 with the token free
  performs exactly one transaction with the bytes \<open>0xC5 + port\<close>, the angle clamped to
  0..180 and scaled to \<open>angle * 254 div 180\<close>, \<open>0xFF\<close>, \<open>0xFF\<close>.
\<close>

theorem setPositionServo_performs:
  assumes "readyToSend w" and "1 \<le> port" and "port \<le> 4"
  shows "setPositionServo port angle w = Some (Inr (performed (command
           (map word_of_int [0xC5 + port, max 0 (min angle 180) * 254 div 180, 0xFF, 0xFF])) w))"
  using assms by (simp add: setPositionServo_eq frame_def servo_port_val_def angle_conv_eq)

theorem setPositionServo_performs_witness:
  "setPositionServo 4 90 ready_world
     = Some (Inr (performed (command [0xC9, 127, 0xFF, 0xFF]) ready_world))"
  using setPositionServo_performs [of ready_world 4 90] by simp

text \<open>
  Claim C20 (functional). \<^verbatim>\<open>setRotationServo\<close> on ports 1 to 4 with the token free
  performs exactly one transaction with the bytes \<open>0xC5 + port\<close>, the speed byte,
  \<open>0xFF\<close>, \<open>0xFF\<close>; the speed byte is 255 for a clamped speed strictly between -10 and
  10 and \<open>speed * 23 div 100 + 122\<close> otherwise.
\<close>

theorem setRotationServo_performs:
  assumes "readyToSend w" and "1 \<le> port" and "port \<le> 4"
  shows "setRotationServo port speed w = Some (Inr (performed (command
           (map word_of_int [0xC5 + port,
              (let c = max (- 100) (min speed 100)
               in if - 10 < c \<and> c < 10 then 255 else c * 23 div 100 + 122),
              0xFF, 0xFF])) w))"
  using assms
  by (simp add: setRotationServo_eq frame_def servo_port_val_def speed_conv_eq [symmetric])

theorem setRotationServo_performs_witness:
  "setRotationServo 1 (- 100) ready_world
     = Some (Inr (performed (command [0xC6, 99, 0xFF, 0xFF]) ready_world))"
  using setRotationServo_performs [of ready_world 1 "- 100"] by simp

text \<open>
  Claim C22 (functional). \<^verbatim>\<open>setLED\<close> on port 1 with the token free scrolls \<open>1\<close> on the
  display and then performs exactly one transaction with the bytes \<open>0xC0\<close>, the
  brightness byte, \<open>0xFF\<close>, \<open>0xFF\<close>. On ports 2 and 3 it scrolls the port number and
  writes four times the brightness byte to pin 2 or pin 8: nothing goes over the bus
  and the strobe is not touched.
\<close>

theorem setLED_performs:
  assumes "readyToSend w"
  shows "setLED 1 intensity w = Some (Inr (performed
           (command [0xC0, word_of_int (intensityScaled intensity), 0xFF, 0xFF])
           (emit (Scroll 1) w)))
       \<and> setLED 2 intensity w = Some (Inr
           (emit (WriteAnalog Pin2 (intensityScaled intensity * 4)) (emit (Scroll 2) w)))
       \<and> setLED 3 intensity w = Some (Inr
           (emit (WriteAnalog Pin8 (intensityScaled intensity * 4)) (emit (Scroll 3) w)))"
  using assms by (simp add: setLED_eq)

theorem setLED_performs_witness:
  "setLED 1 50 ready_world
     = Some (Inr (performed (command [0xC0, 127, 0xFF, 0xFF]) (emit (Scroll 1) ready_world)))
   \<and> setLED 3 50 ready_world
     = Some (Inr (emit (WriteAnalog Pin8 508) (emit (Scroll 3) ready_world)))"
  using setLED_performs [of ready_world 50]
  by (simp add: intensityScaled_eq)

text \<open>
  Claim C19 (functional). \<^verbatim>\<open>getSensor\<close> on ports 1 to 3 with the token free performs
  exactly one six-byte poll \<open>CC 66 77 88 55 66\<close> and returns the decoded answer of one
  exchange: the fifth for port 1, the sixth for port 2 and the third for port 3. The
  answers to the first, second and fourth exchange are discarded.
\<close>

theorem getSensor_reads:
  assumes "readyToSend w" and "1 \<le> port" and "port \<le> 3"
  shows "getSensor sensor port w = Some (Inr
           (sensor_value sensor (uint (replies (dev w) [0xCC, 0x66, 0x77, 0x88, 0x55, 0x66]
               ! (if port = 1 then 4 else if port = 2 then 5 else 2))),
            performed (zip [0xCC, 0x66, 0x77, 0x88, 0x55, 0x66] poll_gaps) w))"
  using assms by (simp add: getSensor_eq poll_bytes_def poll_slot_def)

theorem getSensor_reads_witness:
  "getSensor sensor_distance 1 ready_world = Some (Inr
     (159, performed (zip [0xCC, 0x66, 0x77, 0x88, 0x55, 0x66] poll_gaps) ready_world))"
  using getSensor_reads [of ready_world 1 sensor_distance]
  by (simp add: sensor_value_eq rhe_div_def hb_consts)

text \<open>
  Claim C23 (functional). \<^verbatim>\<open>getBattery\<close> with the token free performs exactly one
  four-byte transaction \<open>55 66 77 88\<close> and returns the answer to the fourth exchange
  scaled to millivolts; the answers to the first three exchanges are discarded.
\<close>

theorem getBattery_reads:
  assumes "readyToSend w"
  shows "getBattery w = Some (Inr
           (battery_value (uint (replies (dev w) [0x55, 0x66, 0x77, 0x88] ! 3)),
            performed (command [0x55, 0x66, 0x77, 0x88]) w))"
  using assms by (simp add: getBattery_eq battery_bytes_def)

theorem getBattery_reads_witness:
  "getBattery ready_world
     = Some (Inr (4831, performed (command [0x55, 0x66, 0x77, 0x88]) ready_world))"
  using getBattery_reads [of ready_world]
  by (simp add: battery_value_eq rhe_div_def)

text \<open>
  Claim C24 (functional). \<^verbatim>\<open>startHummingbird\<close> never raises. From any world it zeroes
  pin 0, waits 2 s, raises the strobe, initialises the bus at 1 MHz, 8 bits, mode 0,
  performs one transaction with the bytes \<open>CB FF FF FF\<close>, frees the token, zeroes pins
  2 and 8, prints and shows the ready image, in this order.
\<close>

theorem startHummingbird_performs:
  "startHummingbird w = Inr (
     w\<lparr>readyToSend := True,
       trace := trace w
         @ [WriteAnalog Pin0 0, Sleep 2000, WriteDigital Pin16 1,
            SpiInit 1000000 8 0 Pin13 Pin15 Pin14]
         @ transaction (dev w) (command [0xCB, 0xFF, 0xFF, 0xFF])
         @ [WriteAnalog Pin2 0, WriteAnalog Pin8 0, Print ''Hummingbird READY'', Show FABULOUS],
       dev := feed (dev w) [0xCB, 0xFF, 0xFF, 0xFF]\<rparr>)"
  by (simp add: startHummingbird_eq hb_consts)

end
