(* ===== verification/HB_Session.thy ===== *)
theory HB_Session
  imports HB_Driver
begin

text \<open>
  The driver as a whole: a program that uses \<^verbatim>\<open>src/hummingbird.py\<close> is a sequence of
  calls of its methods. \<open>call\<close> names a method with its arguments, \<open>invoke\<close> runs one
  call on the world and \<open>run_calls\<close> a sequence of them, stopping at the first call
  that raises or does not return.

  The specification the driver is measured against is at the level of the bus:
  \<open>accepted\<close> (the port check of each method), \<open>frame_of\<close> (the command frame an
  accepted call must put on the bus, if any) and \<open>spec_step\<close> on the abstract state
  \<open>(token, frames sent so far)\<close>. \<open>abstraction\<close> maps a world to that abstract state.

  The lemmas show that every call returns without raising, that \<open>invoke\<close> refines
  \<open>spec_step\<close>, that the trace stays framed and that the token is the same before
  and after every call but the bring-up. \<open>shown\<close> projects a trace to the calls made
  on the display and the console (what \<open>display_of\<close> lists for each call), and
  \<open>elapsed_us_emitted\<close> gives the time each call sleeps.
\<close>

section \<open>Calls and programs\<close>

datatype call =
    Start
  | SetLED int int
  | SetTriLED int int int int
  | SetPositionServo int int
  | SetRotationServo int int
  | GetSensor int int
  | GetBattery

definition no_value :: "world run \<Rightarrow> (int option \<times> world) run" where
  "no_value r = bind_run r (\<lambda>w. Some (Inr (None, w)))"

definition with_value :: "(int \<times> world) run \<Rightarrow> (int option \<times> world) run" where
  "with_value r = bind_run r (\<lambda>(v, w). Some (Inr (Some v, w)))"

fun invoke :: "call \<Rightarrow> world \<Rightarrow> (int option \<times> world) run" where
  "invoke Start w = no_value (Some (startHummingbird w))"
| "invoke (SetLED port intensity) w = no_value (setLED port intensity w)"
| "invoke (SetTriLED port red green blue) w = no_value (setTriLED port red green blue w)"
| "invoke (SetPositionServo port angle) w = no_value (setPositionServo port angle w)"
| "invoke (SetRotationServo port speed) w = no_value (setRotationServo port speed w)"
| "invoke (GetSensor sensor port) w = with_value (getSensor sensor port w)"
| "invoke GetBattery w = with_value (getBattery w)"

fun run_calls :: "call list \<Rightarrow> world \<Rightarrow> (int option list \<times> world) run" where
  "run_calls [] w = Some (Inr ([], w))"
| "run_calls (c # cs) w =
     bind_run (invoke c w) (\<lambda>(v, w').
     bind_run (run_calls cs w') (\<lambda>(vs, w''). Some (Inr (v # vs, w''))))"

section \<open>The specification at the level of the bus\<close>

fun accepted :: "call \<Rightarrow> bool" where
  "accepted Start = True"
| "accepted (SetLED port intensity) = (1 \<le> port \<and> port \<le> 3)"
| "accepted (SetTriLED port red green blue) = (1 \<le> port \<and> port \<le> 2)"
| "accepted (SetPositionServo port angle) = (1 \<le> port \<and> port \<le> 4)"
| "accepted (SetRotationServo port speed) = (1 \<le> port \<and> port \<le> 4)"
| "accepted (GetSensor sensor port) = (1 \<le> port \<and> port \<le> 3)"
| "accepted GetBattery = True"

fun frame_of :: "call \<Rightarrow> u8 list option" where
  "frame_of Start = Some [0xCB, 0xFF, 0xFF, 0xFF]"
| "frame_of (SetLED port intensity) =
     (if port = 1 then Some [0xC0, word_of_int (intensityScaled intensity), 0xFF, 0xFF] else None)"
| "frame_of (SetTriLED port red green blue) =
     Some (frame (tri_port_val port) (tri_scaled red) (tri_scaled green) (tri_scaled blue))"
| "frame_of (SetPositionServo port angle) =
     Some (frame (servo_port_val port) (angle_conv angle) 0xFF 0xFF)"
| "frame_of (SetRotationServo port speed) =
     Some (frame (servo_port_val port) (speed_conv speed) 0xFF 0xFF)"
| "frame_of (GetSensor sensor port) = Some poll_bytes"
| "frame_of GetBattery = Some battery_bytes"

definition goes_through :: "call \<Rightarrow> bool \<Rightarrow> bool" where
  "goes_through c token = (c = Start \<or> (accepted c \<and> token))"

definition spec_step :: "bool \<times> u8 list list \<Rightarrow> call \<Rightarrow> bool \<times> u8 list list" where
  "spec_step s c =
     (case s of (token, sent) \<Rightarrow>
        if goes_through c token
        then (True, sent @ (case frame_of c of None \<Rightarrow> [] | Some f \<Rightarrow> [f]))
        else (token, sent))"

definition abstraction :: "world \<Rightarrow> bool \<times> u8 list list" where
  "abstraction w = (readyToSend w, frames (trace w))"

section \<open>The outcome of a call in closed form\<close>

definition slots_of :: "call \<Rightarrow> (u8 \<times> int) list" where
  "slots_of c = (case c of
       GetSensor sensor port \<Rightarrow> zip poll_bytes poll_gaps
     | _ \<Rightarrow> command (the (frame_of c)))"

definition prelude_of :: "call \<Rightarrow> event list" where
  "prelude_of c = (case c of
       Start \<Rightarrow> [WriteAnalog Pin0 0, Sleep waitTime_Start, WriteDigital Pin16 1,
                 SpiInit 1000000 8 0 Pin13 Pin15 Pin14]
     | SetLED port intensity \<Rightarrow> [Scroll port]
     | _ \<Rightarrow> [])"

definition postlude_of :: "call \<Rightarrow> event list" where
  "postlude_of c = (case c of
       Start \<Rightarrow> [WriteAnalog Pin2 0, WriteAnalog Pin8 0, Print ''Hummingbird READY'',
                 Show FABULOUS]
     | SetLED port intensity \<Rightarrow>
         (if port = 1 then []
          else [WriteAnalog (if port = 2 then Pin2 else Pin8) (intensityScaled intensity * 4)])
     | _ \<Rightarrow> [])"

definition emitted :: "call \<Rightarrow> world \<Rightarrow> event list" where
  "emitted c w =
     (if goes_through c (readyToSend w)
      then prelude_of c
        @ (case frame_of c of None \<Rightarrow> [] | Some f \<Rightarrow> transaction (dev w) (slots_of c))
        @ postlude_of c
      else if readyToSend w then [] else replicate 25 (Sleep 10))"

definition value_of :: "call \<Rightarrow> world \<Rightarrow> int option" where
  "value_of c w = (case c of
       GetSensor sensor port \<Rightarrow>
         Some (if accepted c \<and> readyToSend w
               then sensor_value sensor (uint (replies (dev w) poll_bytes ! poll_slot port))
               else 0)
     | GetBattery \<Rightarrow>
         Some (if readyToSend w then battery_value (uint (replies (dev w) battery_bytes ! 3))
               else 0)
     | _ \<Rightarrow> None)"

definition outcome :: "call \<Rightarrow> world \<Rightarrow> world" where
  "outcome c w =
     w\<lparr>readyToSend := (c = Start \<or> readyToSend w),
       trace := trace w @ emitted c w,
       dev := (if goes_through c (readyToSend w)
               then (case frame_of c of None \<Rightarrow> dev w | Some f \<Rightarrow> feed (dev w) f)
               else dev w)\<rparr>"

definition outcomes :: "call list \<Rightarrow> world \<Rightarrow> world" where
  "outcomes cs w = fold outcome cs w"

fun values_of :: "call list \<Rightarrow> world \<Rightarrow> int option list" where
  "values_of [] w = []"
| "values_of (c # cs) w = value_of c w # values_of cs (outcome c w)"

definition bus_frames :: "call \<Rightarrow> u8 list list" where
  "bus_frames c =
     (if accepted c then (case frame_of c of None \<Rightarrow> [] | Some f \<Rightarrow> [f]) else [])"

fun on_display :: "event \<Rightarrow> bool" where
  "on_display (Scroll n) = True"
| "on_display (Show i) = True"
| "on_display (Print s) = True"
| "on_display e = False"

definition shown :: "event list \<Rightarrow> event list" where
  "shown es = filter on_display es"

definition display_of :: "call \<Rightarrow> event list" where
  "display_of c = shown (prelude_of c @ postlude_of c)"

section \<open>Every call has its closed-form outcome\<close>

lemma world_eqI:
  "readyToSend a = readyToSend b \<Longrightarrow> trace a = trace b \<Longrightarrow> dev a = dev b \<Longrightarrow> (a::world) = b"
  by simp

lemma no_value_simp [simp]: "no_value (Some (Inr w)) = Some (Inr (None, w))"
  by (simp add: no_value_def)

lemma with_value_simp [simp]: "with_value (Some (Inr (v, w))) = Some (Inr (Some v, w))"
  by (simp add: with_value_def)

lemma map_fst_poll [simp]: "map fst (zip poll_bytes poll_gaps) = poll_bytes"
  by (simp add: poll_bytes_def poll_gaps_def)

lemma map_fst_command_frame [simp]: "map fst (command (frame a b c d)) = frame a b c d"
  by (simp add: map_fst_command frame_def)

lemmas outcome_defs = value_of_def outcome_def emitted_def goes_through_def prelude_of_def
  postlude_of_def slots_of_def idle_def naps_def performed_def

lemma invoke_eq: "invoke c w = Some (Inr (value_of c w, outcome c w))"
proof (cases c)
  case Start
  then show ?thesis
    by (simp add: startHummingbird_eq outcome_defs)
next
  case (SetLED port intensity)
  then show ?thesis
    by (auto simp: setLED_eq outcome_defs emit_def map_fst_command intro!: world_eqI)
next
  case (SetTriLED port red green blue)
  then show ?thesis
    by (auto simp: setTriLED_eq outcome_defs intro!: world_eqI)
next
  case (SetPositionServo port angle)
  then show ?thesis
    by (auto simp: setPositionServo_eq outcome_defs intro!: world_eqI)
next
  case (SetRotationServo port speed)
  then show ?thesis
    by (auto simp: setRotationServo_eq outcome_defs intro!: world_eqI)
next
  case (GetSensor sensor port)
  then show ?thesis
    by (auto simp: getSensor_eq outcome_defs intro!: world_eqI)
next
  case GetBattery
  then show ?thesis
    by (auto simp: getBattery_eq outcome_defs map_fst_command battery_bytes_def
        intro!: world_eqI)
qed

lemma run_calls_eq: "run_calls cs w = Some (Inr (values_of cs w, outcomes cs w))"
  by (induction cs arbitrary: w) (simp_all add: invoke_eq outcomes_def)

lemma outcome_simps [simp]:
  "readyToSend (outcome c w) \<longleftrightarrow> c = Start \<or> readyToSend w"
  "trace (outcome c w) = trace w @ emitted c w"
  by (simp_all add: outcome_def)

section \<open>What a call puts on the bus\<close>

lemma frame_of_Start_command: "map fst (command [0xCB, 0xFF, 0xFF, 0xFF]) = [0xCB, 0xFF, 0xFF, 0xFF]"
  by (simp add: map_fst_command)

lemma map_fst_slots_of: "frame_of c = Some f \<Longrightarrow> map fst (slots_of c) = f"
  by (cases c)
    (auto simp: slots_of_def map_fst_command battery_bytes_def frame_def split: if_splits)

lemma framed_prelude: "framed (prelude_of c)"
  by (cases c) (simp_all add: prelude_of_def framed_def)

lemma framed_postlude: "framed (postlude_of c)"
  by (cases c) (simp_all add: postlude_of_def framed_def)

lemma frames_prelude: "frames (prelude_of c) = []"
  by (cases c) (simp_all add: prelude_of_def frames_def)

lemma frames_postlude: "frames (postlude_of c) = []"
  by (cases c) (simp_all add: postlude_of_def frames_def)

lemma framed_emitted: "framed (emitted c w)"
  by (simp add: emitted_def framed_prelude framed_postlude framed_append framed_quiet
      split: option.splits)

lemma frames_emitted:
  "frames (emitted c w) =
     (if goes_through c (readyToSend w)
      then (case frame_of c of None \<Rightarrow> [] | Some f \<Rightarrow> [f]) else [])"
  by (simp add: emitted_def frames_append framed_prelude framed_postlude framed_append
      frames_prelude frames_postlude frames_quiet map_fst_slots_of split: option.splits)

lemma shown_append [simp]: "shown (xs @ ys) = shown xs @ shown ys"
  by (simp add: shown_def)

lemma shown_simps [simp]:
  "shown [] = []"
  "shown (e # es) = (if on_display e then e # shown es else shown es)"
  by (simp_all add: shown_def)

lemma shown_clocked [simp]: "shown (clocked d slots) = []"
  by (induction d slots rule: clocked.induct) simp_all

lemma shown_transaction [simp]: "shown (transaction d slots) = []"
  by (simp add: transaction_def)

lemma shown_replicate [simp]: "\<not> on_display e \<Longrightarrow> shown (replicate n e) = []"
  by (induction n) simp_all

lemma display_of_simps [simp]:
  "display_of Start = [Print ''Hummingbird READY'', Show FABULOUS]"
  "display_of (SetLED port intensity) = [Scroll port]"
  "display_of (SetTriLED port r g b) = []"
  "display_of (SetPositionServo port angle) = []"
  "display_of (SetRotationServo port speed) = []"
  "display_of (GetSensor sensor port) = []"
  "display_of GetBattery = []"
  by (simp_all add: display_of_def prelude_of_def postlude_of_def)

lemma shown_emitted:
  "shown (emitted c w) = (if goes_through c (readyToSend w) then display_of c else [])"
  by (simp add: emitted_def display_of_def split: option.splits)

lemma shown_outcomes:
  "readyToSend w \<Longrightarrow>
   shown (trace (outcomes cs w)) = shown (trace w) @ concat (map display_of (filter accepted cs))"
proof (induction cs arbitrary: w)
  case Nil
  show ?case by (simp add: outcomes_def)
next
  case (Cons c cs)
  from Cons.prems have "readyToSend (outcome c w)"
    by simp
  from Cons.IH [OF this] Cons.prems show ?case
    by (simp add: outcomes_def shown_emitted goes_through_def)
qed

lemma shown_program:
  "shown (trace (outcomes (Start # cs) (boot d)))
     = Print ''Hummingbird READY'' # Show FABULOUS # concat (map display_of (filter accepted cs))"
proof -
  have "shown (trace (outcomes cs (outcome Start (boot d))))
      = shown (trace (outcome Start (boot d))) @ concat (map display_of (filter accepted cs))"
    by (rule shown_outcomes) simp
  then show ?thesis
    by (simp add: outcomes_def shown_emitted goes_through_def boot_def)
qed

lemma elapsed_us_emitted:
  "elapsed_us (emitted c w) =
     (if goes_through c (readyToSend w) then
        (case c of
           Start \<Rightarrow> 2000808
         | SetLED port intensity \<Rightarrow> if port = 1 then 808 else 0
         | GetSensor sensor port \<Rightarrow> 816
         | _ \<Rightarrow> 808)
      else if readyToSend w then 0 else 250000)"
  by (cases c)
     (simp_all add: emitted_def prelude_of_def postlude_of_def slots_of_def elapsed_us_transaction
        elapsed_us_replicate command_def command_gaps_def poll_gaps_def frame_def
        poll_bytes_def battery_bytes_def hb_consts)

lemma framed_outcome: "framed (trace w) \<Longrightarrow> framed (trace (outcome c w))"
  by (simp add: framed_append framed_emitted)

lemma abstraction_outcome:
  "framed (trace w) \<Longrightarrow> abstraction (outcome c w) = spec_step (abstraction w) c"
  by (auto simp: abstraction_def spec_step_def frames_append frames_emitted goes_through_def)

lemma framed_outcomes: "framed (trace w) \<Longrightarrow> framed (trace (outcomes cs w))"
  by (induction cs arbitrary: w) (simp_all add: outcomes_def framed_append framed_emitted)

lemma abstraction_outcomes:
  "framed (trace w) \<Longrightarrow> abstraction (outcomes cs w) = foldl spec_step (abstraction w) cs"
proof (induction cs arbitrary: w)
  case Nil
  show ?case by (simp add: outcomes_def)
next
  case (Cons c cs)
  from Cons.prems have "framed (trace (outcome c w))" by (rule framed_outcome)
  then have "abstraction (outcomes cs (outcome c w))
      = foldl spec_step (abstraction (outcome c w)) cs"
    by (rule Cons.IH)
  with Cons.prems show ?case
    by (simp add: outcomes_def abstraction_outcome)
qed

lemma length_values_of [simp]: "length (values_of cs w) = length cs"
  by (induction cs arbitrary: w) simp_all

lemma foldl_spec_step_free:
  "foldl spec_step (True, sent) cs = (True, sent @ concat (map bus_frames cs))"
  by (induction cs arbitrary: sent)
    (auto simp: spec_step_def goes_through_def bus_frames_def split: option.splits)

lemma booted_outcomes:
  "readyToSend (outcomes (Start # cs) (boot d))"
  "framed (trace (outcomes (Start # cs) (boot d)))"
  "frames (trace (outcomes (Start # cs) (boot d)))
     = [0xCB, 0xFF, 0xFF, 0xFF] # concat (map bus_frames cs)"
proof -
  have f: "framed (trace (boot d))"
    by (simp add: boot_def)
  then show "framed (trace (outcomes (Start # cs) (boot d)))"
    by (rule framed_outcomes)
  have "abstraction (outcomes (Start # cs) (boot d))
      = foldl spec_step (abstraction (boot d)) (Start # cs)"
    using f by (rule abstraction_outcomes)
  also have "\<dots> = (True, [0xCB, 0xFF, 0xFF, 0xFF] # concat (map bus_frames cs))"
    by (simp add: abstraction_def boot_def frames_def spec_step_def goes_through_def
        foldl_spec_step_free)
  finally show "readyToSend (outcomes (Start # cs) (boot d))"
    and "frames (trace (outcomes (Start # cs) (boot d)))
      = [0xCB, 0xFF, 0xFF, 0xFF] # concat (map bus_frames cs)"
    by (simp_all add: abstraction_def)
qed

lemma emitted_rejected:
  "\<not> goes_through c (readyToSend w) \<Longrightarrow>
   emitted c w = (if readyToSend w then [] else replicate 25 (Sleep 10))"
  by (simp add: emitted_def)

lemma outcome_rejected:
  "\<not> goes_through c (readyToSend w) \<Longrightarrow> readyToSend w \<Longrightarrow> outcome c w = w"
  by (simp add: outcome_def emitted_def goes_through_def)

lemma value_of_rejected:
  "\<not> goes_through c (readyToSend w) \<Longrightarrow> value_of c w = None \<or> value_of c w = Some 0"
  by (cases c) (auto simp: value_of_def goes_through_def)

lemma outcomes_boot:
  "Start \<notin> set cs \<Longrightarrow> \<not> readyToSend w \<Longrightarrow>
   outcomes cs w = naps (25 * length cs) w"
proof (induction cs arbitrary: w)
  case Nil
  show ?case by (simp add: outcomes_def)
next
  case (Cons c cs)
  then have step: "outcome c w = naps 25 w"
    by (auto simp: outcome_def emitted_def goes_through_def naps_def)
  from Cons.prems have "outcomes cs (naps 25 w) = naps (25 * length cs) (naps 25 w)"
    by (intro Cons.IH) simp_all
  then show ?case
    by (simp add: outcomes_def step naps_def replicate_add [symmetric] add.commute)
qed

lemma values_of_boot:
  "Start \<notin> set cs \<Longrightarrow> \<not> readyToSend w \<Longrightarrow> v \<in> set (values_of cs w) \<Longrightarrow>
   v = None \<or> v = Some 0"
proof (induction cs arbitrary: w)
  case Nil
  then show ?case by simp
next
  case (Cons c cs)
  from Cons.prems have reject: "\<not> goes_through c (readyToSend w)"
    by (auto simp: goes_through_def)
  from Cons.prems have busy: "\<not> readyToSend (outcome c w)" and rest: "Start \<notin> set cs"
    by auto
  from Cons.prems(3) consider "v = value_of c w" | "v \<in> set (values_of cs (outcome c w))"
    by auto
  then show ?case
  proof cases
    case 1
    with value_of_rejected [OF reject] show ?thesis by simp
  next
    case 2
    with rest busy show ?thesis by (rule Cons.IH)
  qed
qed

section \<open>Properties of the driver as a whole\<close>

text \<open>
  Claim C7 (termination). Every method returns and none raises, for every argument and
  in every world, when it is the only caller: the bounded poll ends, the unbounded spin
  wait is entered only with the token free, every byte handed to \<open>bytes\<close> is a byte and
  every index is in range. The same holds for every sequence of calls.
\<close>

theorem every_call_returns:
  "returns (invoke c w) \<and> returns (run_calls cs w)"
  by (simp add: invoke_eq run_calls_eq)

text \<open>
  Claim C4 (refinement). The driver implements the bus-level specification: from a
  world whose trace is framed, a call leaves the trace framed, and the token and the
  list of frames on the bus after the call are those \<open>spec_step\<close> computes from the token
  and the frames before it. A call that goes through adds its one command frame (none
  for the LED ports 2 and 3); a call that does not adds nothing.
\<close>

theorem invoke_refines_spec:
  assumes "framed (trace w)" and "invoke c w = Some (Inr (v, w'))"
  shows "abstraction w' = spec_step (abstraction w) c \<and> framed (trace w')"
  using assms by (auto simp: invoke_eq abstraction_outcome framed_append framed_emitted)

theorem invoke_refines_spec_witness:
  "abstraction (outcome (SetPositionServo 1 90) ready_world) = (True, [[0xC6, 127, 0xFF, 0xFF]])
   \<and> framed (trace (outcome (SetPositionServo 1 90) ready_world))"
proof -
  have f: "framed (trace ready_world)" by simp
  have i: "invoke (SetPositionServo 1 90) ready_world
      = Some (Inr (None, outcome (SetPositionServo 1 90) ready_world))"
    by (simp add: invoke_eq value_of_def)
  have "spec_step (abstraction ready_world) (SetPositionServo 1 90)
      = (True, [[0xC6, 127, 0xFF, 0xFF]])"
    by (simp add: abstraction_def spec_step_def goes_through_def frames_def frame_def
        servo_port_val_def angle_conv_eq)
  with invoke_refines_spec [OF f i] show ?thesis
    by (simp only:)
qed

text \<open>
  A whole program refines the specification: a sequence of calls
  run from a framed world returns one value per call, leaves the trace framed, and its
  token and frames are the fold of \<open>spec_step\<close> over the calls.
\<close>

theorem run_calls_refines_spec:
  assumes "framed (trace w)"
  shows "\<exists>vs w'. run_calls cs w = Some (Inr (vs, w')) \<and> length vs = length cs
           \<and> abstraction w' = foldl spec_step (abstraction w) cs \<and> framed (trace w')"
  using assms by (simp add: run_calls_eq abstraction_outcomes framed_outcomes)

theorem run_calls_refines_spec_witness:
  "\<exists>vs w'. run_calls [Start, SetLED 1 100, GetBattery] (boot (echo_device 0)) = Some (Inr (vs, w'))
     \<and> length vs = 3
     \<and> abstraction w' = (True, [[0xCB, 0xFF, 0xFF, 0xFF], [0xC0, 0xFF, 0xFF, 0xFF],
          [0x55, 0x66, 0x77, 0x88]])
     \<and> framed (trace w')"
proof -
  have f: "framed (trace (boot (echo_device 0)))"
    by (simp add: boot_def)
  have e: "foldl spec_step (abstraction (boot (echo_device 0))) [Start, SetLED 1 100, GetBattery]
      = (True, [[0xCB, 0xFF, 0xFF, 0xFF], [0xC0, 0xFF, 0xFF, 0xFF], [0x55, 0x66, 0x77, 0x88]])"
    by (simp add: boot_def abstraction_def frames_def spec_step_def goes_through_def
        intensityScaled_eq battery_bytes_def)
  from run_calls_refines_spec [OF f, of "[Start, SetLED 1 100, GetBattery]"]
  obtain vs w' where
    "run_calls [Start, SetLED 1 100, GetBattery] (boot (echo_device 0)) = Some (Inr (vs, w'))"
    "length vs = length [Start, SetLED 1 100, GetBattery]"
    "abstraction w'
       = foldl spec_step (abstraction (boot (echo_device 0))) [Start, SetLED 1 100, GetBattery]"
    "framed (trace w')"
    by blast
  then show ?thesis
    unfolding e by (intro exI [of _ vs] exI [of _ w']) simp
qed

text \<open>
  Every method but the bring-up leaves the token as it found it,
  whether it performed its transaction, rejected its port or timed out; the bring-up
  leaves it free.
\<close>

theorem token_restored:
  assumes "invoke c w = Some (Inr (v, w'))"
  shows "readyToSend w' \<longleftrightarrow> c = Start \<or> readyToSend w"
  using assms by (auto simp: invoke_eq)

theorem token_restored_witness:
  "readyToSend (outcome GetBattery ready_world)"
proof -
  have "invoke GetBattery ready_world
      = Some (Inr (value_of GetBattery ready_world, outcome GetBattery ready_world))"
    by (rule invoke_eq)
  from token_restored [OF this] show ?thesis by simp
qed

text \<open>
  Claim C30 (error). A port outside the range of its method is rejected silently: with
  the token free the call returns at once, the world is exactly as before (no sleep, no
  bus transaction, the token untouched), and the value is \<open>None\<close> for an actuator and 0
  for \<^verbatim>\<open>getSensor\<close>.
\<close>

theorem rejected_port_changes_nothing:
  assumes "\<not> accepted c" and "readyToSend w"
  shows "invoke c w = Some (Inr (if \<exists>s p. c = GetSensor s p then Some 0 else None, w))"
proof -
  from assms have "\<not> goes_through c (readyToSend w)"
    by (auto simp: goes_through_def)
  with assms have "outcome c w = w"
    by (simp add: outcome_rejected)
  moreover from assms(1) have "value_of c w = (if \<exists>s p. c = GetSensor s p then Some 0 else None)"
    by (cases c) (auto simp: value_of_def)
  ultimately show ?thesis by (simp add: invoke_eq)
qed

theorem rejected_port_changes_nothing_witness:
  "invoke (SetPositionServo 5 90) ready_world = Some (Inr (None, ready_world))
   \<and> invoke (GetSensor 1 0) ready_world = Some (Inr (Some 0, ready_world))"
  using rejected_port_changes_nothing [of "SetPositionServo 5 90" ready_world]
    rejected_port_changes_nothing [of "GetSensor 1 0" ready_world]
  by simp

text \<open>
  Claim C31 (error). A method that finds the token taken gives up after exactly 25 sleeps
  of 10 ms: it returns \<open>None\<close> (actuators) or 0 (sensors and battery), the controller is
  not contacted, the token stays taken, and nothing distinguishes the 0 from a reading
  of 0.
\<close>

theorem timeout_gives_up:
  assumes "\<not> readyToSend w" and "c \<noteq> Start"
  shows "\<exists>v. invoke c w = Some (Inr (v, naps 25 w)) \<and> (v = None \<or> v = Some 0)
           \<and> elapsed_us (replicate 25 (Sleep 10)) = 250000"
proof -
  from assms have reject: "\<not> goes_through c (readyToSend w)"
    by (simp add: goes_through_def)
  with assms have "outcome c w = naps 25 w"
    by (simp add: outcome_def emitted_def naps_def)
  with value_of_rejected [OF reject] show ?thesis
    by (auto simp: invoke_eq elapsed_us_replicate)
qed

theorem timeout_gives_up_witness:
  "\<exists>v. invoke GetBattery (boot (echo_device 0)) = Some (Inr (v, naps 25 (boot (echo_device 0))))
     \<and> (v = None \<or> v = Some 0)"
proof -
  have "\<not> readyToSend (boot (echo_device 0))" by (simp add: boot_def)
  from timeout_gives_up [OF this, of GetBattery] show ?thesis by blast
qed

text \<open>
  Claim C39 (error). Before the bring-up has run the driver does nothing: in a freshly
  booted world every sequence of calls that does not contain \<^verbatim>\<open>startHummingbird\<close>
  returns only \<open>None\<close> and 0, spends 250 ms per call, puts no frame on the bus and
  leaves the controller untouched.
\<close>

theorem before_start_nothing_happens:
  assumes "Start \<notin> set cs"
  shows "\<exists>vs. run_calls cs (boot d) = Some (Inr (vs, naps (25 * length cs) (boot d)))
           \<and> (\<forall>v \<in> set vs. v = None \<or> v = Some 0)
           \<and> frames (trace (naps (25 * length cs) (boot d))) = []"
proof -
  have busy: "\<not> readyToSend (boot d)" by (simp add: boot_def)
  have "frames (replicate (25 * length cs) (Sleep 10)) = []"
    by (intro frames_quiet) simp
  with assms busy show ?thesis
    using values_of_boot [OF assms busy]
    by (auto simp: run_calls_eq outcomes_boot boot_def)
qed

theorem before_start_nothing_happens_witness:
  "\<exists>vs. run_calls [SetLED 1 50, GetSensor 3 1] (boot (echo_device 0))
           = Some (Inr (vs, naps 50 (boot (echo_device 0))))
     \<and> (\<forall>v \<in> set vs. v = None \<or> v = Some 0)"
proof -
  have "Start \<notin> set [SetLED 1 50, GetSensor 3 1]" by simp
  from before_start_nothing_happens [OF this, of "echo_device 0"] show ?thesis
    by (simp only: list.size One_nat_def) auto
qed

text \<open>
  Claim C40 (bounds). What a call costs in time. The sleeps a method asks for add up to
  808 microseconds when it sends a command frame or reads the battery (500 to settle,
  4 after the strobe, three gaps of 100 and one of 4), 816 microseconds for the
  six-byte sensor poll (three gaps of 100 and three of 4), nothing for the LED ports 2
  and 3 and for a rejected port, exactly 250 milliseconds when the token is taken, and
  2 seconds and 808 microseconds for the bring-up. The time \<^verbatim>\<open>display.scroll\<close> takes is
  not counted.
\<close>

theorem call_timing:
  assumes "invoke c w = Some (Inr (v, w'))"
  shows "elapsed_us (trace w') - elapsed_us (trace w) =
     (if goes_through c (readyToSend w) then
        (case c of
           Start \<Rightarrow> 2000808
         | SetLED port intensity \<Rightarrow> if port = 1 then 808 else 0
         | GetSensor sensor port \<Rightarrow> 816
         | _ \<Rightarrow> 808)
      else if readyToSend w then 0 else 250000)"
proof -
  from assms have "trace w' = trace w @ emitted c w"
    by (auto simp: invoke_eq)
  then show ?thesis
    by (simp only: elapsed_us_append elapsed_us_emitted add_diff_cancel_left')
qed

theorem call_timing_witness:
  "elapsed_us (trace (outcome (GetSensor 1 1) ready_world)) - elapsed_us (trace ready_world) = 816
   \<and> elapsed_us (trace (outcome GetBattery (boot (echo_device 0))))
       - elapsed_us (trace (boot (echo_device 0))) = 250000"
  using call_timing [OF invoke_eq, of "GetSensor 1 1" ready_world]
    call_timing [OF invoke_eq, of GetBattery "boot (echo_device 0)"]
  by (simp add: goes_through_def boot_def)

end
