(* ===== verification/HB_Threads.thy ===== *)
theory HB_Threads
  imports HB_Session
begin

text \<open>
  One call of a method of \<^verbatim>\<open>src/hummingbird.py\<close> as a thread that can be suspended.

  \<^item> \<open>stmt\<close> names the statements of the transaction blocks, \<open>run_stmt\<close> runs one of them
    with the library calls of \<open>HB_Hardware\<close>, and \<open>code_of\<close> is the block of each method,
    statement by statement. \<open>blocking\<close> marks the calls that suspend the caller
    (\<^verbatim>\<open>sleep\<close>, \<^verbatim>\<open>sleep_us\<close>, \<^verbatim>\<open>display.scroll\<close>).
  \<^item> \<open>ctl\<close> is the place a call has reached: in the bounded poll with its counter, at
    the check of port and token, in the spin loop, inside the transaction block with
    its local buffers and the statements still to run, returned, or stopped by an
    exception. \<open>micro\<close> runs one statement (or one evaluation of a loop or branch
    condition) from such a place.
  \<^item> \<open>advance\<close> runs a call until it has made a blocking call or has ended: the atomic
    step of a cooperative scheduler. \<open>solo\<close> runs a call alone.

  The lemmas show that the blocks are those of \<open>HB_Driver\<close>, what one \<open>advance\<close> does from
  each place, and that a call run alone ends with the value and the world of the method
  of \<open>HB_Driver\<close>.
\<close>

section \<open>Statements and the blocks of the methods\<close>

datatype stmt =
    S_ready bool
  | S_sleep int
  | S_sleep_us int
  | S_scroll int
  | S_digital pin int
  | S_analog pin int
  | S_spi_init int int int pin pin pin
  | S_write "u8 list"
  | S_write_bytes "int list"
  | S_readinto "u8 list" nat
  | S_print string
  | S_show image

type_synonym locals = "u8 list list"

fun run_stmt :: "stmt \<Rightarrow> locals \<times> world \<Rightarrow> (locals \<times> world) res" where
  "run_stmt (S_ready b) = io (set_readyToSend b)"
| "run_stmt (S_sleep n) = io (sleep n)"
| "run_stmt (S_sleep_us n) = io (sleep_us n)"
| "run_stmt (S_scroll n) = io (display_scroll n)"
| "run_stmt (S_digital p v) = io (pin_write_digital p v)"
| "run_stmt (S_analog p v) = io (pin_write_analog p v)"
| "run_stmt (S_spi_init baudrate bits mode sclk mosi miso_pin) =
     io (spi_init baudrate bits mode sclk mosi miso_pin)"
| "run_stmt (S_write buf) = io (spi_write buf)"
| "run_stmt (S_write_bytes xs) = io (spi_write_bytes xs)"
| "run_stmt (S_readinto out i) = into i out"
| "run_stmt (S_print s) = io (print s)"
| "run_stmt (S_show i) = io (display_show i)"

fun blocking :: "stmt \<Rightarrow> bool" where
  "blocking (S_sleep n) = True"
| "blocking (S_sleep_us n) = True"
| "blocking (S_scroll n) = True"
| "blocking s = False"

definition command_code :: "int \<Rightarrow> int \<Rightarrow> int \<Rightarrow> int \<Rightarrow> stmt list" where
  "command_code b0 b1 b2 b3 =
     [S_ready False,
      S_sleep_us waitTime_Initial,
      S_digital Pin16 0,
      S_sleep_us waitTime_1,
      S_write_bytes [b0],
      S_sleep_us waitTime_2,
      S_write_bytes [b1],
      S_sleep_us waitTime_2,
      S_write_bytes [b2],
      S_sleep_us waitTime_2,
      S_write_bytes [b3],
      S_sleep_us waitTime_1,
      S_digital Pin16 1,
      S_ready True]"

fun code_of :: "call \<Rightarrow> stmt list" where
  "code_of Start =
     [S_analog Pin0 0,
      S_sleep waitTime_Start,
      S_digital Pin16 1,
      S_spi_init 1000000 8 0 Pin13 Pin15 Pin14,
      S_sleep_us waitTime_Initial,
      S_digital Pin16 0,
      S_sleep_us waitTime_1,
      S_write [0xCB],
      S_sleep_us waitTime_2,
      S_write [0xFF],
      S_sleep_us waitTime_2,
      S_write [0xFF],
      S_sleep_us waitTime_2,
      S_write [0xFF],
      S_sleep_us waitTime_1,
      S_digital Pin16 1,
      S_ready True,
      S_analog Pin2 0,
      S_analog Pin8 0,
      S_print ''Hummingbird READY'',
      S_show FABULOUS]"
| "code_of (SetLED port intensity) =
     [S_ready False] @
     (if port = 1 then
        [S_scroll 1,
         S_sleep_us waitTime_Initial,
         S_digital Pin16 0,
         S_sleep_us waitTime_1,
         S_write [0xC0],
         S_sleep_us waitTime_2,
         S_write_bytes [intensityScaled intensity],
         S_sleep_us waitTime_2,
         S_write [0xFF],
         S_sleep_us waitTime_2,
         S_write [0xFF],
         S_sleep_us waitTime_1,
         S_digital Pin16 1]
      else if port = 2 then
        [S_scroll 2,
         S_analog Pin2 (intensityScaled intensity * 4)]
      else if port = 3 then
        [S_scroll 3,
         S_analog Pin8 (intensityScaled intensity * 4)]
      else []) @
     [S_ready True]"
| "code_of (SetTriLED port red green blue) =
     command_code (tri_port_val port) (tri_scaled red) (tri_scaled green) (tri_scaled blue)"
| "code_of (SetPositionServo port angle) =
     command_code (servo_port_val port) (angle_conv angle) 0xFF 0xFF"
| "code_of (SetRotationServo port speed) =
     command_code (servo_port_val port) (speed_conv speed) 0xFF 0xFF"
| "code_of (GetSensor sensor port) =
     [S_ready False,
      S_sleep_us waitTime_Initial,
      S_digital Pin16 0,
      S_sleep_us waitTime_1,
      S_readinto [0xCC] 0,
      S_sleep_us waitTime_2,
      S_readinto [0x66] 1,
      S_sleep_us waitTime_2,
      S_readinto [0x77] 2,
      S_sleep_us waitTime_2,
      S_readinto [0x88] 3,
      S_sleep_us waitTime_1,
      S_readinto [0x55] 0,
      S_sleep_us waitTime_1,
      S_readinto [0x66] 1,
      S_sleep_us waitTime_1,
      S_digital Pin16 1,
      S_ready True]"
| "code_of GetBattery =
     [S_ready False,
      S_sleep_us waitTime_Initial,
      S_digital Pin16 0,
      S_sleep_us waitTime_1,
      S_readinto [0x55] 1,
      S_sleep_us waitTime_2,
      S_readinto [0x66] 1,
      S_sleep_us waitTime_2,
      S_readinto [0x77] 1,
      S_sleep_us waitTime_2,
      S_readinto [0x88] 0,
      S_sleep_us waitTime_1,
      S_digital Pin16 1,
      S_ready True]"

fun locals_of :: "call \<Rightarrow> locals" where
  "locals_of (GetSensor sensor port) = [bytearray 1, bytearray 1, bytearray 1, bytearray 1]"
| "locals_of GetBattery = [bytearray 1, bytearray 1]"
| "locals_of c = []"

fun result_of :: "call \<Rightarrow> locals \<Rightarrow> int option res" where
  "result_of (GetSensor sensor port) vals =
     bind_res (py_index vals (port - 1)) (\<lambda>raw.
     Inr (Some (sensor_value sensor (int_from_bytes_big raw))))"
| "result_of GetBattery vars =
     bind_res (py_index vars 0) (\<lambda>batt.
     Inr (Some (battery_value (int_from_bytes_big batt))))"
| "result_of c vars = Inr None"

fun default_of :: "call \<Rightarrow> int option" where
  "default_of (GetSensor sensor port) = Some 0"
| "default_of GetBattery = Some 0"
| "default_of c = None"

section \<open>Places of a call and its steps\<close>

datatype ctl =
    Poll int
  | Check
  | Spin
  | Body locals "stmt list"
  | Done "int option"
  | Failed error

fun finished :: "ctl \<Rightarrow> bool" where
  "finished (Done v) = True"
| "finished (Failed e) = True"
| "finished k = False"

fun in_body :: "ctl \<Rightarrow> bool" where
  "in_body (Body vars rest) = True"
| "in_body k = False"

definition entry :: "call \<Rightarrow> ctl" where
  "entry c = (if c = Start then Body (locals_of c) (code_of c) else Poll 0)"

definition after :: "world res \<Rightarrow> ctl \<Rightarrow> world \<Rightarrow> ctl \<times> world" where
  "after r k w = (case r of Inl e \<Rightarrow> (Failed e, w) | Inr w' \<Rightarrow> (k, w'))"

fun micro :: "call \<Rightarrow> ctl \<Rightarrow> world \<Rightarrow> ctl \<times> world" where
  "micro c (Poll timeout) w =
     (if \<not> readyToSend w \<and> timeout < 25
      then after (sleep 10 w) (Poll (timeout + 1)) w
      else (Check, w))"
| "micro c Check w =
     (if accepted c \<and> readyToSend w then (Spin, w) else (Done (default_of c), w))"
| "micro c Spin w =
     (if \<not> readyToSend w
      then after (sleep_us 10 w) Spin w
      else (Body (locals_of c) (code_of c), w))"
| "micro c (Body vars (s # rest)) w =
     (case run_stmt s (vars, w) of
        Inl e \<Rightarrow> (Failed e, w)
      | Inr (vars', w') \<Rightarrow> (Body vars' rest, w'))"
| "micro c (Body vars []) w =
     (case result_of c vars of Inl e \<Rightarrow> (Failed e, w) | Inr v \<Rightarrow> (Done v, w))"
| "micro c (Done v) w = (Done v, w)"
| "micro c (Failed e) w = (Failed e, w)"

fun yields :: "ctl \<Rightarrow> world \<Rightarrow> bool" where
  "yields (Poll timeout) w = (\<not> readyToSend w \<and> timeout < 25)"
| "yields Spin w = (\<not> readyToSend w)"
| "yields (Body vars (s # rest)) w = blocking s"
| "yields k w = False"

fun rank :: "call \<Rightarrow> ctl \<Rightarrow> nat" where
  "rank c (Poll timeout) = length (code_of c) + 4"
| "rank c Check = length (code_of c) + 3"
| "rank c Spin = length (code_of c) + 2"
| "rank c (Body vars rest) = length rest + 1"
| "rank c k = 0"

function advance :: "call \<Rightarrow> ctl \<Rightarrow> world \<Rightarrow> ctl \<times> world" where
  "advance c k w =
     (if finished k then (k, w)
      else if yields k w then micro c k w
      else (case micro c k w of (k', w') \<Rightarrow> advance c k' w'))"
  by pat_completeness auto
termination
proof (relation "measure (\<lambda>(c, k, w). rank c k)")
  fix c k w k' w'
  assume "\<not> finished k" and "\<not> yields k w" and "(k', w') = micro c k w"
  then have "rank c k' < rank c k"
    by (cases "(c, k, w)" rule: micro.cases)
      (auto simp: after_def split: if_splits sum.splits prod.splits)
  then show "((c, k', w'), (c, k, w)) \<in> measure (\<lambda>(c, k, w). rank c k)"
    by simp
qed simp

declare advance.simps [simp del]
declare code_of.simps [simp del]

fun solo :: "nat \<Rightarrow> call \<Rightarrow> ctl \<Rightarrow> world \<Rightarrow> ctl \<times> world" where
  "solo 0 c k w = (k, w)"
| "solo (Suc n) c k w = (case advance c k w of (k', w') \<Rightarrow> solo n c k' w')"

section \<open>The blocks are those of the methods\<close>

lemma exec_map_io: "exec (map io cs) (vars, w) = bind_res (exec cs w) (\<lambda>w'. Inr (vars, w'))"
  by (induction cs arbitrary: w) (auto simp: bind_res_def split: sum.splits)

lemma code_agrees:
  "map run_stmt (command_code b0 b1 b2 b3) = map io (command_body b0 b1 b2 b3)"
  "map run_stmt (code_of (SetLED port intensity))
     = map io (setLED_body port (intensityScaled intensity))"
  "map run_stmt (code_of (GetSensor sensor port)) = getSensor_body"
  by (simp_all add: code_of.simps command_code_def command_body_def setLED_body_def
      getSensor_body_def)

lemma code_Start:
  "exec (map run_stmt (code_of Start)) (vars, w)
     = bind_res (startHummingbird w) (\<lambda>w'. Inr (vars, w'))"
proof -
  have "map run_stmt (code_of Start) = map io
     [pin_write_analog Pin0 0, sleep waitTime_Start, pin_write_digital Pin16 1,
      spi_init 1000000 8 0 Pin13 Pin15 Pin14, sleep_us waitTime_Initial,
      pin_write_digital Pin16 0, sleep_us waitTime_1, spi_write [0xCB], sleep_us waitTime_2,
      spi_write [0xFF], sleep_us waitTime_2, spi_write [0xFF], sleep_us waitTime_2,
      spi_write [0xFF], sleep_us waitTime_1, pin_write_digital Pin16 1, set_readyToSend True,
      pin_write_analog Pin2 0, pin_write_analog Pin8 0, print ''Hummingbird READY'',
      display_show FABULOUS]"
    by (simp add: code_of.simps)
  then show ?thesis
    by (simp only: exec_map_io startHummingbird_def)
qed

lemma code_GetBattery:
  "exec (map run_stmt (code_of GetBattery)) ([[0], [0]], w)
     = bind_res (exec getBattery_body (([0], [0]), w))
         (\<lambda>((batt, junk), w'). Inr ([batt, junk], w'))"
  by (simp add: getBattery_body_exec)
    (simp add: code_of.simps into_apply hb_prims hb_frames battery_bytes_def)

section \<open>Running a whole block\<close>

lemma value_of_default: "\<not> goes_through c token \<Longrightarrow> readyToSend w = token \<Longrightarrow> value_of c w = default_of c"
  by (cases c) (auto simp: value_of_def goes_through_def)

lemma outcome_busy: "\<not> goes_through c (readyToSend w) \<Longrightarrow> \<not> readyToSend w \<Longrightarrow> outcome c w = naps 25 w"
  by (auto simp: outcome_def emitted_def naps_def goes_through_def intro!: world_eqI)

lemma run_code:
  assumes "goes_through c (readyToSend w)"
  shows "\<exists>vars. exec (map run_stmt (code_of c)) (locals_of c, w) = Inr (vars, outcome c w)
           \<and> result_of c vars = Inr (value_of c w)"
proof (cases c)
  case Start
  then show ?thesis
    by (simp add: code_Start startHummingbird_eq outcome_defs)
next
  case (SetLED port intensity)
  with assms have "port = 1 \<or> port = 2 \<or> port = 3"
    by (auto simp: goes_through_def)
  with SetLED assms intensityScaled_bounds [of intensity] show ?thesis
    by (auto simp: code_agrees exec_map_io setLED_body_exec outcome_defs emit_def map_fst_command
        intro!: world_eqI)
next
  case (SetTriLED port red green blue)
  with assms tri_scaled_bounds [of red] tri_scaled_bounds [of green] tri_scaled_bounds [of blue]
  show ?thesis
    by (auto simp: code_of.simps code_agrees exec_map_io command_body_exec tri_port_val_bounds
        outcome_defs intro!: world_eqI)
next
  case (SetPositionServo port angle)
  with assms angle_conv_bounds [of angle] show ?thesis
    by (auto simp: code_of.simps code_agrees exec_map_io command_body_exec servo_port_val_bounds
        outcome_defs intro!: world_eqI)
next
  case (SetRotationServo port speed)
  with assms speed_conv_bounds [of speed] show ?thesis
    by (auto simp: code_of.simps code_agrees exec_map_io command_body_exec servo_port_val_bounds
        outcome_defs intro!: world_eqI)
next
  case (GetSensor sensor port)
  with assms show ?thesis
    by (auto simp: code_agrees getSensor_body_exec poll_vals_index outcome_defs
        intro!: world_eqI)
next
  case GetBattery
  with assms show ?thesis
    by (auto simp: code_GetBattery getBattery_body_exec py_index_def outcome_defs map_fst_command
        battery_bytes_def intro!: world_eqI)
qed

section \<open>One atomic step from each place\<close>

lemma advance_finished [simp]:
  "advance c (Done v) w = (Done v, w)"
  "advance c (Failed e) w = (Failed e, w)"
  by (simp_all add: advance.simps)

lemma advance_Body_Nil:
  "advance c (Body vars []) w
     = (case result_of c vars of Inl e \<Rightarrow> (Failed e, w) | Inr v \<Rightarrow> (Done v, w))"
  by (simp add: advance.simps [of c "Body vars []"] split: sum.splits)

lemma advance_Body_Cons:
  "advance c (Body vars (s # rest)) w
     = (case run_stmt s (vars, w) of
          Inl e \<Rightarrow> (Failed e, w)
        | Inr (vars', w') \<Rightarrow>
            if blocking s then (Body vars' rest, w') else advance c (Body vars' rest) w')"
  by (simp add: advance.simps [of c "Body vars (s # rest)"] split: sum.splits prod.splits)

lemma advance_Spin:
  "advance c Spin w
     = (if readyToSend w then advance c (Body (locals_of c) (code_of c)) w
        else (Spin, emit (SleepUs 10) w))"
  by (simp add: advance.simps [of c Spin] after_def sleep_us_def)

lemma advance_Check:
  "advance c Check w
     = (if accepted c \<and> readyToSend w then advance c (Body (locals_of c) (code_of c)) w
        else (Done (default_of c), w))"
  by (simp add: advance.simps [of c Check] advance_Spin)

lemma advance_Poll:
  "advance c (Poll timeout) w
     = (if \<not> readyToSend w \<and> timeout < 25 then (Poll (timeout + 1), emit (Sleep 10) w)
        else if accepted c \<and> readyToSend w then advance c (Body (locals_of c) (code_of c)) w
        else (Done (default_of c), w))"
  by (simp add: advance.simps [of c "Poll timeout"] advance_Check after_def sleep_def)

lemmas advance_eqs = advance_Body_Nil advance_Body_Cons advance_Spin advance_Check advance_Poll

section \<open>A call running alone\<close>

lemma solo_finished [simp]:
  "solo n c (Done v) w = (Done v, w)"
  "solo n c (Failed e) w = (Failed e, w)"
  by (induction n) simp_all

lemma solo_Body:
  assumes "exec (map run_stmt rest) (vars, w) = Inr (vars', w')"
    and "result_of c vars' = Inr v"
    and "length (filter blocking rest) < n"
  shows "solo n c (Body vars rest) w = (Done v, w')"
  using assms
proof (induction rest arbitrary: n vars w)
  case Nil
  then obtain m where "n = Suc m" by (cases n) auto
  with Nil show ?case
    by (simp add: advance_Body_Nil)
next
  case (Cons s rest)
  from Cons.prems(3) obtain m where n: "n = Suc m" by (cases n) auto
  from Cons.prems(1) obtain vars1 w1 where s: "run_stmt s (vars, w) = Inr (vars1, w1)"
    and rest: "exec (map run_stmt rest) (vars1, w1) = Inr (vars', w')"
    by (auto simp: bind_res_def split: sum.splits)
  show ?case
  proof (cases "blocking s")
    case True
    with Cons.prems(3) n have "length (filter blocking rest) < m" by simp
    with rest Cons.prems(2) have "solo m c (Body vars1 rest) w1 = (Done v, w')"
      by (rule Cons.IH)
    with True s n show ?thesis
      by (simp add: advance_Body_Cons)
  next
    case False
    with Cons.prems(3) have "length (filter blocking rest) < n" by simp
    with rest Cons.prems(2) have "solo n c (Body vars1 rest) w1 = (Done v, w')"
      by (rule Cons.IH)
    with False s n show ?thesis
      by (simp add: advance_Body_Cons)
  qed
qed

lemma solo_Poll_busy:
  "\<not> readyToSend w \<Longrightarrow> nat (25 - timeout) < n \<Longrightarrow>
   solo n c (Poll timeout) w = (Done (default_of c), naps (nat (25 - timeout)) w)"
proof (induction n arbitrary: timeout w)
  case 0
  then show ?case by simp
next
  case (Suc n)
  show ?case
  proof (cases "timeout < 25")
    case True
    with Suc.prems have "solo n c (Poll (timeout + 1)) (emit (Sleep 10) w)
        = (Done (default_of c), naps (nat (25 - (timeout + 1))) (emit (Sleep 10) w))"
      by (intro Suc.IH) simp_all
    moreover from True have "Suc (nat (25 - (timeout + 1))) = nat (25 - timeout)"
      by simp
    ultimately show ?thesis
      using True Suc.prems by (simp add: advance_Poll naps_emit)
  next
    case False
    with Suc.prems show ?thesis
      by (simp add: advance_Poll)
  qed
qed

lemma solo_Poll_ready:
  "readyToSend w \<Longrightarrow> 0 < n \<Longrightarrow>
   solo n c (Poll timeout) w
     = (if accepted c then solo n c (Body (locals_of c) (code_of c)) w
        else (Done (default_of c), w))"
  by (cases n) (simp_all add: advance_Poll)

lemma blocking_code_of: "length (filter blocking (code_of c)) < 10"
  by (cases c) (simp_all add: code_of.simps command_code_def)

lemma solo_entry: "solo (26 + n) c (entry c) w = (Done (value_of c w), outcome c w)"
proof (cases "goes_through c (readyToSend w)")
  case True
  then obtain vars where run: "exec (map run_stmt (code_of c)) (locals_of c, w) = Inr (vars, outcome c w)"
    and res: "result_of c vars = Inr (value_of c w)"
    using run_code by blast
  from blocking_code_of [of c] have "length (filter blocking (code_of c)) < 26 + n"
    by simp
  with run res have body: "solo (26 + n) c (Body (locals_of c) (code_of c)) w
      = (Done (value_of c w), outcome c w)"
    by (rule solo_Body)
  show ?thesis
  proof (cases "c = Start")
    case True
    with body show ?thesis by (simp add: entry_def)
  next
    case False
    with \<open>goes_through c (readyToSend w)\<close> have "accepted c" "readyToSend w"
      by (simp_all add: goes_through_def)
    with False body show ?thesis
      by (simp add: entry_def solo_Poll_ready)
  qed
next
  case False
  then have c: "c \<noteq> Start" by (auto simp: goes_through_def)
  show ?thesis
  proof (cases "readyToSend w")
    case True
    with False c show ?thesis
      by (simp add: entry_def solo_Poll_ready goes_through_def value_of_default [OF False]
          outcome_rejected)
  next
    case busy: False
    then have "solo (26 + n) c (Poll 0) w = (Done (default_of c), naps (nat (25 - 0)) w)"
      by (intro solo_Poll_busy) simp_all
    with False busy c show ?thesis
      by (simp add: entry_def value_of_default [OF False] outcome_busy)
  qed
qed

section \<open>Properties of a call running alone\<close>

text \<open>
  Claim C10 (refinement). The thread model agrees with the methods. A call that is given
  26 atomic steps or more with nobody else running has returned, and it returns the
  value \<open>v\<close> in the world \<open>w'\<close> exactly if the method of \<open>HB_Driver\<close>, called in the same
  world, returns \<open>v\<close> in \<open>w'\<close>. Twenty-six steps are enough for every call: 25 sleeps of
  the bounded poll and the step that gives up, or at most ten blocking calls of a
  transaction block.
\<close>

theorem thread_alone_is_method:
  "solo (26 + n) c (entry c) w = (Done v, w') \<longleftrightarrow> invoke c w = Some (Inr (v, w'))"
  by (auto simp: solo_entry invoke_eq)

end
