(* ===== verification/HB_Concurrent.thy ===== *)
theory HB_Concurrent
  imports HB_Threads "HOL-Library.Multiset" "HOL-Library.Sublist"
begin

text \<open>
  Several calls of the methods of \<^verbatim>\<open>src/hummingbird.py\<close> in flight at once, the situation
  the class attribute \<open>readyToSend\<close> exists for (``Wait for other functions in other
  threads'', line 103).

  \<^item> A system is a pool of threads (a call and the place it has reached) and the one
    world they share. \<open>sys_step step\<close> is the scheduler: at any time a new call may be
    made, and any unfinished thread may be given one step. With \<open>step = advance\<close> a
    thread runs until its next blocking call (cooperative scheduling, the model of the
    specification); with \<open>step = micro\<close> a thread can be interrupted after every
    statement (preemptive scheduling). \<open>reach\<close> is reachability, \<open>schedule\<close> runs a
    given list of scheduler decisions.
  \<^item> \<open>holding\<close>, \<open>safe\<close>, \<open>parked\<close> describe the statements a suspended thread still has
    to run; \<open>sig\<close> and \<open>plan\<close> are the bus signals of statements still to run, \<open>blind\<close>
    forgets the replies of the controller; \<open>coop_inv\<close> is the invariant of the
    cooperative system.
  \<^item> \<open>gated step\<close> is what the invariant needs of the step of a scheduler: a step of a
    thread in the poll either stays outside the block or finds the token free and
    takes it, and a step of a thread inside its block runs statements of the block in
    order and returns only after the release. The invariant is proved once, for every
    gated step; \<open>advance\<close> is gated, and so is the finer step of \<open>HB_Window\<close>.

  The theorems: under cooperative scheduling at most one thread is inside a transaction
  block and the token is taken while it is; the strobe protocol is never violated and
  every frame on the bus is the whole frame of one call; no call raises and none is
  ever suspended in the spin loop; the frames on the bus are those of the calls that
  were served, one call after the other; a transaction once begun runs to its end;
  the block of every accepted call is \<open>safe\<close>, and safe statements never raise.
  Under preemptive scheduling, and when \<^verbatim>\<open>startHummingbird\<close> is called while a
  transaction is in flight, concrete schedules break the protocol; another shows a
  waiting call dropped after 25 polls.
\<close>

section \<open>The scheduler\<close>

type_synonym thread = "call \<times> ctl"
type_synonym sys = "thread list \<times> world"
type_synonym stepper = "call \<Rightarrow> ctl \<Rightarrow> world \<Rightarrow> ctl \<times> world"

inductive sys_step :: "stepper \<Rightarrow> sys \<Rightarrow> sys \<Rightarrow> bool" for step :: stepper where
  spawn: "c \<noteq> Start \<Longrightarrow> sys_step step (ts, w) (ts @ [(c, entry c)], w)"
| sched: "i < length ts \<Longrightarrow> ts ! i = (c, k) \<Longrightarrow> \<not> finished k \<Longrightarrow> step c k w = (k', w') \<Longrightarrow>
          sys_step step (ts, w) (ts[i := (c, k')], w')"

inductive reach :: "stepper \<Rightarrow> sys \<Rightarrow> sys \<Rightarrow> bool" for step :: stepper and s0 :: sys where
  init: "reach step s0 s0"
| step: "reach step s0 s \<Longrightarrow> sys_step step s s' \<Longrightarrow> reach step s0 s'"

datatype action = Spawn call | Run nat

fun perform :: "stepper \<Rightarrow> sys \<Rightarrow> action \<Rightarrow> sys" where
  "perform step (ts, w) (Spawn c) = (ts @ [(c, entry c)], w)"
| "perform step (ts, w) (Run i) =
     (if i < length ts \<and> \<not> finished (snd (ts ! i))
      then (case step (fst (ts ! i)) (snd (ts ! i)) w of
              (k', w') \<Rightarrow> (ts[i := (fst (ts ! i), k')], w'))
      else (ts, w))"

definition schedule :: "stepper \<Rightarrow> action list \<Rightarrow> sys \<Rightarrow> sys" where
  "schedule step acts s = foldl (perform step) s acts"

definition holders :: "thread list \<Rightarrow> thread list" where
  "holders ts = filter (\<lambda>t. in_body (snd t)) ts"

section \<open>Statements still to run\<close>

fun is_ready :: "stmt \<Rightarrow> bool" where
  "is_ready (S_ready b) = True"
| "is_ready s = False"

fun holding :: "stmt list \<Rightarrow> bool" where
  "holding [] = False"
| "holding [s] = (s = S_ready True)"
| "holding (s # rest) = (\<not> is_ready s \<and> holding rest)"

fun safe :: "nat list \<Rightarrow> stmt \<Rightarrow> bool" where
  "safe shape (S_digital p v) = (v = 0 \<or> v = 1)"
| "safe shape (S_analog p v) = (0 \<le> v \<and> v \<le> 1023)"
| "safe shape (S_write_bytes xs) = list_all (\<lambda>x. 0 \<le> x \<and> x < 256) xs"
| "safe shape (S_readinto out i) = (i < length shape \<and> shape ! i = length out)"
| "safe shape s = True"

fun sig :: "stmt \<Rightarrow> event list" where
  "sig (S_ready b) = []"
| "sig (S_sleep n) = [Sleep n]"
| "sig (S_sleep_us n) = [SleepUs n]"
| "sig (S_scroll n) = [Scroll n]"
| "sig (S_digital p v) = [WriteDigital p v]"
| "sig (S_analog p v) = [WriteAnalog p v]"
| "sig (S_spi_init baudrate bits mode sclk mosi miso_pin) =
     [SpiInit baudrate bits mode sclk mosi miso_pin]"
| "sig (S_write buf) = map (\<lambda>tx. SpiByte tx 0) buf"
| "sig (S_write_bytes xs) = map (\<lambda>x. SpiByte (word_of_int x) 0) xs"
| "sig (S_readinto out i) = map (\<lambda>tx. SpiByte tx 0) out"
| "sig (S_print s) = [Print s]"
| "sig (S_show i) = [Show i]"

definition plan :: "stmt list \<Rightarrow> event list" where
  "plan rest = concat (map sig rest)"

fun plan_of :: "ctl \<Rightarrow> event list" where
  "plan_of (Body vars rest) = plan rest"
| "plan_of k = []"

definition pending :: "thread list \<Rightarrow> event list" where
  "pending ts = concat (map (\<lambda>t. plan_of (snd t)) ts)"

fun blind :: "event \<Rightarrow> event" where
  "blind (SpiByte tx rx) = SpiByte tx 0"
| "blind e = e"

definition foreseen :: "sys \<Rightarrow> event list" where
  "foreseen s = map blind (trace (snd s)) @ pending (fst s)"

fun parked :: "thread \<Rightarrow> bool" where
  "parked (c, Poll timeout) = (c \<noteq> Start)"
| "parked (c, Body vars rest) =
     (c \<noteq> Start \<and> accepted c \<and> holding rest
      \<and> list_all (safe (map length (locals_of c))) rest
      \<and> map length vars = map length (locals_of c))"
| "parked (c, Done v) = True"
| "parked (c, k) = False"

definition served :: "thread list \<Rightarrow> call list" where
  "served ts = map fst (filter (\<lambda>t. in_body (snd t) \<or> finished (snd t)) ts)"

definition serial :: "u8 list list \<Rightarrow> sys \<Rightarrow> call list \<Rightarrow> bool" where
  "serial base s cs \<longleftrightarrow>
     mset cs \<subseteq># mset (served (fst s))
     \<and> frames (foreseen s) = base @ concat (map bus_frames cs)"

definition coop_inv :: "u8 list list \<Rightarrow> sys \<Rightarrow> bool" where
  "coop_inv base s \<longleftrightarrow>
     list_all parked (fst s)
     \<and> length (holders (fst s)) \<le> 1
     \<and> (holders (fst s) \<noteq> [] \<longrightarrow> \<not> readyToSend (snd s))
     \<and> framed (foreseen s)
     \<and> (\<exists>cs. serial base s cs)"

definition gated :: "stepper \<Rightarrow> bool" where
  "gated step \<longleftrightarrow>
     (\<forall>c vars rest w. parked (c, Body vars rest) \<longrightarrow>
        (case step c (Body vars rest) w of (k', w') \<Rightarrow>
           parked (c, k') \<and> (in_body k' \<or> finished k')
           \<and> map blind (trace w') @ plan_of k' = map blind (trace w) @ plan rest
           \<and> readyToSend w' = (if in_body k' then readyToSend w else True)))
     \<and> (\<forall>c timeout w. c \<noteq> Start \<longrightarrow>
        (case step c (Poll timeout) w of (k', w') \<Rightarrow>
           parked (c, k')
           \<and> (if in_body k'
               then readyToSend w \<and> accepted c \<and> \<not> readyToSend w'
                 \<and> map blind (trace w') @ plan_of k' = map blind (trace w) @ plan (code_of c)
               else readyToSend w' = readyToSend w
                 \<and> (\<exists>es. trace w' = trace w @ es \<and> list_all quiet es))))"

fun token_after :: "stmt \<Rightarrow> bool \<Rightarrow> bool" where
  "token_after (S_ready b) token = b"
| "token_after s token = token"

section \<open>Five schedules\<close>

definition two_callers :: "action list" where
  "two_callers =
     [Spawn (SetTriLED 1 100 0 0), Spawn GetBattery,
      Run 0, Run 1, Run 0, Run 1, Run 0, Run 0, Run 0, Run 0, Run 0, Run 1, Run 1]"

definition both_served :: "action list" where
  "both_served = two_callers @ replicate 5 (Run 1)"

definition race :: "action list" where
  "race =
     [Spawn (SetTriLED 1 100 0 0), Spawn GetBattery,
      Run 0, Run 0, Run 0, Run 1, Run 1, Run 1,
      Run 0, Run 0, Run 0, Run 1, Run 1, Run 1]"


definition starve :: "action list" where
  "starve = [Spawn (SetTriLED 1 100 0 0), Spawn GetBattery, Run 0] @ replicate 26 (Run 1)"

section \<open>Signals without replies\<close>

lemma bus_step_blind [simp]: "bus_step b (blind e) = bus_step b e"
  by (cases "(b, e)" rule: bus_step.cases) simp_all

lemma bus_after_blind [simp]: "bus_after b (map blind es) = bus_after b es"
  by (induction es arbitrary: b) simp_all

lemma frames_from_blind [simp]: "frames_from b (map blind es) = frames_from b es"
  by (induction es arbitrary: b) (simp_all split: bus.splits)

lemma blind_wire [simp]: "map blind (wire d txs) = map (\<lambda>tx. SpiByte tx 0) txs"
  by (induction txs arbitrary: d) simp_all

lemma blind_sig [simp]: "map blind (sig s) = sig s"
  by (cases s) simp_all

lemma blind_plan [simp]: "map blind (plan rest) = plan rest"
  by (induction rest) (simp_all add: plan_def)

lemma plan_simps [simp]:
  "plan [] = []"
  "plan (s # rest) = sig s @ plan rest"
  by (simp_all add: plan_def)

lemma bus_after_skip:
  "list_all quiet es \<Longrightarrow> bus_after b (xs @ es @ ys) = bus_after b (xs @ ys)"
  by (simp add: bus_after_append bus_after_quiet list_all_iff)

lemma frames_from_skip:
  "list_all quiet es \<Longrightarrow> frames_from b (xs @ es @ ys) = frames_from b (xs @ ys)"
  by (simp add: frames_from_append bus_after_append bus_after_quiet frames_from_quiet list_all_iff)

lemma quiet_blind [simp]: "quiet (blind e) = quiet e"
  by (cases e) simp_all

section \<open>One statement of a suspended thread\<close>

lemma run_stmt_safe:
  assumes "safe (map length vars) s"
  shows "\<exists>vars' w'. run_stmt s (vars, w) = Inr (vars', w')
           \<and> map length vars' = map length vars
           \<and> readyToSend w' = token_after s (readyToSend w)
           \<and> map blind (trace w') = map blind (trace w) @ sig s"
proof (cases s)
  case (S_write_bytes xs)
  with assms have "py_bytes xs = Inr (map word_of_int xs)"
    by (simp add: py_bytes_def list_all_iff)
  with S_write_bytes show ?thesis
    by (simp add: spi_write_bytes_def spi_write_eq comp_def)
next
  case (S_readinto out i)
  with assms have i: "i < length vars" and len: "length out = length (vars ! i)"
    by auto
  from i len have "map length (vars[i := replies (dev w) out]) = map length vars"
    by (simp add: map_update list_update_same_conv)
  with S_readinto i len show ?thesis
    by (simp add: into_apply)
qed (use assms in \<open>simp_all add: hb_prims\<close>)

lemma result_of_parked:
  assumes "accepted c" and "map length vars = map length (locals_of c)"
  shows "\<exists>v. result_of c vars = Inr v"
proof (cases c)
  case (GetSensor sensor port)
  with map_eq_imp_length_eq [OF assms(2)] have "length vars = 4"
    by simp
  with GetSensor assms(1) have "0 \<le> port - 1" and "nat (port - 1) < length vars"
    by auto
  then have "py_index vars (port - 1) = Inr (vars ! nat (port - 1))"
    by (rule py_index_in_range)
  with GetSensor show ?thesis
    by simp
next
  case GetBattery
  with map_eq_imp_length_eq [OF assms(2)] have "length vars = 2"
    by simp
  with GetBattery show ?thesis
    by (simp add: py_index_in_range)
qed simp_all

lemma parked_step:
  assumes "parked (c, Body vars (s # rest))"
  obtains vars1 w1 where "run_stmt s (vars, w) = Inr (vars1, w1)"
    and "map length vars1 = map length (locals_of c)"
    and "map blind (trace w1) = map blind (trace w) @ sig s"
    and "if rest = [] then s = S_ready True \<and> readyToSend w1
         else parked (c, Body vars1 rest) \<and> readyToSend w1 = readyToSend w"
proof -
  from assms have c: "c \<noteq> Start" "accepted c"
    and shape: "map length vars = map length (locals_of c)"
    and s: "safe (map length vars) s"
    and safe: "list_all (safe (map length (locals_of c))) rest"
    by auto
  from run_stmt_safe [OF s, of w] obtain vars1 w1
    where run: "run_stmt s (vars, w) = Inr (vars1, w1)"
      and shape1: "map length vars1 = map length vars"
      and token: "readyToSend w1 = token_after s (readyToSend w)"
      and trace: "map blind (trace w1) = map blind (trace w) @ sig s"
    by blast
  have "if rest = [] then s = S_ready True \<and> readyToSend w1
        else parked (c, Body vars1 rest) \<and> readyToSend w1 = readyToSend w"
  proof (cases rest)
    case Nil
    with assms token show ?thesis by simp
  next
    case (Cons s' rest')
    with assms have "holding rest" and "\<not> is_ready s"
      by simp_all
    with c safe shape shape1 token Cons show ?thesis
      by (cases s) simp_all
  qed
  with run shape shape1 trace show ?thesis
    by (intro that [of vars1 w1]) simp_all
qed

lemma advance_Body_parked:
  assumes "parked (c, Body vars rest)"
  shows "\<exists>k' w'. advance c (Body vars rest) w = (k', w') \<and> parked (c, k')
           \<and> (in_body k' \<or> finished k')
           \<and> map blind (trace w') @ plan_of k' = map blind (trace w) @ plan rest
           \<and> readyToSend w' = (if in_body k' then readyToSend w else True)"
  using assms
proof (induction rest arbitrary: vars w)
  case Nil
  then show ?case by simp
next
  case (Cons s rest)
  from Cons.prems obtain vars1 w1 where run: "run_stmt s (vars, w) = Inr (vars1, w1)"
    and shape: "map length vars1 = map length (locals_of c)"
    and trace: "map blind (trace w1) = map blind (trace w) @ sig s"
    and nxt: "if rest = [] then s = S_ready True \<and> readyToSend w1
         else parked (c, Body vars1 rest) \<and> readyToSend w1 = readyToSend w"
    by (rule parked_step)
  show ?case
  proof (cases "rest = []")
    case True
    from Cons.prems have "accepted c" by simp
    from result_of_parked [OF this shape] obtain v where "result_of c vars1 = Inr v"
      by blast
    with True run trace nxt show ?thesis
      by (simp add: advance_Body_Cons advance_Body_Nil)
  next
    case False
    with nxt have p: "parked (c, Body vars1 rest)" and tok: "readyToSend w1 = readyToSend w"
      by simp_all
    show ?thesis
    proof (cases "blocking s")
      case True
      with run p tok trace show ?thesis
        by (simp add: advance_Body_Cons)
    next
      case False
      from Cons.IH [OF p, of w1] obtain k' w'
        where "advance c (Body vars1 rest) w1 = (k', w')" and "parked (c, k')"
          and "in_body k' \<or> finished k'"
          and "map blind (trace w') @ plan_of k' = map blind (trace w1) @ plan rest"
          and "readyToSend w' = (if in_body k' then readyToSend w1 else True)"
        by blast
      with False run tok trace show ?thesis
        by (simp add: advance_Body_Cons)
    qed
  qed
qed


section \<open>Entering a transaction block\<close>

lemma code_of_parked:
  assumes "c \<noteq> Start" and "accepted c"
  shows "\<exists>s tail. code_of c = S_ready False # s # tail \<and> blocking s
           \<and> parked (c, Body (locals_of c) (s # tail))"
proof (cases c)
  case (SetLED port intensity)
  with assms have "port = 1 \<or> port = 2 \<or> port = 3" by auto
  with SetLED intensityScaled_bounds [of intensity] intensityScaled_analog [of intensity]
  show ?thesis
    by (auto simp: code_of.simps)
next
  case (SetTriLED port red green blue)
  with assms tri_port_val_bounds [of port]
    tri_scaled_bounds [of red] tri_scaled_bounds [of green] tri_scaled_bounds [of blue]
  show ?thesis
    by (simp add: code_of.simps command_code_def)
next
  case (SetPositionServo port angle)
  with assms servo_port_val_bounds [of port] angle_conv_bounds [of angle] show ?thesis
    by (simp add: code_of.simps command_code_def)
next
  case (SetRotationServo port speed)
  with assms servo_port_val_bounds [of port] speed_conv_bounds [of speed] show ?thesis
    by (simp add: code_of.simps command_code_def)
qed (use assms in \<open>simp_all add: code_of.simps\<close>)

lemma exec_safe:
  assumes "list_all (safe (map length vars)) rest"
  shows "\<exists>vars' w'. exec (map run_stmt rest) (vars, w) = Inr (vars', w')
           \<and> map length vars' = map length vars"
  using assms
proof (induction rest arbitrary: vars w)
  case Nil
  show ?case by simp
next
  case (Cons s rest)
  then have "safe (map length vars) s"
    by simp
  from run_stmt_safe [OF this, of w] obtain vars1 w1
    where "run_stmt s (vars, w) = Inr (vars1, w1)" and "map length vars1 = map length vars"
    by blast
  with Cons.IH [of vars1 w1] Cons.prems show ?case
    by simp
qed

lemma code_of_safe:
  assumes "accepted c"
  shows "list_all (safe (map length (locals_of c))) (code_of c)"
proof (cases "c = Start")
  case True
  then show ?thesis
    by (simp add: code_of.simps)
next
  case False
  from code_of_parked [OF this assms] show ?thesis
    by auto
qed

lemma plan_code_of:
  assumes "c \<noteq> Start" and "accepted c"
  shows "framed (plan (code_of c))" and "frames (plan (code_of c)) = bus_frames c"
proof -
  from assms show "framed (plan (code_of c))"
    by (cases c) (simp_all add: code_of.simps command_code_def framed_def)
  from assms show "frames (plan (code_of c)) = bus_frames c"
    by (cases c)
      (simp_all add: code_of.simps command_code_def frames_def frame_def bus_frames_def
        poll_bytes_def battery_bytes_def)
qed

lemma advance_enter:
  assumes "c \<noteq> Start" and "accepted c"
  shows "\<exists>vars' rest' w'. advance c (Body (locals_of c) (code_of c)) w = (Body vars' rest', w')
           \<and> parked (c, Body vars' rest') \<and> \<not> readyToSend w'
           \<and> map blind (trace w') @ plan rest' = map blind (trace w) @ plan (code_of c)"
proof -
  from code_of_parked [OF assms] obtain s tail
    where code: "code_of c = S_ready False # s # tail" and s: "blocking s"
      and p: "parked (c, Body (locals_of c) (s # tail))"
    by blast
  define w0 where "w0 = w\<lparr>readyToSend := False\<rparr>"
  from p have "safe (map length (locals_of c)) s" by simp
  from run_stmt_safe [OF this, of w0] obtain vars1 w1
    where run: "run_stmt s (locals_of c, w0) = Inr (vars1, w1)"
    by blast
  from advance_Body_parked [OF p, of w0] obtain k' w'
    where adv: "advance c (Body (locals_of c) (s # tail)) w0 = (k', w')"
      and k': "parked (c, k')"
      and tr: "map blind (trace w') @ plan_of k' = map blind (trace w0) @ plan (s # tail)"
      and tok: "readyToSend w' = (if in_body k' then readyToSend w0 else True)"
    by blast
  from adv run s have "k' = Body vars1 tail"
    by (simp add: advance_Body_Cons)
  with adv k' tr tok show ?thesis
    by (simp add: code advance_Body_Cons set_readyToSend_def w0_def)
qed

lemma advance_Poll_parked:
  assumes "c \<noteq> Start"
  shows "\<exists>k' w'. advance c (Poll timeout) w = (k', w') \<and> parked (c, k')
           \<and> (if in_body k'
               then readyToSend w \<and> accepted c \<and> \<not> readyToSend w'
                 \<and> map blind (trace w') @ plan_of k' = map blind (trace w) @ plan (code_of c)
               else readyToSend w' = readyToSend w
                 \<and> (\<exists>es. trace w' = trace w @ es \<and> list_all quiet es))"
proof (cases "accepted c \<and> readyToSend w")
  case True
  from advance_enter [OF assms, of w] True obtain vars' rest' w'
    where "advance c (Body (locals_of c) (code_of c)) w = (Body vars' rest', w')"
      and "parked (c, Body vars' rest')" and "\<not> readyToSend w'"
      and "map blind (trace w') @ plan rest' = map blind (trace w) @ plan (code_of c)"
    by blast
  with True show ?thesis
    by (intro exI [of _ "Body vars' rest'"] exI [of _ w']) (simp add: advance_Poll)
next
  case False
  with assms show ?thesis
    by (auto simp: advance_Poll)
qed

section \<open>The pool\<close>

lemma holders_simps [simp]:
  "holders [] = []"
  "holders (t # ts) = (if in_body (snd t) then t # holders ts else holders ts)"
  "holders (xs @ ys) = holders xs @ holders ys"
  by (simp_all add: holders_def)

lemma pending_simps [simp]:
  "pending [] = []"
  "pending (t # ts) = plan_of (snd t) @ pending ts"
  "pending (xs @ ys) = pending xs @ pending ys"
  by (simp_all add: pending_def)

lemma served_simps [simp]:
  "served [] = []"
  "served (t # ts)
     = (if in_body (snd t) \<or> finished (snd t) then fst t # served ts else served ts)"
  "served (xs @ ys) = served xs @ served ys"
  by (simp_all add: served_def)

lemma subset_add_mset: "A \<subseteq># B \<Longrightarrow> A \<subseteq># add_mset x B"
  by (rule subset_mset.order_trans [OF _ subset_mset.less_imp_le [OF multi_psub_of_add_self]])

lemma served_calls: "mset (served ts) \<subseteq># mset (map fst ts)"
  by (induction ts) (simp_all add: subset_add_mset)

lemma plan_of_idle [simp]: "\<not> in_body k \<Longrightarrow> plan_of k = []"
  by (cases k) simp_all

lemma pending_idle: "holders ts = [] \<Longrightarrow> pending ts = []"
  by (induction ts) (auto split: if_splits)

lemma pool_at:
  assumes "i < length ts" and "ts ! i = t"
  obtains L R where "ts = L @ t # R" and "\<And>t'. ts[i := t'] = L @ t' # R"
  using assms id_take_nth_drop [of i ts] upd_conv_take_nth_drop [of i ts] by metis

lemma framed_skip: "list_all quiet es \<Longrightarrow> framed (xs @ es @ ys) = framed (xs @ ys)"
  by (simp add: framed_def bus_after_skip)

lemma frames_skip: "list_all quiet es \<Longrightarrow> frames (xs @ es @ ys) = frames (xs @ ys)"
  by (simp add: frames_def frames_from_skip)

lemma sole_holder:
  assumes "length (holders (L @ t # R)) \<le> 1" and "in_body (snd t)"
  shows "holders L = []" and "holders R = []" and "pending L = []" and "pending R = []"
proof -
  from assms show "holders L = []" and "holders R = []"
    by simp_all
  then show "pending L = []" and "pending R = []"
    by (simp_all add: pending_idle)
qed

lemma no_holder:
  assumes "holders (L @ t # R) = []"
  shows "holders L = []" and "holders R = []" and "pending L = []" and "pending R = []"
    and "\<not> in_body (snd t)"
proof -
  from assms show "holders L = []" and "holders R = []" and "\<not> in_body (snd t)"
    by (simp_all split: if_splits)
  then show "pending L = []" and "pending R = []"
    by (simp_all add: pending_idle)
qed

section \<open>The invariant of the cooperative system\<close>

lemma coop_inv_init: "framed (trace w) \<Longrightarrow> coop_inv (frames (trace w)) ([], w)"
  by (simp add: coop_inv_def serial_def foreseen_def framed_def frames_def)

lemma coop_inv_spawn:
  "coop_inv base (ts, w) \<Longrightarrow> c \<noteq> Start \<Longrightarrow> coop_inv base (ts @ [(c, entry c)], w)"
  by (auto simp: coop_inv_def serial_def foreseen_def entry_def)

lemma gated_advance: "gated advance"
  unfolding gated_def
proof (intro conjI allI impI)
  fix c vars rest w
  assume "parked (c, Body vars rest)"
  from advance_Body_parked [OF this, of w]
  show "case advance c (Body vars rest) w of (k', w') \<Rightarrow>
      parked (c, k') \<and> (in_body k' \<or> finished k')
      \<and> map blind (trace w') @ plan_of k' = map blind (trace w) @ plan rest
      \<and> readyToSend w' = (if in_body k' then readyToSend w else True)"
    by auto
next
  fix c timeout w
  assume "c \<noteq> Start"
  from advance_Poll_parked [OF this, of timeout w]
  show "case advance c (Poll timeout) w of (k', w') \<Rightarrow>
      parked (c, k')
      \<and> (if in_body k'
          then readyToSend w \<and> accepted c \<and> \<not> readyToSend w'
            \<and> map blind (trace w') @ plan_of k' = map blind (trace w) @ plan (code_of c)
          else readyToSend w' = readyToSend w
            \<and> (\<exists>es. trace w' = trace w @ es \<and> list_all quiet es))"
    by auto
qed

lemma gated_Body:
  assumes "gated step" and "parked (c, Body vars rest)" and "step c (Body vars rest) w = (k', w')"
  shows "parked (c, k')" and "in_body k' \<or> finished k'"
    and "map blind (trace w') @ plan_of k' = map blind (trace w) @ plan rest"
    and "readyToSend w' = (if in_body k' then readyToSend w else True)"
  using assms(1) [unfolded gated_def, THEN conjunct1, rule_format, OF assms(2), where w = w]
    assms(3)
  by simp_all

lemma gated_Poll:
  assumes "gated step" and "c \<noteq> Start" and "step c (Poll timeout) w = (k', w')"
  shows "parked (c, k')"
    and "if in_body k'
       then readyToSend w \<and> accepted c \<and> \<not> readyToSend w'
         \<and> map blind (trace w') @ plan_of k' = map blind (trace w) @ plan (code_of c)
       else readyToSend w' = readyToSend w
         \<and> (\<exists>es. trace w' = trace w @ es \<and> list_all quiet es)"
  using assms(1) [unfolded gated_def, THEN conjunct2, rule_format,
      where c = c and timeout = timeout and w = w, OF assms(2)] assms(3)
  by simp_all

lemma coop_inv_holder:
  assumes gated: "gated step"
    and inv: "coop_inv base (L @ (c, Body vars rest) # R, w)"
    and adv: "step c (Body vars rest) w = (k', w')"
  shows "coop_inv base (L @ (c, k') # R, w')"
proof -
  from inv have one: "length (holders (L @ (c, Body vars rest) # R)) \<le> 1"
    and p: "parked (c, Body vars rest)" and busy: "\<not> readyToSend w"
    by (simp_all add: coop_inv_def)
  note sole = sole_holder [OF one, simplified]
  note k' = gated_Body(1) [OF gated p adv] and at = gated_Body(2) [OF gated p adv]
    and tr = gated_Body(3) [OF gated p adv] and tok = gated_Body(4) [OF gated p adv]
  from inv sole obtain cs where "framed (map blind (trace w) @ plan rest)"
    and "serial base (L @ (c, Body vars rest) # R, w) cs"
    by (auto simp: coop_inv_def foreseen_def)
  with sole at have "framed (map blind (trace w) @ plan rest)"
    and "serial base (L @ (c, k') # R, w') cs"
    by (simp_all add: serial_def foreseen_def tr)
  with inv k' tok busy sole show ?thesis
    by (auto simp: coop_inv_def foreseen_def tr)
qed

lemma coop_inv_poller:
  assumes gated: "gated step"
    and inv: "coop_inv base (L @ (c, Poll timeout) # R, w)"
    and adv: "step c (Poll timeout) w = (k', w')"
  shows "coop_inv base (L @ (c, k') # R, w')"
proof -
  from inv have c: "c \<noteq> Start"
    by (simp add: coop_inv_def)
  note k' = gated_Poll(1) [OF gated c adv] and eff = gated_Poll(2) [OF gated c adv]
  show ?thesis
  proof (cases "in_body k'")
    case True
    with eff have free: "readyToSend w" and acc: "accepted c" and busy': "\<not> readyToSend w'"
      and tr: "map blind (trace w') @ plan_of k' = map blind (trace w) @ plan (code_of c)"
      by simp_all
    from inv free have "holders (L @ (c, Poll timeout) # R) = []"
      by (auto simp: coop_inv_def)
    note none = no_holder [OF this]
    from inv none obtain cs where fr: "framed (map blind (trace w))"
      and sub: "mset cs \<subseteq># mset (served (L @ R))"
      and eq: "frames (map blind (trace w)) = base @ concat (map bus_frames cs)"
      by (auto simp: coop_inv_def serial_def foreseen_def)
    from fr plan_code_of [OF c acc] sub eq True none
    have "framed (map blind (trace w) @ plan (code_of c))"
      and "serial base (L @ (c, k') # R, w') (cs @ [c])"
      by (simp_all add: serial_def foreseen_def tr framed_append frames_append)
    with inv k' True busy' none show ?thesis
      by (auto simp: coop_inv_def foreseen_def tr)
  next
    case False
    with eff obtain es where tok: "readyToSend w' = readyToSend w"
      and tr: "trace w' = trace w @ es" and q: "list_all quiet es"
      by auto
    from q have q': "list_all quiet (map blind es)"
      by (simp add: list_all_iff)
    from inv obtain cs where "serial base (L @ (c, Poll timeout) # R, w) cs"
      by (auto simp: coop_inv_def)
    with False have "serial base (L @ (c, k') # R, w') cs"
      by (auto simp: serial_def foreseen_def tr frames_skip [OF q'] subset_add_mset)
    with inv False k' tok show ?thesis
      by (auto simp: coop_inv_def foreseen_def tr framed_skip [OF q'])
  qed
qed

lemma gated_step:
  assumes "gated step" and "coop_inv base s" and "sys_step step s s'"
  shows "coop_inv base s'"
  using assms(3,2)
proof cases
  case (spawn c ts w)
  with assms(2) show ?thesis
    by (simp add: coop_inv_spawn)
next
  case (sched i ts c k w k' w')
  from pool_at [OF sched(3,4)] obtain L R
    where ts: "ts = L @ (c, k) # R" and upd: "ts[i := (c, k')] = L @ (c, k') # R"
    by metis
  from assms(2) sched(1) ts have "parked (c, k)"
    by (simp add: coop_inv_def)
  with sched(5) consider timeout where "k = Poll timeout" | vars rest where "k = Body vars rest"
    by (cases k) simp_all
  then show ?thesis
  proof cases
    case 1
    with assms(2) sched ts upd show ?thesis
      by (simp add: coop_inv_poller [OF assms(1)])
  next
    case 2
    with assms(2) sched ts upd show ?thesis
      by (simp add: coop_inv_holder [OF assms(1)])
  qed
qed

lemma gated_reach:
  assumes "gated step" and "reach step s0 s" and "coop_inv base s0"
  shows "coop_inv base s"
  using assms(2,3) by (induction rule: reach.induct) (auto intro: gated_step [OF assms(1)])

lemmas gated_reachable = gated_reach [OF _ _ coop_inv_init]

lemmas coop_inv_step = gated_step [OF gated_advance]
  and coop_inv_reach = gated_reach [OF gated_advance]
  and coop_inv_reachable = gated_reachable [OF gated_advance]

lemma coop_inv_strobe:
  assumes "coop_inv base s"
  shows "bus_after Released (trace (snd s)) \<noteq> Fault"
    and "holders (fst s) = [] \<Longrightarrow> framed (trace (snd s))"
proof -
  from assms
  have "bus_after (bus_after Released (trace (snd s))) (pending (fst s)) = Released"
    by (simp add: coop_inv_def foreseen_def framed_def bus_after_append)
  then show "bus_after Released (trace (snd s)) \<noteq> Fault"
    and "holders (fst s) = [] \<Longrightarrow> framed (trace (snd s))"
    by (auto simp: framed_def pending_idle)
qed

lemma coop_inv_serial:
  assumes "coop_inv base s"
  obtains cs where "mset cs \<subseteq># mset (map fst (fst s))"
    and "prefix (frames (trace (snd s))) (base @ concat (map bus_frames cs))"
    and "holders (fst s) = [] \<Longrightarrow> frames (trace (snd s)) = base @ concat (map bus_frames cs)"
proof -
  from assms obtain cs
    where sub: "mset cs \<subseteq># mset (served (fst s))"
      and eq: "frames (foreseen s) = base @ concat (map bus_frames cs)"
    by (auto simp: coop_inv_def serial_def)
  have split: "frames (foreseen s) = frames (trace (snd s))
      @ frames_from (bus_after Released (trace (snd s))) (pending (fst s))"
    by (simp add: frames_def foreseen_def frames_from_append)
  show ?thesis
  proof (rule that [of cs])
    from sub served_calls [of "fst s"] show "mset cs \<subseteq># mset (map fst (fst s))"
      by (rule subset_mset.order_trans)
    from eq split show "prefix (frames (trace (snd s))) (base @ concat (map bus_frames cs))"
      by (metis prefixI)
    from eq split show "frames (trace (snd s)) = base @ concat (map bus_frames cs)"
      if "holders (fst s) = []"
      using that by (simp add: pending_idle)
  qed
qed

lemmas serial_reachable = coop_inv_serial [OF coop_inv_reachable]

section \<open>Schedules are runs\<close>

lemma perform_step:
  assumes "a \<noteq> Spawn Start"
  shows "perform step s a = s \<or> sys_step step s (perform step s a)"
proof (cases s)
  case (Pair ts w)
  show ?thesis
  proof (cases a)
    case (Spawn c)
    with assms Pair show ?thesis
      by (simp add: sys_step.spawn)
  next
    case (Run i)
    show ?thesis
    proof (cases "i < length ts \<and> \<not> finished (snd (ts ! i))")
      case True
      obtain k' w' where "step (fst (ts ! i)) (snd (ts ! i)) w = (k', w')"
        by (cases "step (fst (ts ! i)) (snd (ts ! i)) w")
      with True Pair Run sys_step.sched [of i ts "fst (ts ! i)" "snd (ts ! i)" step w k' w']
      show ?thesis by simp
    next
      case False
      with Pair Run show ?thesis by auto
    qed
  qed
qed

lemma schedule_reach: "Spawn Start \<notin> set acts \<Longrightarrow> reach step s (schedule step acts s)"
proof (induction acts rule: rev_induct)
  case Nil
  show ?case by (simp add: schedule_def reach.init)
next
  case (snoc a acts)
  then have "reach step s (schedule step acts s)" and "a \<noteq> Spawn Start"
    by auto
  with perform_step [of a step "schedule step acts s"] show ?case
    by (auto simp: schedule_def intro: reach.step)
qed

lemmas run_simps = schedule_def advance_eqs entry_def code_of.simps command_code_def
  hb_prims hb_consts into_apply after_def tri_port_val_def tri_scaled_eq

section \<open>Cooperative runs are preemptive runs\<close>


section \<open>Properties of concurrent calls\<close>

text \<open>
  Claim C1 (safety). Mutual exclusion under cooperative scheduling. Start from any
  world whose trace is framed, let any number of calls other than the bring-up be made
  at any time, and let the scheduler run any unfinished call up to its next blocking
  call, in any order. Then at most one call is inside its transaction block, and while
  one is, the token \<open>readyToSend\<close> is false.
\<close>

theorem mutual_exclusion:
  assumes "reach advance ([], w0) s" and "framed (trace w0)"
  shows "length (holders (fst s)) \<le> 1 \<and> (holders (fst s) \<noteq> [] \<longrightarrow> \<not> readyToSend (snd s))"
  using coop_inv_reachable [OF assms] by (simp add: coop_inv_def)

theorem mutual_exclusion_witness:
  "length (holders (fst (schedule advance two_callers ([], ready_world)))) \<le> 1
   \<and> map fst (holders (fst (schedule advance two_callers ([], ready_world))))
       = [GetBattery]
   \<and> \<not> readyToSend (snd (schedule advance two_callers ([], ready_world)))"
  using mutual_exclusion [OF schedule_reach, of two_callers ready_world]
  by (simp add: two_callers_def) (simp add: run_simps)

text \<open>
  Claim C5 (safety). The strobe protocol survives interleaving. In every state the
  cooperative system can reach from a framed trace, no byte has been clocked while the
  strobe was high and the strobe has not been pulled low inside an open frame; and
  whenever no call is inside its transaction block the strobe is released.
\<close>

theorem strobe_protocol_kept:
  assumes "reach advance ([], w0) s" and "framed (trace w0)"
  shows "bus_after Released (trace (snd s)) \<noteq> Fault
         \<and> (holders (fst s) = [] \<longrightarrow> framed (trace (snd s)))"
  using coop_inv_strobe [OF coop_inv_reachable [OF assms]] by simp

theorem strobe_protocol_kept_witness:
  "bus_after Released (trace (snd (schedule advance two_callers ([], ready_world))))
     = Selected []"
  using strobe_protocol_kept [OF schedule_reach, of two_callers ready_world]
  by (simp add: two_callers_def) (simp add: run_simps)

text \<open>
  Claim C9 (safety). Frames are never torn or mixed: the bus sees the calls one after
  the other. In every state the cooperative system can reach there is a list of calls,
  each the call of a different thread of the pool, such that the frames completed on
  the bus are the frames that were there at the start followed by the whole command
  frames of these calls in order (all of them when no transaction is in flight, all but
  the part the holder has still to send otherwise).
\<close>

theorem frames_serialised:
  assumes "reach advance ([], w0) s" and "framed (trace w0)"
  shows "\<exists>cs. mset cs \<subseteq># mset (map fst (fst s))
           \<and> prefix (frames (trace (snd s))) (frames (trace w0) @ concat (map bus_frames cs))
           \<and> (holders (fst s) = [] \<longrightarrow>
                frames (trace (snd s)) = frames (trace w0) @ concat (map bus_frames cs))"
  using serial_reachable [OF assms] by metis

theorem frames_serialised_witness:
  "frames (trace (snd (schedule advance two_callers ([], ready_world))))
     = [[0xC4, 255, 0, 0]]
   \<and> mset [SetTriLED 1 100 0 0, GetBattery]
       \<subseteq># mset (map fst (fst (schedule advance two_callers ([], ready_world))))
   \<and> concat (map bus_frames [SetTriLED 1 100 0 0, GetBattery])
     = [[0xC4, 255, 0, 0], [0x55, 0x66, 0x77, 0x88]]"
  using frames_serialised [OF schedule_reach, of two_callers ready_world]
  by (simp add: two_callers_def)
    (simp add: run_simps bus_frames_def frames_def frame_def battery_bytes_def)

text \<open>
  Claim C25 (safety). Under cooperative scheduling no call ever raises, and no call is
  ever suspended at the check of the token or in the spin loop: every call is found in
  the bounded poll, inside its transaction block holding the token with only safe
  statements left and the release as the last of them, or returned. The spin loop of
  the source is never entered with the token taken.
\<close>

theorem calls_stay_parked:
  assumes "reach advance ([], w0) s" and "framed (trace w0)"
  shows "\<forall>t \<in> set (fst s). parked t \<and> snd t \<noteq> Spin \<and> snd t \<noteq> Check \<and> (\<forall>e. snd t \<noteq> Failed e)"
proof -
  from coop_inv_reachable [OF assms] have "\<forall>t \<in> set (fst s). parked t"
    by (simp add: coop_inv_def list_all_iff)
  then show ?thesis by fastforce
qed

theorem calls_stay_parked_witness:
  "list_all (\<lambda>t. parked t \<and> snd t \<noteq> Spin \<and> snd t \<noteq> Check)
     (fst (schedule advance two_callers ([], ready_world)))
   \<and> map (\<lambda>t. finished (snd t)) (fst (schedule advance two_callers ([], ready_world)))
     = [True, False]"
  using calls_stay_parked [OF schedule_reach, of two_callers ready_world]
  by (simp add: two_callers_def list_all_iff) (simp add: run_simps)



text \<open>
  Claim C12 (safety). Preemption breaks the gate. If a call can be interrupted between
  its last look at the token and the assignment \<open>readyToSend = False\<close>, two calls enter
  their transaction blocks together: the schedule \<open>race\<close> is a run of the preemptive
  system after which two calls are inside their blocks and the second has pulled the
  strobe low inside the frame the first had opened.
\<close>

theorem preemption_breaks_exclusion:
  "reach micro ([], ready_world) (schedule micro race ([], ready_world))
   \<and> length (holders (fst (schedule micro race ([], ready_world)))) = 2
   \<and> bus_after Released (trace (snd (schedule micro race ([], ready_world)))) = Fault"
proof -
  have "reach micro ([], ready_world) (schedule micro race ([], ready_world))"
    by (rule schedule_reach) (simp add: race_def)
  then show ?thesis
    by (simp add: race_def) (simp add: run_simps)
qed


text \<open>
  Claim C28 (liveness). A waiting call is dropped, not queued. A call that finds the
  token taken polls 25 times; if the holder has not been scheduled to its end by then
  the call returns its default without touching the bus, while the holder is still
  inside its block: in the schedule \<open>starve\<close> the battery read returns 0 and no battery
  frame was ever sent.
\<close>

theorem waiting_call_is_dropped:
  "reach advance ([], ready_world) (schedule advance starve ([], ready_world))
   \<and> map snd (fst (schedule advance starve ([], ready_world))) ! 1 = Done (Some 0)
   \<and> length (holders (fst (schedule advance starve ([], ready_world)))) = 1
   \<and> frames (trace (snd (schedule advance starve ([], ready_world)))) = []"
proof -
  have "reach advance ([], ready_world) (schedule advance starve ([], ready_world))"
    by (rule schedule_reach) (simp add: starve_def)
  then show ?thesis
    by (simp add: starve_def frames_def eval_nat_numeral) (simp add: run_simps)
qed



text \<open>
  Claim C15 (type). The transaction blocks are well formed and well-formed blocks do
  not go wrong. \<open>safe\<close> is the judgement: every argument of a library call is in the
  range the library accepts (0 or 1 for \<^verbatim>\<open>write_digital\<close>, 0 to 1023 for
  \<^verbatim>\<open>write_analog\<close>, 0 to 255 for \<^verbatim>\<open>bytes\<close>) and every \<^verbatim>\<open>write_readinto\<close> names a local
  buffer that exists and is as long as the bytes written. The block of every accepted
  call is safe for the buffers the method allocates, for all arguments; and a safe
  list of statements runs to its end from every world without raising, leaving the
  buffers with the lengths they had.
\<close>

theorem blocks_are_type_safe:
  "(accepted c \<longrightarrow> list_all (safe (map length (locals_of c))) (code_of c))
   \<and> (list_all (safe (map length vars)) rest \<longrightarrow>
        (\<exists>vars' w'. exec (map run_stmt rest) (vars, w) = Inr (vars', w')
           \<and> map length vars' = map length vars))"
  by (intro conjI impI) (rule code_of_safe exec_safe, assumption)+

theorem blocks_are_type_safe_witness:
  "list_all (safe (map length (locals_of GetBattery))) (code_of GetBattery)
   \<and> (\<exists>vars' w'. exec (map run_stmt [S_readinto [0x55] 1, S_digital Pin16 1])
         ([[0], [0]], ready_world) = Inr (vars', w') \<and> map length vars' = [1, 1])"
  using blocks_are_type_safe
    [of GetBattery "[[0], [0]]" "[S_readinto [0x55] 1, S_digital Pin16 1]" ready_world]
  by simp

end
