(* ===== verification/HB_Serial.thy ===== *)
theory HB_Serial
  imports HB_Concurrent
begin

text \<open>
  Cooperative runs of \<^verbatim>\<open>src/hummingbird.py\<close> against sequential programs: values,
  controller and trace.

  \<^item> \<open>unpolled\<close> removes from a trace the 10 ms sleeps of the bounded poll, the only
    thing a waiting caller does to the world; \<open>alike\<close> relates two worlds with the same
    token, the same controller state and the same trace up to these sleeps.
  \<^item> \<open>returned cs w0\<close> is the pool a sequential program leaves behind: every call of
    \<open>cs\<close> returned, with the value the methods of \<open>HB_Driver\<close> give it when they run
    one after the other from \<open>w0\<close>. \<open>waiting\<close> holds of a thread that has not been
    served: it is in the bounded poll, or it has returned the default of its method.
  \<^item> \<open>completes c k w v w1\<close>: the statements that the call \<open>c\<close> inside its block has
    left lead, run from \<open>w\<close>, to the value \<open>v\<close> and to a world like \<open>w1\<close>.
  \<^item> \<open>lin w0 s cs\<close> is the invariant: the pool of \<open>s\<close> is \<open>returned cs w0\<close> and
    waiting threads, and the world of \<open>s\<close> is like the world after the sequential
    program \<open>cs\<close>; when a call is inside its block, it is the last call of \<open>cs\<close> and
    \<open>completes\<close> with the value and the world of the sequential program.

  \<^item> \<open>orderly step\<close> is what the invariant needs of the step of a scheduler, besides
    \<open>gated\<close>: a step inside a block runs a prefix of the block, and a step of a thread in
    the poll leaves the world alike or enters the block at its beginning.

  The lemmas show that the statements of a block cannot tell alike worlds apart, that
  \<open>advance\<close> is orderly, and that every step of a scheduler that is gated and orderly
  keeps \<open>lin\<close>, extending \<open>cs\<close> when a call enters its block. Conversely every
  sequential program is a run of the cooperative scheduler.
\<close>

section \<open>Worlds up to the sleeps of waiting callers\<close>

definition unpolled :: "event list \<Rightarrow> event list" where
  "unpolled es = filter (\<lambda>e. e \<noteq> Sleep 10) es"

definition alike :: "world \<Rightarrow> world \<Rightarrow> bool" where
  "alike w w' \<longleftrightarrow>
     readyToSend w = readyToSend w' \<and> dev w = dev w' \<and> unpolled (trace w) = unpolled (trace w')"

fun waiting :: "thread \<Rightarrow> bool" where
  "waiting (c, Poll timeout) = True"
| "waiting (c, Done v) = (v = default_of c)"
| "waiting (c, k) = False"

definition returned :: "call list \<Rightarrow> world \<Rightarrow> thread list" where
  "returned cs w0 = zip cs (map Done (values_of cs w0))"

definition completes :: "call \<Rightarrow> ctl \<Rightarrow> world \<Rightarrow> int option \<Rightarrow> world \<Rightarrow> bool" where
  "completes c k w v w1 =
     (case k of
        Body vars rest \<Rightarrow>
          (case exec (map run_stmt rest) (vars, w) of
             Inr (vars', w2) \<Rightarrow> result_of c vars' = Inr v \<and> alike w2 w1
           | Inl e \<Rightarrow> False)
      | _ \<Rightarrow> False)"

definition lin :: "world \<Rightarrow> sys \<Rightarrow> call list \<Rightarrow> bool" where
  "lin w0 s cs \<longleftrightarrow>
     (\<exists>others. list_all waiting others \<and>
        (case holders (fst s) of
           [] \<Rightarrow> mset (fst s) = mset (returned cs w0 @ others)
                 \<and> alike (snd s) (outcomes cs w0)
         | [(c, k)] \<Rightarrow> cs \<noteq> [] \<and> c = last cs
                 \<and> mset (fst s) = mset ((c, k) # returned (butlast cs) w0 @ others)
                 \<and> completes c k (snd s) (last (values_of cs w0)) (outcomes cs w0)
         | _ \<Rightarrow> False))"

definition orderly :: "stepper \<Rightarrow> bool" where
  "orderly step \<longleftrightarrow>
     (\<forall>c vars rest w.
        (case step c (Body vars rest) w of (k', w') \<Rightarrow>
           (case k' of
              Body vars' rest' \<Rightarrow>
                exec (map run_stmt rest) (vars, w) = exec (map run_stmt rest') (vars', w')
            | Done v \<Rightarrow>
                (\<exists>vars'. exec (map run_stmt rest) (vars, w) = Inr (vars', w')
                   \<and> result_of c vars' = Inr v)
            | Failed e \<Rightarrow>
                exec (map run_stmt rest) (vars, w) = Inl e
                \<or> (\<exists>vars'. exec (map run_stmt rest) (vars, w) = Inr (vars', w')
                      \<and> result_of c vars' = Inl e)
            | _ \<Rightarrow> False)))
     \<and> (\<forall>c timeout w. c \<noteq> Start \<longrightarrow>
        (case step c (Poll timeout) w of (k', w') \<Rightarrow>
           (waiting (c, k') \<and> alike w' w)
           \<or> (readyToSend w \<and> accepted c
               \<and> (\<exists>vars' rest'. k' = Body vars' rest'
                     \<and> exec (map run_stmt (code_of c)) (locals_of c, w)
                         = exec (map run_stmt rest') (vars', w')))))"

section \<open>Alike worlds\<close>

lemma unpolled_simps [simp]:
  "unpolled [] = []"
  "unpolled (e # es) = (if e = Sleep 10 then unpolled es else e # unpolled es)"
  "unpolled (xs @ ys) = unpolled xs @ unpolled ys"
  by (simp_all add: unpolled_def)

lemma alike_refl [simp]: "alike w w"
  by (simp add: alike_def)

lemma alike_sym: "alike w w' \<Longrightarrow> alike w' w"
  by (simp add: alike_def)

lemma alike_trans: "alike a b \<Longrightarrow> alike b c \<Longrightarrow> alike a c"
  by (simp add: alike_def)

lemma alike_poll [simp]: "alike (emit (Sleep 10) w) w' \<longleftrightarrow> alike w w'"
  by (simp add: alike_def)

lemma unpolled_wire [simp]: "unpolled (wire d txs) = wire d txs"
  by (induction txs arbitrary: d) simp_all

lemma frames_from_unpolled [simp]: "frames_from b (unpolled es) = frames_from b es"
  by (induction es arbitrary: b) (simp_all split: bus.splits)

lemma bus_after_unpolled [simp]: "bus_after b (unpolled es) = bus_after b es"
  by (induction es arbitrary: b) simp_all

lemma run_stmt_alike:
  assumes "alike w w'" and "run_stmt s (vars, w) = Inr (vars1, w1)"
  shows "\<exists>w1'. run_stmt s (vars, w') = Inr (vars1, w1') \<and> alike w1 w1'"
  using assms
  by (cases s)
    (auto simp: alike_def hb_prims into_def readinto_def spi_write_readinto_def spi_transfer_eq
      spi_write_bytes_def bind_res_def split: if_splits sum.splits)

lemma exec_alike:
  assumes "alike w w'" and "exec (map run_stmt rest) (vars, w) = Inr (vars1, w1)"
  shows "\<exists>w1'. exec (map run_stmt rest) (vars, w') = Inr (vars1, w1') \<and> alike w1 w1'"
  using assms
proof (induction rest arbitrary: vars w w')
  case Nil
  then show ?case by simp
next
  case (Cons s rest)
  from Cons.prems(2) obtain vars2 w2 where s: "run_stmt s (vars, w) = Inr (vars2, w2)"
    and r: "exec (map run_stmt rest) (vars2, w2) = Inr (vars1, w1)"
    by (auto simp: bind_res_Inr_iff)
  from run_stmt_alike [OF Cons.prems(1) s] obtain w2'
    where s': "run_stmt s (vars, w') = Inr (vars2, w2')" and a: "alike w2 w2'"
    by blast
  from Cons.IH [OF a r] s' show ?case
    by simp
qed

lemma completes_alike:
  assumes "completes c k w v w1" and "alike w w'"
  shows "completes c k w' v w1"
proof (cases k)
  case (Body vars rest)
  with assms(1) obtain vars' w2 where e: "exec (map run_stmt rest) (vars, w) = Inr (vars', w2)"
    and r: "result_of c vars' = Inr v" and a: "alike w2 w1"
    by (auto simp: completes_def split: sum.splits)
  from exec_alike [OF assms(2) e] obtain w2'
    where "exec (map run_stmt rest) (vars, w') = Inr (vars', w2')" and "alike w2 w2'"
    by blast
  with Body r a show ?thesis
    by (auto simp: completes_def intro: alike_trans alike_sym)
qed (use assms in \<open>simp_all add: completes_def\<close>)

lemma outcome_alike:
  assumes "alike w w'"
  shows "value_of c w = value_of c w'" and "alike (outcome c w) (outcome c w')"
  using assms
  by (auto simp: alike_def value_of_def outcome_def emitted_def split: call.splits option.splits)

section \<open>Sequential programs, call by call\<close>

lemma outcomes_snoc [simp]: "outcomes (cs @ [c]) w = outcome c (outcomes cs w)"
  by (simp add: outcomes_def)

lemma values_of_snoc [simp]:
  "values_of (cs @ [c]) w = values_of cs w @ [value_of c (outcomes cs w)]"
  by (induction cs arbitrary: w) (simp_all add: outcomes_def)

lemma returned_simps [simp]:
  "returned [] w = []"
  "returned (cs @ [c]) w = returned cs w @ [(c, Done (value_of c (outcomes cs w)))]"
  by (simp_all add: returned_def)

lemma returned_finished: "t \<in> set (returned cs w) \<Longrightarrow> finished (snd t)"
  by (cases t) (auto simp: returned_def dest!: set_zip_rightD)

section \<open>A block, step by step and at once\<close>

lemma advance_Body_exec:
  assumes "advance c (Body vars rest) w = (k', w')"
  shows "case k' of
           Body vars' rest' \<Rightarrow>
             exec (map run_stmt rest) (vars, w) = exec (map run_stmt rest') (vars', w')
         | Done v \<Rightarrow>
             (\<exists>vars'. exec (map run_stmt rest) (vars, w) = Inr (vars', w')
                \<and> result_of c vars' = Inr v)
         | Failed e \<Rightarrow>
             exec (map run_stmt rest) (vars, w) = Inl e
             \<or> (\<exists>vars'. exec (map run_stmt rest) (vars, w) = Inr (vars', w')
                   \<and> result_of c vars' = Inl e)
         | _ \<Rightarrow> False"
  using assms
proof (induction rest arbitrary: vars w)
  case Nil
  then show ?case
    by (auto simp: advance_Body_Nil split: sum.splits)
next
  case (Cons s rest)
  show ?case
  proof (cases "run_stmt s (vars, w)")
    case (Inl e)
    with Cons.prems show ?thesis
      by (auto simp: advance_Body_Cons)
  next
    case (Inr r)
    obtain vars1 w1 where r: "r = (vars1, w1)"
      by (cases r)
    show ?thesis
    proof (cases "blocking s")
      case True
      with Cons.prems Inr r show ?thesis
        by (auto simp: advance_Body_Cons)
    next
      case False
      with Cons.prems Inr r have "advance c (Body vars1 rest) w1 = (k', w')"
        by (simp add: advance_Body_Cons)
      from Cons.IH [OF this] Inr r show ?thesis
        by (cases k') simp_all
    qed
  qed
qed

lemma orderly_Body:
  assumes "orderly step" and "step c (Body vars rest) w = (k', w')"
  shows "case k' of
           Body vars' rest' \<Rightarrow>
             exec (map run_stmt rest) (vars, w) = exec (map run_stmt rest') (vars', w')
         | Done v \<Rightarrow>
             (\<exists>vars'. exec (map run_stmt rest) (vars, w) = Inr (vars', w')
                \<and> result_of c vars' = Inr v)
         | Failed e \<Rightarrow>
             exec (map run_stmt rest) (vars, w) = Inl e
             \<or> (\<exists>vars'. exec (map run_stmt rest) (vars, w) = Inr (vars', w')
                   \<and> result_of c vars' = Inl e)
         | _ \<Rightarrow> False"
  using assms(1) [unfolded orderly_def, THEN conjunct1, rule_format,
      where c = c and vars = vars and rest = rest and w = w] assms(2)
  by simp

lemma orderly_Poll:
  assumes "orderly step" and "c \<noteq> Start" and "step c (Poll timeout) w = (k', w')"
  shows "(waiting (c, k') \<and> alike w' w)
         \<or> (readyToSend w \<and> accepted c
             \<and> (\<exists>vars' rest'. k' = Body vars' rest'
                   \<and> exec (map run_stmt (code_of c)) (locals_of c, w)
                       = exec (map run_stmt rest') (vars', w')))"
  using assms(1) [unfolded orderly_def, THEN conjunct2, rule_format,
      where c = c and timeout = timeout and w = w, OF assms(2)] assms(3)
  by simp

lemma advance_Poll_cases:
  assumes "c \<noteq> Start" and "advance c (Poll timeout) w = (k', w')"
  shows "(waiting (c, k') \<and> alike w' w)
         \<or> (readyToSend w \<and> accepted c \<and> in_body k'
             \<and> advance c (Body (locals_of c) (code_of c)) w = (k', w'))"
proof (cases "accepted c \<and> readyToSend w")
  case True
  with advance_enter [OF assms(1), of w] assms(2) show ?thesis
    by (auto simp: advance_Poll)
next
  case False
  with assms(2) show ?thesis
    by (auto simp: advance_Poll split: if_splits)
qed

lemma orderly_advance: "orderly advance"
  unfolding orderly_def
proof (intro conjI allI impI)
  fix c vars rest w
  obtain k' w' where a: "advance c (Body vars rest) w = (k', w')"
    by (cases "advance c (Body vars rest) w")
  from advance_Body_exec [OF a] a
  show "case advance c (Body vars rest) w of (k', w') \<Rightarrow>
      (case k' of
         Body vars' rest' \<Rightarrow>
           exec (map run_stmt rest) (vars, w) = exec (map run_stmt rest') (vars', w')
       | Done v \<Rightarrow>
           (\<exists>vars'. exec (map run_stmt rest) (vars, w) = Inr (vars', w')
              \<and> result_of c vars' = Inr v)
       | Failed e \<Rightarrow>
           exec (map run_stmt rest) (vars, w) = Inl e
           \<or> (\<exists>vars'. exec (map run_stmt rest) (vars, w) = Inr (vars', w')
                 \<and> result_of c vars' = Inl e)
       | _ \<Rightarrow> False)"
    by simp
next
  fix c timeout w
  assume c: "c \<noteq> Start"
  obtain k' w' where a: "advance c (Poll timeout) w = (k', w')"
    by (cases "advance c (Poll timeout) w")
  from advance_Poll_cases [OF c a]
  have "(waiting (c, k') \<and> alike w' w)
      \<or> (readyToSend w \<and> accepted c
          \<and> (\<exists>vars' rest'. k' = Body vars' rest'
                \<and> exec (map run_stmt (code_of c)) (locals_of c, w)
                    = exec (map run_stmt rest') (vars', w')))"
  proof (elim disjE conjE)
    assume "in_body k'" and e: "advance c (Body (locals_of c) (code_of c)) w = (k', w')"
      and "readyToSend w" and "accepted c"
    with advance_Body_exec [OF e] show ?thesis
      by (cases k') simp_all
  qed simp
  with a show "case advance c (Poll timeout) w of (k', w') \<Rightarrow>
      (waiting (c, k') \<and> alike w' w)
      \<or> (readyToSend w \<and> accepted c
          \<and> (\<exists>vars' rest'. k' = Body vars' rest'
                \<and> exec (map run_stmt (code_of c)) (locals_of c, w)
                    = exec (map run_stmt rest') (vars', w')))"
    by simp
qed

lemma completes_step:
  assumes "orderly step" and "completes c (Body vars rest) w v w1"
    and "step c (Body vars rest) w = (k', w')"
  shows "if in_body k' then completes c k' w' v w1 else k' = Done v \<and> alike w' w1"
  using orderly_Body [OF assms(1,3)] assms(2)
  by (cases k') (auto simp: completes_def split: sum.splits)

lemma completes_enter:
  assumes "alike w w1" and "goes_through c (readyToSend w)"
    and "exec (map run_stmt (code_of c)) (locals_of c, w) = exec (map run_stmt rest') (vars', w')"
  shows "completes c (Body vars' rest') w' (value_of c w1) (outcome c w1)"
proof -
  from run_code [OF assms(2)] obtain vars
    where "exec (map run_stmt (code_of c)) (locals_of c, w) = Inr (vars, outcome c w)"
      and "result_of c vars = Inr (value_of c w)"
    by blast
  then show ?thesis
    using outcome_alike [OF assms(1), of c] assms(3) by (simp add: completes_def)
qed

section \<open>The invariant\<close>

lemma lin_idle:
  assumes "holders ts = []"
  shows "lin w0 (ts, w) cs \<longleftrightarrow>
     (\<exists>others. list_all waiting others \<and> mset ts = mset (returned cs w0 @ others)
        \<and> alike w (outcomes cs w0))"
  using assms by (simp add: lin_def)

lemma lin_busy:
  assumes "holders ts = [(c, k)]"
  shows "lin w0 (ts, w) cs \<longleftrightarrow>
     (\<exists>others cs'. list_all waiting others \<and> cs = cs' @ [c]
        \<and> mset ts = mset ((c, k) # returned cs' w0 @ others)
        \<and> completes c k w (value_of c (outcomes cs' w0)) (outcome c (outcomes cs' w0)))"
proof -
  have "cs \<noteq> [] \<and> c = last cs \<longleftrightarrow> (\<exists>cs'. cs = cs' @ [c])"
    by (metis append_butlast_last_id snoc_eq_iff_butlast)
  moreover have "butlast (cs' @ [c]) = cs'" "last (values_of (cs' @ [c]) w0) = value_of c (outcomes cs' w0)"
    for cs'
    by simp_all
  ultimately show ?thesis
    using assms by (auto simp: lin_def)
qed

lemma take_out:
  assumes "mset (L @ t # R) = mset (Z @ others)" and "t \<notin> set Z"
  obtains O1 O2 where "others = O1 @ t # O2" and "mset (L @ R) = mset (Z @ O1 @ O2)"
proof -
  from assms(1) have "t \<in># mset (Z @ others)"
    by (metis in_multiset_in_set in_set_conv_decomp)
  with assms(2) have "t \<in> set others"
    by simp
  then obtain O1 O2 where o: "others = O1 @ t # O2"
    by (auto dest: split_list)
  with assms(1) have "mset (L @ R) = mset (Z @ O1 @ O2)"
    by simp
  with o show ?thesis
    by (rule that)
qed

lemma lin_init: "lin w0 ([], w0) []"
  by (simp add: lin_def outcomes_def)

lemma lin_holders:
  assumes "lin w0 (ts, w) cs"
  obtains "holders ts = []" | c k where "holders ts = [(c, k)]"
proof (cases "holders ts")
  case Nil
  then show ?thesis by (rule that(1))
next
  case (Cons h hs)
  with assms have "hs = []"
    by (cases hs) (simp_all add: lin_def split: prod.splits)
  with Cons show ?thesis
    by (cases h) (simp add: that(2))
qed

lemma lin_spawn:
  assumes "lin w0 (ts, w) cs" and "c \<noteq> Start"
  shows "lin w0 (ts @ [(c, entry c)], w) cs"
  using assms(1)
proof (cases rule: lin_holders)
  case 1
  with assms obtain others where "list_all waiting others"
    and "mset ts = mset (returned cs w0 @ others)" and "alike w (outcomes cs w0)"
    by (auto simp: lin_idle)
  with 1 assms(2) show ?thesis
    by (auto simp: lin_idle entry_def intro!: exI [of _ "others @ [(c, Poll 0)]"])
next
  case (2 h k)
  with assms obtain others cs' where "list_all waiting others" and "cs = cs' @ [h]"
    and "mset ts = mset ((h, k) # returned cs' w0 @ others)"
    and "completes h k w (value_of h (outcomes cs' w0)) (outcome h (outcomes cs' w0))"
    by (auto simp: lin_busy)
  with 2 assms(2) show ?thesis
    by (auto simp: lin_busy entry_def intro!: exI [of _ "others @ [(c, Poll 0)]"])
qed

lemma holders_waiting [simp]: "waiting t \<Longrightarrow> \<not> in_body (snd t)"
  by (cases t rule: waiting.cases) simp_all

lemma poller_not_returned: "(c, Poll timeout) \<notin> set (returned cs w0)"
  by (auto dest: returned_finished)

lemma lin_holder:
  assumes ord: "orderly step"
    and inv: "coop_inv base (L @ (c, Body vars rest) # R, w)"
    and lin: "lin w0 (L @ (c, Body vars rest) # R, w) cs"
    and adv: "step c (Body vars rest) w = (k', w')"
  shows "lin w0 (L @ (c, k') # R, w') cs"
proof -
  from inv have "length (holders (L @ (c, Body vars rest) # R)) \<le> 1"
    by (simp add: coop_inv_def)
  note sole = sole_holder [OF this, simplified]
  then have h: "holders (L @ (c, Body vars rest) # R) = [(c, Body vars rest)]"
    by simp
  from lin obtain others cs' where o: "list_all waiting others" and cs: "cs = cs' @ [c]"
    and m: "mset (L @ R) = mset (returned cs' w0 @ others)"
    and "completes c (Body vars rest) w (value_of c (outcomes cs' w0)) (outcome c (outcomes cs' w0))"
    unfolding lin_busy [OF h] by auto
  from completes_step [OF ord this(4) adv]
  have k': "if in_body k'
     then completes c k' w' (value_of c (outcomes cs' w0)) (outcome c (outcomes cs' w0))
     else k' = Done (value_of c (outcomes cs' w0)) \<and> alike w' (outcome c (outcomes cs' w0))" .
  show ?thesis
  proof (cases "in_body k'")
    case True
    with sole have "holders (L @ (c, k') # R) = [(c, k')]"
      by simp
    with True k' o cs m show ?thesis
      by (auto simp: lin_busy)
  next
    case False
    with sole have "holders (L @ (c, k') # R) = []"
      by simp
    with False k' o cs m show ?thesis
      by (auto simp: lin_idle)
  qed
qed

lemma replace_waiting:
  assumes "mset (L @ t # R) = mset (Z @ others)" and "t \<notin> set Z"
    and "list_all waiting others" and "waiting t'"
  obtains others' where "mset (L @ t' # R) = mset (Z @ others')" and "list_all waiting others'"
proof -
  from take_out [OF assms(1,2)] obtain O1 O2
    where "others = O1 @ t # O2" and "mset (L @ R) = mset (Z @ O1 @ O2)"
    by blast
  with assms(3,4) have "mset (L @ t' # R) = mset (Z @ O1 @ t' # O2)"
    and "list_all waiting (O1 @ t' # O2)"
    by auto
  then show ?thesis
    by (rule that)
qed

lemma lin_wait:
  assumes lin: "lin w0 (L @ (c, Poll timeout) # R, w) cs"
    and stay: "waiting (c, k')" "alike w' w"
  shows "lin w0 (L @ (c, k') # R, w') cs"
proof -
  let ?t = "(c, Poll timeout)"
  have hs: "holders (L @ (c, k') # R) = holders (L @ ?t # R)"
    using holders_waiting [OF stay(1)] by simp
  from lin show ?thesis
  proof (cases rule: lin_holders)
    case 1
    with lin obtain others where o: "list_all waiting others"
      and m: "mset (L @ ?t # R) = mset (returned cs w0 @ others)"
      and a: "alike w (outcomes cs w0)"
      by (auto simp: lin_idle)
    from replace_waiting [OF m poller_not_returned o stay(1)] stay(2) a show ?thesis
      unfolding lin_idle [OF hs [unfolded 1]] by (blast intro: alike_trans)
  next
    case (2 h k)
    with lin obtain others cs' where o: "list_all waiting others" and cs: "cs = cs' @ [h]"
      and m: "mset (L @ ?t # R) = mset (((h, k) # returned cs' w0) @ others)"
      and d: "completes h k w (value_of h (outcomes cs' w0)) (outcome h (outcomes cs' w0))"
      by (auto simp: lin_busy)
    from 2 have "(h, k) \<in> set (holders (L @ ?t # R))"
      by simp
    then have "in_body k"
      by (auto simp: holders_def)
    then have "?t \<notin> set ((h, k) # returned cs' w0)"
      using poller_not_returned [of c timeout cs' w0] by auto
    from replace_waiting [OF m this o stay(1)] obtain others'
      where "mset (L @ (c, k') # R) = mset ((h, k) # returned cs' w0 @ others')"
        and "list_all waiting others'"
      by auto
    moreover from d stay(2)
    have "completes h k w' (value_of h (outcomes cs' w0)) (outcome h (outcomes cs' w0))"
      by (auto intro: completes_alike alike_sym)
    ultimately show ?thesis
      unfolding lin_busy [OF hs [unfolded 2]] using cs by blast
  qed
qed

lemma lin_enter:
  assumes none: "holders (L @ (c, Poll timeout) # R) = []"
    and lin: "lin w0 (L @ (c, Poll timeout) # R, w) cs"
    and enter: "readyToSend w" "accepted c"
      "exec (map run_stmt (code_of c)) (locals_of c, w) = exec (map run_stmt rest) (vars, w')"
  shows "lin w0 (L @ (c, Body vars rest) # R, w') (cs @ [c])"
proof -
  let ?t = "(c, Poll timeout)"
  from lin obtain others where o: "list_all waiting others"
    and m: "mset (L @ ?t # R) = mset (returned cs w0 @ others)"
    and a: "alike w (outcomes cs w0)"
    unfolding lin_idle [OF none] by blast
  from take_out [OF m poller_not_returned] obtain O1 O2
    where o12: "others = O1 @ ?t # O2" and m': "mset (L @ R) = mset (returned cs w0 @ O1 @ O2)"
    by blast
  from enter have "goes_through c (readyToSend w)"
    by (simp add: goes_through_def)
  from completes_enter [OF a this] enter(3)
  have "completes c (Body vars rest) w' (value_of c (outcomes cs w0)) (outcome c (outcomes cs w0))"
    by simp
  moreover from none have h: "holders (L @ (c, Body vars rest) # R) = [(c, Body vars rest)]"
    by simp
  moreover from o o12 have "list_all waiting (O1 @ O2)"
    by simp
  ultimately show ?thesis
    unfolding lin_busy [OF h] using m'
    by (intro exI [of _ "O1 @ O2"] exI [of _ cs]) simp
qed

lemma lin_poller:
  assumes ord: "orderly step"
    and inv: "coop_inv base (L @ (c, Poll timeout) # R, w)"
    and lin: "lin w0 (L @ (c, Poll timeout) # R, w) cs"
    and adv: "step c (Poll timeout) w = (k', w')"
  shows "\<exists>cs'. lin w0 (L @ (c, k') # R, w') cs'"
proof -
  from inv have c: "c \<noteq> Start"
    by (simp add: coop_inv_def)
  from orderly_Poll [OF ord c adv] show ?thesis
  proof (elim disjE conjE exE)
    assume "waiting (c, k')" and "alike w' w"
    with lin have "lin w0 (L @ (c, k') # R, w') cs"
      by (rule lin_wait)
    then show ?thesis ..
  next
    fix vars rest
    assume enter: "readyToSend w" "accepted c"
      "exec (map run_stmt (code_of c)) (locals_of c, w) = exec (map run_stmt rest) (vars, w')"
      and k': "k' = Body vars rest"
    from inv enter(1) have none: "holders (L @ (c, Poll timeout) # R) = []"
      by (auto simp: coop_inv_def)
    from lin_enter [OF none lin enter] k' show ?thesis
      by blast
  qed
qed

lemma lin_step:
  assumes ord: "orderly step" and "coop_inv base s" and "lin w0 s cs" and "sys_step step s s'"
  shows "\<exists>cs'. lin w0 s' cs'"
  using assms(4,2,3)
proof cases
  case (spawn c ts w)
  with assms(3) show ?thesis
    by (auto intro: lin_spawn)
next
  case (sched i ts c k w k' w')
  from pool_at [OF sched(3,4)] obtain L R
    where ts: "ts = L @ (c, k) # R" and upd: "ts[i := (c, k')] = L @ (c, k') # R"
    by metis
  from assms(2) sched(1) ts have "parked (c, k)"
    by (simp add: coop_inv_def)
  with sched(5) consider timeout where "k = Poll timeout" | vars rest where "k = Body vars rest"
    by (cases k) simp_all
  then show ?thesis
  proof cases
    case 1
    with assms(2,3) sched ts upd show ?thesis
      by (auto intro: lin_poller [OF ord])
  next
    case 2
    with assms(2,3) sched ts upd show ?thesis
      by (auto intro: lin_holder [OF ord])
  qed
qed

lemma lin_reach:
  assumes "gated step" and "orderly step" and "reach step ([], w0) s" and "framed (trace w0)"
  shows "\<exists>cs. lin w0 s cs"
  using assms(3,4)
proof (induction rule: reach.induct)
  case init
  show ?case
    by (auto intro: lin_init)
next
  case (step s s')
  from step.IH [OF step.prems] obtain cs where "lin w0 s cs" ..
  moreover from assms(1) step.hyps(1) step.prems have "coop_inv (frames (trace w0)) s"
    by (rule gated_reachable)
  ultimately show ?case
    using step.hyps(2) by (blast intro: lin_step [OF assms(2)])
qed

lemma alike_frames: "alike w w' \<Longrightarrow> frames (trace w) = frames (trace w')"
  by (metis alike_def frames_def frames_from_unpolled)

lemma serialised:
  assumes "gated step" and "orderly step"
    and "reach step ([], w0) s" and "framed (trace w0)" and "holders (fst s) = []"
  obtains cs others where "mset (fst s) = mset (returned cs w0 @ others)"
    and "list_all waiting others" and "alike (snd s) (outcomes cs w0)"
proof -
  from lin_reach [OF assms(1-4)] obtain cs where "lin w0 (fst s, snd s) cs"
    by auto
  then obtain others where "list_all waiting others"
    and "mset (fst s) = mset (returned cs w0 @ others)" and "alike (snd s) (outcomes cs w0)"
    unfolding lin_idle [OF assms(5)] by blast
  then show ?thesis
    by (intro that [of cs others])
qed

lemmas serialised_reachable = serialised [OF gated_advance orderly_advance]

section \<open>Sequential programs are cooperative runs\<close>

lemma solo_reach:
  assumes "reach advance s0 (L @ (c, k) # R, w)"
  shows "reach advance s0 (L @ (c, fst (solo n c k w)) # R, snd (solo n c k w))"
  using assms
proof (induction n arbitrary: k w)
  case 0
  then show ?case by simp
next
  case (Suc n)
  obtain k' w' where adv: "advance c k w = (k', w')"
    by (cases "advance c k w")
  have "reach advance s0 (L @ (c, k') # R, w')"
  proof (cases "finished k")
    case True
    with adv Suc.prems show ?thesis
      by (cases k) auto
  next
    case False
    have "sys_step advance (L @ (c, k) # R, w) ((L @ (c, k) # R)[length L := (c, k')], w')"
      using False adv by (intro sys_step.sched) simp_all
    with Suc.prems show ?thesis
      by (auto intro: reach.step)
  qed
  from Suc.IH [OF this] adv show ?case
    by simp
qed

lemma program_reach:
  assumes "Start \<notin> set cs"
  shows "reach advance ([], w0) (returned cs w0, outcomes cs w0)"
  using assms
proof (induction cs rule: rev_induct)
  case Nil
  show ?case
    by (simp add: outcomes_def reach.init)
next
  case (snoc c cs)
  then have "reach advance ([], w0) (returned cs w0, outcomes cs w0)" and c: "c \<noteq> Start"
    by auto
  then have "reach advance ([], w0) (returned cs w0 @ [(c, entry c)], outcomes cs w0)"
    by (blast intro: reach.step sys_step.spawn)
  from solo_reach [OF this, of 26] show ?case
    using solo_entry [of 0 c "outcomes cs w0"] by simp
qed

section \<open>Properties of cooperative runs and sequential programs\<close>

text \<open>
  Claim C14 (refinement). Every sequential program is a cooperative run. For every list
  of calls without the bring-up and every initial world, the scheduler can make the
  calls one at a time and run each to its end: it reaches the pool in which every call
  has returned the value the sequential program gives it, in the world the sequential
  program ends in.
\<close>

theorem sequential_programs_are_cooperative_runs:
  assumes "Start \<notin> set cs" and "run_calls cs w0 = Some (Inr (vs, w'))"
  shows "reach advance ([], w0) (zip cs (map Done vs), w')"
  using program_reach [OF assms(1), of w0] assms(2) by (simp add: run_calls_eq returned_def)

theorem sequential_programs_are_cooperative_runs_witness:
  "reach advance ([], ready_world)
     (zip [SetLED 2 50, GetBattery] (map Done [None, Some 4831]),
      outcomes [SetLED 2 50, GetBattery] ready_world)"
  using sequential_programs_are_cooperative_runs
    [of "[SetLED 2 50, GetBattery]" ready_world "[None, Some 4831]"
        "outcomes [SetLED 2 50, GetBattery] ready_world"]
  by (simp add: run_calls_eq value_of_def outcome_def goes_through_def echo_device_replies
      battery_bytes_def hb_scale rhe_div_def)

end
