(* ===== verification/HB_Progress.thy ===== *)
theory HB_Progress
  imports HB_Concurrent
begin

text \<open>
  No call of \<^verbatim>\<open>src/hummingbird.py\<close> waits forever under cooperative scheduling.

  \<^item> \<open>togo\<close> bounds the atomic steps a call has left before it returns: one for each
    blocking call left in its block and one for the rest of the block; while it is in
    the bounded poll, the polls left and nine more (no block makes more than eight
    blocking calls).
  \<^item> \<open>turns i acts\<close> counts how often the schedule \<open>acts\<close> chooses thread \<open>i\<close>.

  The lemmas show that every atomic step of a call lowers its \<open>togo\<close>, whatever the
  world is like, and that the steps of other calls leave it alone; the theorem
  concludes that a call has returned once it has been chosen 34 times. A sensor read
  that polls 25 times before the token is freed needs all 34. The unbounded spin loop
  has no part in this: it is never entered (\<open>HB_Concurrent\<close>).
\<close>

section \<open>Steps a call has left\<close>

fun togo :: "thread \<Rightarrow> nat" where
  "togo (c, Poll timeout) = 9 + nat (25 - timeout)"
| "togo (c, Body vars rest) = 1 + length (filter blocking rest)"
| "togo (c, k) = 0"

fun chosen :: "action \<Rightarrow> nat \<Rightarrow> bool" where
  "chosen (Run j) i = (j = i)"
| "chosen (Spawn c) i = False"

definition turns :: "nat \<Rightarrow> action list \<Rightarrow> nat" where
  "turns i acts = length (filter (\<lambda>a. chosen a i) acts)"

definition latecomer :: "nat \<Rightarrow> action list" where
  "latecomer n = [Spawn (SetTriLED 1 100 0 0), Run 0, Spawn (GetSensor 1 1)]
     @ replicate 25 (Run 1) @ replicate 6 (Run 0) @ replicate n (Run 1)"

section \<open>One step\<close>

lemma blocking_code_of_le: "length (filter blocking (code_of c)) \<le> 8"
  by (cases c) (simp_all add: code_of.simps command_code_def)

lemma advance_Body_togo:
  assumes "advance c (Body vars rest) w = (k', w')"
  shows "togo (c, k') < togo (c, Body vars rest)"
  using assms
proof (induction rest arbitrary: vars w)
  case Nil
  then show ?case
    by (auto simp: advance_Body_Nil split: sum.splits)
next
  case (Cons s rest)
  show ?case
  proof (cases "run_stmt s (vars, w)")
    case (Inl e)
    with Cons.prems show ?thesis
      by (auto simp: advance_Body_Cons)
  next
    case (Inr r)
    obtain vars1 w1 where r: "r = (vars1, w1)"
      by (cases r)
    show ?thesis
    proof (cases "blocking s")
      case True
      with Cons.prems Inr r show ?thesis
        by (auto simp: advance_Body_Cons)
    next
      case False
      with Cons.prems Inr r have "advance c (Body vars1 rest) w1 = (k', w')"
        by (simp add: advance_Body_Cons)
      from Cons.IH [OF this] False show ?thesis
        by simp
    qed
  qed
qed

lemma advance_togo:
  assumes "parked (c, k)" and "\<not> finished k" and "advance c k w = (k', w')"
  shows "togo (c, k') < togo (c, k)"
proof (cases k)
  case (Poll timeout)
  show ?thesis
  proof (cases "\<not> readyToSend w \<and> timeout < 25")
    case True
    with Poll assms(3) show ?thesis
      by (auto simp: advance_Poll)
  next
    case False
    show ?thesis
    proof (cases "accepted c \<and> readyToSend w")
      case True
      with False Poll assms(3) have "advance c (Body (locals_of c) (code_of c)) w = (k', w')"
        by (simp add: advance_Poll)
      from advance_Body_togo [OF this] blocking_code_of_le [of c] Poll show ?thesis
        by simp
    next
      case False
      with \<open>\<not> (\<not> readyToSend w \<and> timeout < 25)\<close> Poll assms(3) show ?thesis
        by (auto simp: advance_Poll)
    qed
  qed
next
  case (Body vars rest)
  with assms(3) advance_Body_togo show ?thesis
    by simp
qed (use assms in simp_all)

lemma togo_entry: "c \<noteq> Start \<Longrightarrow> togo (c, entry c) = 34"
  by (simp add: entry_def)

lemma togo_0: "parked t \<Longrightarrow> togo t = 0 \<longleftrightarrow> finished (snd t)"
  by (cases t rule: parked.cases) simp_all

section \<open>A whole schedule\<close>

lemma schedule_simps [simp]:
  "schedule step [] s = s"
  "schedule step (a # acts) s = schedule step acts (perform step s a)"
  "schedule step (xs @ ys) s = schedule step ys (schedule step xs s)"
  by (simp_all add: schedule_def)

lemma turns_simps [simp]:
  "turns i [] = 0"
  "turns i (a # acts) = (if chosen a i then Suc (turns i acts) else turns i acts)"
  by (simp_all add: turns_def)

lemma coop_inv_perform:
  assumes "coop_inv base s" and "a \<noteq> Spawn Start"
  shows "coop_inv base (perform advance s a)"
  using perform_step [OF assms(2), of advance s] assms(1) by (auto intro: coop_inv_step)

lemma perform_togo:
  assumes "coop_inv base s" and "i < length (fst s)"
  shows "i < length (fst (perform advance s a))"
    and "togo (fst (perform advance s a) ! i) \<le> togo (fst s ! i) - (if chosen a i then 1 else 0)"
proof -
  obtain ts w where s: "s = (ts, w)"
    by (cases s)
  from assms s have i: "i < length ts" and p: "parked (ts ! i)"
    by (simp_all add: coop_inv_def list_all_length)
  show "i < length (fst (perform advance s a))"
    using i by (cases a) (simp_all add: s split: prod.splits)
  show "togo (fst (perform advance s a) ! i) \<le> togo (fst s ! i) - (if chosen a i then 1 else 0)"
  proof (cases a)
    case (Spawn c)
    with i show ?thesis
      by (simp add: s nth_append)
  next
    case (Run j)
    show ?thesis
    proof (cases "j = i \<and> \<not> finished (snd (ts ! i))")
      case True
      obtain k' w' where adv: "advance (fst (ts ! i)) (snd (ts ! i)) w = (k', w')"
        by (cases "advance (fst (ts ! i)) (snd (ts ! i)) w")
      with True p have "togo (fst (ts ! i), k') < togo (ts ! i)"
        using advance_togo [of "fst (ts ! i)" "snd (ts ! i)" w k' w'] by simp
      with True Run i adv show ?thesis
        by (simp add: s)
    next
      case False
      show ?thesis
      proof (cases "j = i")
        case True
        with False p have "togo (ts ! i) = 0"
          by (simp add: togo_0)
        with True False Run show ?thesis
          by (simp add: s)
      next
        case False
        with Run i show ?thesis
          by (simp add: s split: prod.splits)
      qed
    qed
  qed
qed

lemma schedule_togo:
  assumes "coop_inv base s" and "Spawn Start \<notin> set acts" and "i < length (fst s)"
  shows "i < length (fst (schedule advance acts s))
         \<and> togo (fst (schedule advance acts s) ! i) \<le> togo (fst s ! i) - turns i acts"
  using assms
proof (induction acts arbitrary: s)
  case Nil
  then show ?case by simp
next
  case (Cons a acts)
  then have a: "a \<noteq> Spawn Start" and acts: "Spawn Start \<notin> set acts"
    by auto
  note one = perform_togo [OF Cons.prems(1,3), of a]
  from Cons.IH [OF coop_inv_perform [OF Cons.prems(1) a] acts one(1)] one(2) show ?case
    by auto
qed

lemma turns_replicate [simp]: "turns i (replicate n (Run i)) = n"
  by (induction n) simp_all

lemma pool_size_spawn [simp]: "fst (perform step s (Spawn c)) = fst s @ [(c, entry c)]"
  by (cases s) simp

lemma latecomer_needs_34:
  "\<not> finished (snd (fst (schedule advance (latecomer 8) ([], ready_world)) ! 1))"
  "finished (snd (fst (schedule advance (latecomer 9) ([], ready_world)) ! 1))"
  "turns 1 (latecomer 8) = 33"
  by (simp_all add: latecomer_def eval_nat_numeral del: schedule_simps(3))
     (simp_all add: run_simps py_index_def)

section \<open>Properties of waiting\<close>

text \<open>
  Claim C8 (liveness). No call waits forever. Under cooperative scheduling, from any
  framed world and whatever calls the others make and however they are scheduled, a
  call has returned by the time the scheduler has chosen it 34 times: 25 polls, the
  step that enters the block or gives up, and at most eight more steps inside the
  block. The bound is attained (\<open>latecomer_needs_34\<close>): a sensor read that finds the
  token taken and is served after its 25th poll returns at its 34th step and not
  before.
\<close>

theorem no_call_waits_forever:
  assumes "framed (trace w0)" and "Spawn Start \<notin> set (pre @ Spawn c # post)"
    and "34 \<le> turns (length (fst (schedule advance pre ([], w0)))) post"
  shows "finished (snd (fst (schedule advance (pre @ Spawn c # post) ([], w0))
           ! length (fst (schedule advance pre ([], w0)))))"
proof -
  define s1 where "s1 = schedule advance (pre @ [Spawn c]) ([], w0)"
  define i where "i = length (fst (schedule advance pre ([], w0)))"
  from assms(2) have ok: "Spawn Start \<notin> set (pre @ [Spawn c])" "Spawn Start \<notin> set post"
    and c: "c \<noteq> Start"
    by auto
  have inv: "coop_inv (frames (trace w0)) s1"
    unfolding s1_def using schedule_reach [OF ok(1)] assms(1) by (rule coop_inv_reachable)
  have at: "i < length (fst s1)" "fst s1 ! i = (c, entry c)"
    by (simp_all add: s1_def i_def nth_append)
  from schedule_togo [OF inv ok(2) at(1)] at(2) assms(3) c
  have "i < length (fst (schedule advance post s1))"
    and "togo (fst (schedule advance post s1) ! i) = 0"
    by (simp_all add: togo_entry i_def)
  moreover have "coop_inv (frames (trace w0)) (schedule advance post s1)"
    unfolding s1_def schedule_simps(3) [symmetric]
    using schedule_reach assms(1) by (rule coop_inv_reachable) (use assms(2) in simp)
  then have "list_all parked (fst (schedule advance post s1))"
    by (simp add: coop_inv_def)
  ultimately have "finished (snd (fst (schedule advance post s1) ! i))"
    by (simp add: list_all_length togo_0)
  then show ?thesis
    by (simp add: s1_def i_def)
qed

theorem no_call_waits_forever_witness:
  "finished (snd (fst (schedule advance
     ([Spawn (SetTriLED 1 100 0 0), Run 0] @ Spawn GetBattery # replicate 34 (Run 1))
     ([], ready_world)) ! 1))"
proof -
  have "length (fst (schedule advance [Spawn (SetTriLED 1 100 0 0), Run 0] ([], ready_world))) = 1"
    by (simp split: prod.splits)
  with no_call_waits_forever [of ready_world "[Spawn (SetTriLED 1 100 0 0), Run 0]" GetBattery
      "replicate 34 (Run 1)"]
  show ?thesis
    by (simp add: framed_def)
qed

end
