(* ===== verification/HB_Window.thy ===== *)
theory HB_Window
  imports HB_Serial
begin

text \<open>
  Where a call of \<^verbatim>\<open>src/hummingbird.py\<close> may be interrupted.

  \<open>HB_Concurrent\<close> has two schedulers: the cooperative one, which switches threads at
  the blocking calls only and keeps the gate, and the preemptive one, which switches
  after any statement and breaks it. This theory places the boundary between them.

  \<^item> \<open>micros n\<close> runs \<open>n\<close> statements of a call without interruption.
  \<^item> \<open>fine\<close> is the step of a scheduler that may interrupt a call after every statement
    but two: once the bounded poll has seen the token free, or has run out, the call
    is not interrupted before it has passed the check and the spin condition and has
    assigned \<^verbatim>\<open>readyToSend = False\<close> (four steps of \<open>micro\<close>); and it is not interrupted
    between \<^verbatim>\<open>readyToSend = True\<close> and its \<^verbatim>\<open>return\<close>, which reads local buffers only.
  \<^item> \<open>sliced\<close> is a schedule that switches between two callers after every statement
    of the transaction of the first, and then serves the second.

  The lemmas show that \<open>fine\<close> is \<open>gated\<close> and \<open>orderly\<close>, the interfaces from which
  \<open>HB_Concurrent\<close> and \<open>HB_Serial\<close> derive their invariants, that its runs are runs of
  the preemptive system, and that the runs of the cooperative system are among its
  runs (\<open>coop_reach_fine\<close>). The theorem concludes that the gate, the strobe protocol,
  the order of the frames and the values returned survive every interruption outside
  the window between the last look at the token and the assignment; the schedule
  \<open>race\<close> of \<open>HB_Concurrent\<close> interrupts inside it.
\<close>

section \<open>A scheduler that spares the window\<close>

fun micros :: "nat \<Rightarrow> stepper" where
  "micros 0 c k w = (k, w)"
| "micros (Suc n) c k w = (case micro c k w of (k', w') \<Rightarrow> micros n c k' w')"

fun fine :: stepper where
  "fine c (Poll timeout) w =
     (if yields (Poll timeout) w then micro c (Poll timeout) w
      else micros 4 c (Poll timeout) w)"
| "fine c (Body vars [s]) w = micros 2 c (Body vars [s]) w"
| "fine c k w = micro c k w"

definition sliced :: "action list" where
  "sliced =
     [Spawn (SetTriLED 1 100 0 0), Spawn GetBattery, Run 0]
       @ concat (replicate 13 [Run 1, Run 0]) @ replicate 14 (Run 1)"

section \<open>The step is gated\<close>

lemma fine_Body:
  assumes "parked (c, Body vars rest)"
  shows "case fine c (Body vars rest) w of (k', w') \<Rightarrow>
      parked (c, k') \<and> (in_body k' \<or> finished k')
      \<and> map blind (trace w') @ plan_of k' = map blind (trace w) @ plan rest
      \<and> readyToSend w' = (if in_body k' then readyToSend w else True)"
proof (cases rest)
  case Nil
  with assms show ?thesis by simp
next
  case (Cons s tail)
  from assms [unfolded Cons] obtain vars1 w1 where run: "run_stmt s (vars, w) = Inr (vars1, w1)"
    and shape: "map length vars1 = map length (locals_of c)"
    and trace: "map blind (trace w1) = map blind (trace w) @ sig s"
    and nxt: "if tail = [] then s = S_ready True \<and> readyToSend w1
         else parked (c, Body vars1 tail) \<and> readyToSend w1 = readyToSend w"
    by (rule parked_step)
  show ?thesis
  proof (cases tail)
    case Nil
    from assms have "accepted c" by simp
    from result_of_parked [OF this shape] obtain v where "result_of c vars1 = Inr v"
      by blast
    with Nil Cons run trace nxt show ?thesis
      by (simp add: eval_nat_numeral)
  next
    case tail: (Cons s' tail')
    with Cons run trace nxt show ?thesis
      by simp
  qed
qed

lemma fine_Poll:
  assumes "c \<noteq> Start"
  shows "case fine c (Poll timeout) w of (k', w') \<Rightarrow>
      parked (c, k')
      \<and> (if in_body k'
          then readyToSend w \<and> accepted c \<and> \<not> readyToSend w'
            \<and> map blind (trace w') @ plan_of k' = map blind (trace w) @ plan (code_of c)
          else readyToSend w' = readyToSend w
            \<and> (\<exists>es. trace w' = trace w @ es \<and> list_all quiet es))"
proof (cases "accepted c \<and> readyToSend w")
  case True
  from code_of_parked [OF assms] True obtain s tail
    where "code_of c = S_ready False # s # tail"
      and "parked (c, Body (locals_of c) (s # tail))"
    by blast
  with True show ?thesis
    by (simp add: eval_nat_numeral hb_prims)
next
  case False
  with assms show ?thesis
    by (auto simp: eval_nat_numeral hb_prims after_def)
qed

lemma gated_fine: "gated fine"
  unfolding gated_def by (intro conjI allI impI fine_Body fine_Poll)

section \<open>The step is orderly\<close>

lemma fine_Body_exec:
  "case fine c (Body vars rest) w of (k', w') \<Rightarrow>
     (case k' of
        Body vars' rest' \<Rightarrow>
          exec (map run_stmt rest) (vars, w) = exec (map run_stmt rest') (vars', w')
      | Done v \<Rightarrow>
          (\<exists>vars'. exec (map run_stmt rest) (vars, w) = Inr (vars', w')
             \<and> result_of c vars' = Inr v)
      | Failed e \<Rightarrow>
          exec (map run_stmt rest) (vars, w) = Inl e
          \<or> (\<exists>vars'. exec (map run_stmt rest) (vars, w) = Inr (vars', w')
                \<and> result_of c vars' = Inl e)
      | _ \<Rightarrow> False)"
proof (cases rest)
  case Nil
  then show ?thesis
    by (simp split: sum.splits)
next
  case (Cons s tail)
  then show ?thesis
    by (cases tail) (auto simp: eval_nat_numeral split: sum.splits)
qed

lemma fine_Poll_exec:
  assumes "c \<noteq> Start"
  shows "case fine c (Poll timeout) w of (k', w') \<Rightarrow>
      (waiting (c, k') \<and> alike w' w)
      \<or> (readyToSend w \<and> accepted c
          \<and> (\<exists>vars' rest'. k' = Body vars' rest'
                \<and> exec (map run_stmt (code_of c)) (locals_of c, w)
                    = exec (map run_stmt rest') (vars', w')))"
proof (cases "accepted c \<and> readyToSend w")
  case True
  from code_of_parked [OF assms] True obtain s tail
    where "code_of c = S_ready False # s # tail"
    by blast
  with True show ?thesis
    by (simp add: eval_nat_numeral hb_prims)
next
  case False
  then show ?thesis
    by (auto simp: eval_nat_numeral hb_prims after_def alike_def)
qed

lemma orderly_fine: "orderly fine"
  unfolding orderly_def by (intro conjI allI impI fine_Body_exec fine_Poll_exec)

section \<open>Its runs are preemptive runs\<close>

lemma micros_by_micro:
  "i < length ts \<Longrightarrow> ts ! i = (c, k) \<Longrightarrow> micros n c k w = (k', w') \<Longrightarrow>
   reach micro s0 (ts, w) \<Longrightarrow> reach micro s0 (ts[i := (c, k')], w')"
proof (induction n arbitrary: ts k w)
  case 0
  then show ?case
    by (metis list_update_id micros.simps(1) prod.inject)
next
  case (Suc n)
  obtain k1 w1 where m: "micro c k w = (k1, w1)"
    by (cases "micro c k w")
  have "reach micro s0 (ts[i := (c, k1)], w1)"
  proof (cases "finished k")
    case True
    with m have "k1 = k" and "w1 = w"
      by (cases k; simp)+
    with Suc.prems show ?thesis
      by (metis list_update_id)
  next
    case False
    with Suc.prems m show ?thesis
      by (auto intro: reach.step sys_step.sched)
  qed
  moreover from Suc.prems m have "micros n c k1 w1 = (k', w')"
    by simp
  ultimately have "reach micro s0 (ts[i := (c, k1), i := (c, k')], w')"
    using Suc.prems(1) by (intro Suc.IH) simp_all
  then show ?case
    by simp
qed

lemma micros_1: "micros (Suc 0) c k w = micro c k w"
  by (cases "micro c k w") simp

lemma fine_is_micros: "\<exists>n. fine c k w = micros n c k w"
proof (cases k)
  case (Poll timeout)
  then have "fine c k w = micros (if yields k w then Suc 0 else 4) c k w"
    by (simp add: micros_1 del: micros.simps yields.simps)
  then show ?thesis ..
next
  case (Body vars rest)
  have "fine c (Body vars rest) w = micros (if length rest = 1 then 2 else Suc 0) c (Body vars rest) w"
    by (cases "(c, Body vars rest, w)" rule: fine.cases) (simp_all add: micros_1 del: micros.simps)
  with Body show ?thesis
    by blast
qed (use micros_1 [of c k w] in \<open>auto intro!: exI [of _ "Suc 0"]\<close>)

lemma fine_reach:
  assumes "reach fine s0 s"
  shows "reach micro s0 s"
  using assms
proof (induction rule: reach.induct)
  case init
  show ?case by (rule reach.init)
next
  case (step s s')
  from step.hyps(2) step.IH show ?case
  proof cases
    case (spawn c ts w)
    with step.IH show ?thesis
      by (auto intro: reach.step sys_step.spawn)
  next
    case (sched i ts c k w k' w')
    from fine_is_micros [of c k w] sched(6) obtain n where "micros n c k w = (k', w')"
      by auto
    with sched step.IH show ?thesis
      by (simp add: micros_by_micro)
  qed
qed

section \<open>Cooperative runs are among its runs\<close>

lemma fine_sched:
  assumes "reach fine s0 (ts, w)" and "i < length ts" and "ts ! i = (c, k)" and "\<not> finished k"
    and "fine c k w = (k', w')"
  shows "reach fine s0 (ts[i := (c, k')], w')"
  using assms by (auto intro: reach.step sys_step.sched)

lemma advance_Body_by_fine:
  assumes "parked (c, Body vars rest)" and "advance c (Body vars rest) w = (k', w')"
    and "reach fine s0 (ts, w)" and "i < length ts" and "ts ! i = (c, Body vars rest)"
  shows "reach fine s0 (ts[i := (c, k')], w')"
  using assms
proof (induction rest arbitrary: vars w ts)
  case Nil
  then show ?case by simp
next
  case (Cons s rest)
  from Cons.prems(1) obtain vars1 w1 where run: "run_stmt s (vars, w) = Inr (vars1, w1)"
    and shape: "map length vars1 = map length (locals_of c)"
    and nxt: "if rest = [] then s = S_ready True \<and> readyToSend w1
         else parked (c, Body vars1 rest) \<and> readyToSend w1 = readyToSend w"
    by (rule parked_step)
  show ?case
  proof (cases rest)
    case Nil
    with nxt run Cons.prems(2) have "fine c (Body vars (s # rest)) w = (k', w')"
      by (simp add: advance_Body_Cons advance_Body_Nil eval_nat_numeral)
    from fine_sched [OF Cons.prems(3-5) _ this] show ?thesis
      by simp
  next
    case rest: (Cons s' rest')
    with run have "fine c (Body vars (s # rest)) w = (Body vars1 rest, w1)"
      by simp
    from fine_sched [OF Cons.prems(3-5) _ this]
    have one: "reach fine s0 (ts[i := (c, Body vars1 rest)], w1)"
      by simp
    show ?thesis
    proof (cases "blocking s")
      case True
      with run Cons.prems(2) one show ?thesis
        by (simp add: advance_Body_Cons)
    next
      case False
      with run Cons.prems(2) have "advance c (Body vars1 rest) w1 = (k', w')"
        by (simp add: advance_Body_Cons)
      with nxt rest Cons.prems(4) one
      have "reach fine s0 (ts[i := (c, Body vars1 rest), i := (c, k')], w')"
        by (intro Cons.IH) simp_all
      then show ?thesis
        by simp
    qed
  qed
qed

lemma advance_Poll_by_fine:
  assumes "c \<noteq> Start" and "advance c (Poll timeout) w = (k', w')"
    and "reach fine s0 (ts, w)" and "i < length ts" and "ts ! i = (c, Poll timeout)"
  shows "reach fine s0 (ts[i := (c, k')], w')"
proof (cases "\<not> yields (Poll timeout) w \<and> accepted c \<and> readyToSend w")
  case True
  from code_of_parked [OF assms(1)] True obtain s tail
    where code: "code_of c = S_ready False # s # tail"
      and p: "parked (c, Body (locals_of c) (s # tail))"
    by blast
  define w1 where "w1 = w\<lparr>readyToSend := False\<rparr>"
  from True code have "fine c (Poll timeout) w = (Body (locals_of c) (s # tail), w1)"
    by (simp add: eval_nat_numeral hb_prims w1_def)
  from fine_sched [OF assms(3-5) _ this]
  have r: "reach fine s0 (ts[i := (c, Body (locals_of c) (s # tail))], w1)"
    by simp
  from True code assms(2) have adv: "advance c (Body (locals_of c) (s # tail)) w1 = (k', w')"
    by (simp add: advance_Poll advance_Body_Cons hb_prims w1_def)
  from advance_Body_by_fine [OF p adv r, of i] assms(4) show ?thesis
    by simp
next
  case False
  with assms(2) have "fine c (Poll timeout) w = (k', w')"
    by (auto simp: advance_Poll eval_nat_numeral hb_prims after_def)
  from fine_sched [OF assms(3-5) _ this] show ?thesis
    by simp
qed

lemma coop_reach_fine:
  assumes "reach advance ([], w0) s" and "framed (trace w0)"
  shows "reach fine ([], w0) s"
  using assms(1)
proof (induction rule: reach.induct)
  case init
  show ?case by (rule reach.init)
next
  case (step s s')
  note inv = coop_inv_reachable [OF step.hyps(1) assms(2)]
  from step.hyps(2) show ?case
  proof cases
    case (spawn c ts w)
    with step.IH show ?thesis
      by (auto intro: reach.step sys_step.spawn)
  next
    case (sched i ts c k w k' w')
    from inv sched(1,3,4) have p: "parked (c, k)"
      by (auto simp: coop_inv_def list_all_length)
    from step.IH sched(1) have r: "reach fine ([], w0) (ts, w)"
      by simp
    from p sched(5) consider timeout where "k = Poll timeout" "c \<noteq> Start"
      | vars rest where "k = Body vars rest"
      by (cases k) simp_all
    then show ?thesis
    proof cases
      case 1
      from advance_Poll_by_fine [OF 1(2) sched(6) [unfolded 1(1)] r sched(3) sched(4) [unfolded 1(1)]]
      show ?thesis
        by (simp add: sched(2))
    next
      case 2
      from advance_Body_by_fine [OF p [unfolded 2] sched(6) [unfolded 2] r sched(3) sched(4) [unfolded 2]]
      show ?thesis
        by (simp add: sched(2))
    qed
  qed
qed

lemma micros_numeral:
  "micros (numeral n) c k w = (case micro c k w of (k', w') \<Rightarrow> micros (pred_numeral n) c k' w')"
  by (simp add: numeral_eq_Suc)

lemmas fine_simps = schedule_def fine.simps micros_numeral micros.simps micro.simps yields.simps
  entry_def code_of.simps command_code_def hb_prims hb_consts into_apply after_def
  tri_port_val_def tri_scaled_eq

section \<open>Properties of the window\<close>

text \<open>
  Claim C11 (safety). Only the window races. Let the scheduler interrupt the calls after
  any statement whatever, the bounded poll and the transaction block included, except
  between the last look of a call at the token and its assignment
  \<open>readyToSend = False\<close> (and between \<open>readyToSend = True\<close> and the return). Then from a
  framed trace every run is a run of the preemptive system in which at most one call
  is inside its block and the token is taken while it is, no call has raised or is
  left in the spin loop, the strobe protocol is not violated and the frames on the bus
  are whole frames of calls of the pool; and whenever no call is inside its block the
  run is serialisable: the calls served have returned the values, and the token, the
  controller and the trace (up to the sleeps of waiting callers) are in the state, of a
  sequential program of these calls.
\<close>

theorem only_the_window_races:
  assumes "reach fine ([], w0) s" and "framed (trace w0)"
  shows "reach micro ([], w0) s
         \<and> length (holders (fst s)) \<le> 1 \<and> (holders (fst s) \<noteq> [] \<longrightarrow> \<not> readyToSend (snd s))
         \<and> list_all parked (fst s)
         \<and> bus_after Released (trace (snd s)) \<noteq> Fault
         \<and> (\<exists>cs. mset cs \<subseteq># mset (map fst (fst s))
               \<and> prefix (frames (trace (snd s))) (frames (trace w0) @ concat (map bus_frames cs)))
         \<and> (holders (fst s) = [] \<longrightarrow>
              (\<exists>cs vs w' others. run_calls cs w0 = Some (Inr (vs, w'))
                 \<and> mset (fst s) = mset (zip cs (map Done vs) @ others) \<and> list_all waiting others
                 \<and> readyToSend (snd s) = readyToSend w' \<and> dev (snd s) = dev w'
                 \<and> unpolled (trace (snd s)) = unpolled (trace w')
                 \<and> frames (trace (snd s)) = frames (trace w')))"
proof -
  note inv = gated_reachable [OF gated_fine assms]
  from coop_inv_serial [OF inv] obtain cs where "mset cs \<subseteq># mset (map fst (fst s))"
    and "prefix (frames (trace (snd s))) (frames (trace w0) @ concat (map bus_frames cs))"
    by blast
  moreover have "\<exists>cs vs w' others. run_calls cs w0 = Some (Inr (vs, w'))
      \<and> mset (fst s) = mset (zip cs (map Done vs) @ others) \<and> list_all waiting others
      \<and> readyToSend (snd s) = readyToSend w' \<and> dev (snd s) = dev w'
      \<and> unpolled (trace (snd s)) = unpolled (trace w')
      \<and> frames (trace (snd s)) = frames (trace w')" if "holders (fst s) = []"
  proof -
    from gated_fine orderly_fine assms that obtain cs others
      where "mset (fst s) = mset (returned cs w0 @ others)"
        and "list_all waiting others" and a: "alike (snd s) (outcomes cs w0)"
      by (rule serialised)
    with alike_frames [OF a] show ?thesis
      by (auto simp: run_calls_eq returned_def alike_def)
  qed
  ultimately show ?thesis
    using inv coop_inv_strobe(1) [OF inv] fine_reach [OF assms(1)]
    by (auto simp: coop_inv_def)
qed

theorem only_the_window_races_witness:
  "reach micro ([], ready_world) (schedule fine sliced ([], ready_world))
   \<and> (\<exists>cs vs w' others. run_calls cs ready_world = Some (Inr (vs, w'))
        \<and> mset [(SetTriLED 1 100 0 0, Done None), (GetBattery, Done (Some 4831))]
            = mset (zip cs (map Done vs) @ others)
        \<and> list_all waiting others
        \<and> [[0xC4, 255, 0, 0], [0x55, 0x66, 0x77, 0x88]] = frames (trace w'))"
proof -
  have "reach fine ([], ready_world) (schedule fine sliced ([], ready_world))"
    by (rule schedule_reach) (simp add: sliced_def)
  moreover have "holders (fst (schedule fine sliced ([], ready_world))) = []"
    and "fst (schedule fine sliced ([], ready_world))
      = [(SetTriLED 1 100 0 0, Done None), (GetBattery, Done (Some 4831))]"
    and "frames (trace (snd (schedule fine sliced ([], ready_world))))
      = [[0xC4, 255, 0, 0], [0x55, 0x66, 0x77, 0x88]]"
    by (simp_all add: sliced_def frames_def eval_nat_numeral)
      (simp_all add: fine_simps py_index_def hb_scale rhe_div_def)
  ultimately show ?thesis
    using only_the_window_races [of ready_world "schedule fine sliced ([], ready_world)"]
    by auto
qed

end
