(* ===== verification/HB_Float.thy ===== *)
theory HB_Float
  imports HB_Encoder HB_Decoder
begin

text \<open>
  The scaling formulas of \<^verbatim>\<open>src/hummingbird.py\<close> in floating point.

  \<open>HB_Encoder\<close> and \<open>HB_Decoder\<close> compute the quotients of the formulas in the real
  numbers. The interpreter computes them in binary floating point: the operator \<^verbatim>\<open>/\<close>
  converts both integers to floats and rounds their quotient, \<^verbatim>\<open>+\<close> rounds the sum.
  This theory repeats every formula with these roundings made explicit and shows that
  the results are the same.

  \<^item> A \<open>rounding\<close> maps the exact result of an operation to the float that stands for
    it; \<open>fl_of_int\<close>, \<open>fl_truediv\<close> and \<open>fl_add\<close> are the three float operations the
    formulas use. \<open>accurate p rnd\<close> is all that is assumed of a rounding: its relative
    error is at most \<open>2\<^sup>-\<^sup>p\<close>, and an integer below \<open>2\<^sup>p\<close> and its half are not changed by
    it. \<open>nearest p\<close>, rounding to the nearest float with \<open>p\<close> significant
    bits, is such a rounding.
  \<^item> \<open>intensityScaled_fl\<close>, \<open>tri_scaled_fl\<close>, \<open>angle_conv_fl\<close>, \<open>speed_conv_fl\<close>,
    \<open>sensor_value_fl\<close> and \<open>battery_value_fl\<close> are the formulas of the methods, line by
    line, over these operations.

  The lemmas show that a float near a quotient \<open>n / d\<close> that is not a whole number
  truncates to \<open>n div d\<close>, and rounds like \<open>n / d\<close> when \<open>n / d\<close> is not a multiple of
  one half; the theorems conclude that with 17 significant bits or more every formula
  returns the value of the exact model, for all arguments. Seventeen is the least such
  number: rounded to the nearest float with 16 bits, the battery reading for the byte
  209 is 8486 instead of 8485 (\<open>sixteen_bits_are_not_enough\<close>). Overflow and subnormal
  numbers are not modelled: no value of a formula exceeds 103530.
\<close>

section \<open>Floating-point operations\<close>

type_synonym rounding = "real \<Rightarrow> real"

definition fl_of_int :: "rounding \<Rightarrow> int \<Rightarrow> real" where
  "fl_of_int rnd k = rnd (real_of_int k)"

definition fl_truediv :: "rounding \<Rightarrow> int \<Rightarrow> int \<Rightarrow> real" where
  "fl_truediv rnd a b = rnd (fl_of_int rnd a / fl_of_int rnd b)"

definition fl_add :: "rounding \<Rightarrow> real \<Rightarrow> int \<Rightarrow> real" where
  "fl_add rnd x k = rnd (x + fl_of_int rnd k)"

definition accurate :: "nat \<Rightarrow> rounding \<Rightarrow> bool" where
  "accurate p rnd \<longleftrightarrow>
     (\<forall>x. \<bar>rnd x - x\<bar> \<le> \<bar>x\<bar> / 2 ^ p)
     \<and> (\<forall>k::int. \<bar>k\<bar> < 2 ^ p \<longrightarrow>
           rnd (real_of_int k) = real_of_int k \<and> rnd (real_of_int k / 2) = real_of_int k / 2)"

definition ulp_exp :: "nat \<Rightarrow> real \<Rightarrow> int" where
  "ulp_exp p x = \<lfloor>log 2 \<bar>x\<bar>\<rfloor> - int p + 1"

definition nearest :: "nat \<Rightarrow> rounding" where
  "nearest p x =
     (if x = 0 then 0
      else real_of_int (round (x / 2 powi ulp_exp p x)) * 2 powi ulp_exp p x)"

section \<open>The formulas over these operations\<close>

definition intensityScaled_fl :: "rounding \<Rightarrow> int \<Rightarrow> int" where
  "intensityScaled_fl rnd intensity =
     (let intensity = (if intensity > 100 then 100 else intensity);
          intensity = (if intensity < 0 then 0 else intensity)
      in py_int (fl_truediv rnd (intensity * 255) 100))"

definition tri_scaled_fl :: "rounding \<Rightarrow> int \<Rightarrow> int" where
  "tri_scaled_fl rnd colour =
     (let colour = max 0 (min colour 100)
      in py_int (fl_truediv rnd (colour * 255) 100))"

definition angle_conv_fl :: "rounding \<Rightarrow> int \<Rightarrow> int" where
  "angle_conv_fl rnd angle =
     (let angle = max 0 (min angle 180)
      in py_int (fl_truediv rnd (angle * 254) 180))"

definition speed_conv_fl :: "rounding \<Rightarrow> int \<Rightarrow> int" where
  "speed_conv_fl rnd speed =
     (let speed = max (- 100) (min speed 100)
      in if speed > - 10 \<and> speed < 10 then 255
         else py_int (fl_add rnd (fl_truediv rnd (speed * 23) 100) 122))"

definition sensor_value_fl :: "rounding \<Rightarrow> int \<Rightarrow> int \<Rightarrow> int" where
  "sensor_value_fl rnd sensor raw =
     (if sensor = 3 then py_round (fl_truediv rnd (raw * 117) 100)
      else if sensor = 4 then py_round (fl_truediv rnd (raw * 200) 255)
      else if sensor = 2 then min (py_round (fl_truediv rnd (raw * 100) 230)) 100
      else py_round (fl_truediv rnd (raw * 100) 255))"

definition battery_value_fl :: "rounding \<Rightarrow> int \<Rightarrow> int" where
  "battery_value_fl rnd raw = py_round (fl_truediv rnd (raw * 406) 10)"

section \<open>A float near a quotient\<close>

lemma mod_between:
  fixes n d :: int
  assumes "0 < d" and "\<not> d dvd n"
  shows "1 \<le> n mod d" and "n mod d \<le> d - 1"
proof -
  have "0 \<le> n mod d" and "n mod d < d"
    using assms(1) by simp_all
  moreover have "n mod d \<noteq> 0"
    using assms(2) by (simp add: dvd_eq_mod_eq_0)
  ultimately show "1 \<le> n mod d" and "n mod d \<le> d - 1"
    by linarith+
qed

lemma frac_bounds:
  fixes n d :: int
  assumes "0 < d" and "\<not> d dvd n"
  shows "real_of_int (n div d) + 1 / of_int d \<le> of_int n / of_int d"
    and "of_int n / of_int d \<le> real_of_int (n div d) + 1 - 1 / of_int d"
proof -
  define q r where "q = n div d" and "r = n mod d"
  have n: "n = q * d + r"
    by (simp add: q_def r_def)
  have r: "1 \<le> r" "r \<le> d - 1"
    using mod_between [OF assms] by (simp_all add: r_def)
  have e: "of_int n / of_int d = of_int q + of_int r / (of_int d :: real)"
    using assms(1) by (simp add: n field_simps)
  from r assms(1) have "1 / of_int d \<le> of_int r / (of_int d :: real)"
    and "of_int r / (of_int d :: real) \<le> 1 - 1 / of_int d"
    by (simp_all add: field_simps)
  then show "real_of_int (n div d) + 1 / of_int d \<le> of_int n / of_int d"
    and "of_int n / of_int d \<le> real_of_int (n div d) + 1 - 1 / of_int d"
    unfolding e q_def by simp_all
qed

lemma floor_near:
  fixes n d :: int and y :: real
  assumes "0 < d" and "\<not> d dvd n" and "\<bar>y - of_int n / of_int d\<bar> < 1 / of_int d"
  shows "\<lfloor>y\<rfloor> = n div d"
  using frac_bounds [OF assms(1,2)] assms(3) by (intro floor_unique) linarith+

lemma round_near:
  fixes n d :: int and y :: real
  assumes "0 < d" and "\<not> d dvd 2 * n" and "\<bar>y - of_int n / of_int d\<bar> < 1 / (2 * of_int d)"
  shows "py_round y = rhe_div n d"
proof -
  define q r where "q = n div d" and "r = n mod d"
  define h a where "h = 1 / (2 * real_of_int d)" and "a = real_of_int r / real_of_int d"
  have n: "n = q * d + r"
    by (simp add: q_def r_def)
  from assms(2) have nd: "\<not> d dvd n" and tie: "2 * r \<noteq> d"
    by (auto simp: n)
  have r: "1 \<le> r" "r \<le> d - 1"
    using mod_between [OF assms(1) nd] by (simp_all add: r_def)
  have "of_int n / of_int d = of_int q + a"
    using assms(1) by (simp add: n a_def field_simps)
  with assms(3) have y: "of_int q + a - h < y" "y < of_int q + a + h"
    by (simp_all add: h_def abs_less_iff)
  have a: "2 * h \<le> a" "a \<le> 1 - 2 * h"
    using r assms(1) by (simp_all add: h_def a_def field_simps)
  have h: "0 < h"
    using assms(1) by (simp add: h_def)
  from y a h have fl: "\<lfloor>y\<rfloor> = q"
    by (intro floor_unique) linarith+
  show ?thesis
  proof (cases "2 * r < d")
    case True
    then have "2 * r + 1 \<le> d" by simp
    then have "real_of_int (2 * r + 1) \<le> real_of_int d" by (simp only: of_int_le_iff)
    then have "a + h \<le> 1 / 2"
      using assms(1) by (simp add: h_def a_def field_simps)
    with y have "y - of_int q < 1 / 2" by linarith
    with True show ?thesis
      by (simp add: py_round_def rhe_div_def fl Let_def q_def r_def)
  next
    case False
    with tie have "d \<le> 2 * r - 1" by simp
    then have "real_of_int d \<le> real_of_int (2 * r - 1)" by (simp only: of_int_le_iff)
    then have "1 / 2 \<le> a - h"
      using assms(1) by (simp add: h_def a_def field_simps)
    with y have "1 / 2 < y - of_int q" by linarith
    with False tie show ?thesis
      by (simp add: py_round_def rhe_div_def fl Let_def q_def r_def)
  qed
qed

section \<open>Rounding to the nearest float\<close>

lemma binade:
  fixes x :: real
  assumes "x \<noteq> 0"
  shows "2 powi \<lfloor>log 2 \<bar>x\<bar>\<rfloor> \<le> \<bar>x\<bar>" and "\<bar>x\<bar> < 2 powi (\<lfloor>log 2 \<bar>x\<bar>\<rfloor> + 1)"
  using assms floor_log_eq_powr_iff [of "\<bar>x\<bar>" 2 "\<lfloor>log 2 \<bar>x\<bar>\<rfloor>"]
    powr_real_of_int' [of 2 "\<lfloor>log 2 \<bar>x\<bar>\<rfloor>"] powr_real_of_int' [of 2 "\<lfloor>log 2 \<bar>x\<bar>\<rfloor> + 1"]
  by simp_all

lemma nearest_error: "\<bar>nearest p x - x\<bar> \<le> \<bar>x\<bar> / 2 ^ p"
proof (cases "x = 0")
  case False
  define s where "s = (2::real) powi ulp_exp p x"
  have s: "0 < s" by (simp add: s_def)
  have "nearest p x - x = (of_int (round (x / s)) - x / s) * s"
    using False s by (simp add: nearest_def s_def field_simps)
  then have "\<bar>nearest p x - x\<bar> = \<bar>of_int (round (x / s)) - x / s\<bar> * s"
    using s by (simp add: abs_mult)
  also have "\<dots> \<le> 1 / 2 * s"
    using s of_int_round_abs_le [of "x / s"] by (intro mult_right_mono) simp_all
  also have "1 / 2 * s = 2 powi \<lfloor>log 2 \<bar>x\<bar>\<rfloor> / 2 ^ p"
    by (simp add: s_def ulp_exp_def power_int_add power_int_diff)
  also have "\<dots> \<le> \<bar>x\<bar> / 2 ^ p"
    using binade(1) [OF False] by (simp add: divide_right_mono)
  finally show ?thesis .
qed (simp add: nearest_def)

lemma ulp_exp_eq:
  assumes "2 powi k \<le> \<bar>x\<bar>" and "\<bar>x\<bar> < 2 powi (k + 1)"
  shows "ulp_exp p x = k - int p + 1"
proof -
  have "(0::real) < 2 powi k"
    by simp
  with assms(1) have x: "x \<noteq> 0"
    by linarith
  let ?m = "\<lfloor>log 2 \<bar>x\<bar>\<rfloor>"
  from binade [OF x] assms
  have "2 powi ?m < (2::real) powi (k + 1)" and "2 powi k < (2::real) powi (?m + 1)"
    by linarith+
  moreover have "k + 1 \<le> ?m \<Longrightarrow> (2::real) powi (k + 1) \<le> 2 powi ?m"
    and "?m + 1 \<le> k \<Longrightarrow> (2::real) powi (?m + 1) \<le> 2 powi k"
    by (simp_all add: power_int_increasing)
  ultimately have "?m = k"
    by linarith
  then show ?thesis
    by (simp add: ulp_exp_def)
qed

lemma nearest_eq:
  assumes "2 powi k \<le> \<bar>x\<bar>" and "\<bar>x\<bar> < 2 powi (k + 1)"
  shows "nearest p x = real_of_int (round (x / 2 powi (k - int p + 1))) * 2 powi (k - int p + 1)"
proof -
  have "(0::real) < 2 powi k"
    by simp
  with assms(1) have "x \<noteq> 0"
    by linarith
  then show ?thesis
    by (simp add: nearest_def ulp_exp_eq [OF assms])
qed

lemma nearest_exact:
  fixes k :: int
  assumes "\<bar>k\<bar> < 2 ^ p"
  shows "nearest p (of_int k / 2 ^ j) = of_int k / 2 ^ j"
proof (cases "k = 0")
  case False
  define x where "x = real_of_int k / 2 ^ j"
  define m where "m = \<lfloor>log 2 \<bar>x\<bar>\<rfloor>"
  have x: "x \<noteq> 0" using False by (simp add: x_def)
  from assms have "\<bar>real_of_int k\<bar> < 2 ^ p"
    by (metis of_int_abs of_int_less_numeral_power_cancel_iff)
  then have "\<bar>x\<bar> * 2 ^ j < 2 ^ p"
    by (simp add: x_def)
  moreover have "2 powi m * 2 ^ j \<le> \<bar>x\<bar> * 2 ^ j"
    unfolding m_def using binade(1) [OF x] by (intro mult_right_mono) simp_all
  ultimately have "2 powi m * 2 ^ j < (2::real) ^ p"
    by linarith
  then have "(2::real) powi (m + int j) < 2 powi int p"
    by (simp add: power_int_add)
  then have "m + int j < int p"
    using power_int_le_imp_less_exp [of "2::real" "m + int j" "int p"] by simp
  then have "0 \<le> - int j - ulp_exp p x"
    by (simp add: ulp_exp_def m_def)
  then obtain i :: nat where "- int j - ulp_exp p x = int i"
    using nonneg_int_cases by blast
  then have e: "ulp_exp p x = - int j - int i"
    by simp
  have s: "(2::real) powi ulp_exp p x = 1 / (2 ^ j * 2 ^ i)"
    by (simp add: e power_int_diff power_int_minus field_simps)
  have "x / 2 powi ulp_exp p x = of_int (k * 2 ^ i)"
    unfolding s by (simp add: x_def)
  then have "nearest p x = of_int (k * 2 ^ i) * 2 powi ulp_exp p x"
    using x by (simp add: nearest_def del: of_int_mult of_int_power)
  also have "\<dots> = x"
    unfolding s by (simp add: x_def)
  finally show ?thesis
    by (simp add: x_def)
qed (simp add: nearest_def)

lemma nearest_accurate: "accurate p (nearest p)"
  using nearest_exact [of _ p 0] nearest_exact [of _ p 1]
  by (simp add: accurate_def nearest_error)

lemma exact_accurate: "accurate p (\<lambda>x. x)"
  by (simp add: accurate_def)

section \<open>What accuracy gives\<close>

lemma accurate_mono:
  assumes "accurate p rnd" and "q \<le> p"
  shows "accurate q rnd"
proof -
  have r: "(2::real) ^ q \<le> 2 ^ p" and i: "(2::int) ^ q \<le> 2 ^ p"
    using assms(2) by (simp_all add: power_increasing)
  from r have "\<bar>x\<bar> / 2 ^ p \<le> \<bar>x\<bar> / (2::real) ^ q" for x
    by (simp add: frac_le)
  moreover have "\<bar>k\<bar> < 2 ^ q \<Longrightarrow> \<bar>k\<bar> < (2::int) ^ p" for k
    by (erule order_less_le_trans) (rule i)
  ultimately show ?thesis
    using assms(1) unfolding accurate_def by (meson order_trans)
qed

lemma accurate_17:
  assumes "accurate p rnd" and "17 \<le> p"
  shows "\<bar>rnd x - x\<bar> \<le> \<bar>x\<bar> / 131072"
    and "\<bar>k\<bar> < 131072 \<Longrightarrow> rnd (real_of_int k) = real_of_int k"
    and "\<bar>k\<bar> < 131072 \<Longrightarrow> rnd (real_of_int k / 2) = real_of_int k / 2"
  using accurate_mono [OF assms] by (simp_all add: accurate_def)

lemma fl_of_int_exact:
  assumes "accurate p rnd" and "17 \<le> p" and "\<bar>k\<bar> < 131072"
  shows "fl_of_int rnd k = real_of_int k"
  using accurate_17(2) [OF assms] by (simp add: fl_of_int_def)

lemma fl_truediv_eq:
  assumes "accurate p rnd" and "17 \<le> p" and "\<bar>a\<bar> < 131072" and "\<bar>b\<bar> < 131072"
  shows "fl_truediv rnd a b = rnd (real_of_int a / real_of_int b)"
  using assms by (simp add: fl_truediv_def fl_of_int_exact)

lemma trunc_rnd:
  assumes "accurate p rnd" and "17 \<le> p" and "0 \<le> n" and "n < 131072" and "0 < d"
  shows "py_int (rnd (real_of_int n / real_of_int d)) = n div d"
proof (cases "d dvd n")
  case True
  have "0 \<le> n div d" and "n div d \<le> n"
    using assms(3,5) by (simp_all add: pos_imp_zdiv_nonneg_iff zdiv_mono2 [of n 1 d, simplified])
  with assms(4) have "\<bar>n div d\<bar> < 131072"
    by simp
  from accurate_17(2) [OF assms(1,2) this] True py_int_truediv [OF assms(3,5)] show ?thesis
    by (simp add: real_of_int_div py_truediv_def)
next
  case False
  define y where "y = rnd (real_of_int n / real_of_int d)"
  have "\<bar>real_of_int n / real_of_int d\<bar> / 131072 < 1 / real_of_int d"
    using assms(3-5) by (simp add: field_simps)
  with accurate_17(1) [OF assms(1,2), of "real_of_int n / real_of_int d"]
  have "\<bar>y - real_of_int n / real_of_int d\<bar> < 1 / real_of_int d"
    unfolding y_def by linarith
  from floor_near [OF assms(5) False this] have fl: "\<lfloor>y\<rfloor> = n div d" .
  moreover have "0 \<le> n div d"
    using assms(3,5) by (simp add: pos_imp_zdiv_nonneg_iff)
  ultimately have "0 \<le> y"
    by (metis zero_le_floor)
  with fl show ?thesis
    by (simp add: py_int_nonneg y_def)
qed

lemma round_rnd:
  assumes "accurate p rnd" and "17 \<le> p" and "0 \<le> n" and "n < 65536" and "0 < d"
  shows "py_round (rnd (real_of_int n / real_of_int d)) = rhe_div n d"
proof (cases "d dvd 2 * n")
  case True
  then obtain k where k: "2 * n = d * k" ..
  then have "\<bar>2 * n\<bar> = d * \<bar>k\<bar>"
    using assms(5) by (simp add: abs_mult)
  moreover have "1 * \<bar>k\<bar> \<le> d * \<bar>k\<bar>"
    using assms(5) by (intro mult_right_mono) simp_all
  ultimately have "\<bar>k\<bar> < 131072"
    using assms(3,4) by simp
  moreover have "2 * real_of_int n = real_of_int d * real_of_int k"
    using arg_cong [OF k, of real_of_int] by simp
  then have "real_of_int n / real_of_int d = real_of_int k / 2"
    using assms(5) by (simp add: field_simps)
  ultimately have "rnd (real_of_int n / real_of_int d) = py_truediv n d"
    using accurate_17(3) [OF assms(1,2), of k] by (simp only: py_truediv_def)
  with assms(5) show ?thesis
    by (simp add: py_round_truediv)
next
  case False
  have "\<bar>real_of_int n / real_of_int d\<bar> / 131072 < 1 / (2 * real_of_int d)"
    using assms(3-5) by (simp add: field_simps)
  with accurate_17(1) [OF assms(1,2), of "real_of_int n / real_of_int d"]
  have "\<bar>rnd (real_of_int n / real_of_int d) - real_of_int n / real_of_int d\<bar>
      < 1 / (2 * real_of_int d)"
    by linarith
  from round_near [OF assms(5) False this] show ?thesis .
qed

lemma trunc_robust:
  assumes "accurate p rnd" and "17 \<le> p" and "0 \<le> a" and "a < 131072" and "0 < b" and "b < 131072"
  shows "py_int (fl_truediv rnd a b) = a div b"
  using assms by (simp add: fl_truediv_eq trunc_rnd)

lemma round_robust:
  assumes "accurate p rnd" and "17 \<le> p" and "0 \<le> a" and "a < 65536" and "0 < b" and "b < 131072"
  shows "py_round (fl_truediv rnd a b) = rhe_div a b"
  using assms by (simp add: fl_truediv_eq round_rnd)

lemma round_robust_even:
  assumes "accurate p rnd" and "17 \<le> p" and "0 \<le> a" and "a < 65536" and "0 < b" and "b < 65536"
  shows "py_round (fl_truediv rnd (2 * a) (2 * b)) = rhe_div (2 * a) (2 * b)"
proof -
  have "fl_truediv rnd (2 * a) (2 * b) = rnd (real_of_int a / real_of_int b)"
    using assms by (simp add: fl_truediv_eq)
  moreover have "rhe_div (2 * a) (2 * b) = rhe_div a b"
    using assms(5) py_round_truediv [of "2 * b" "2 * a"] py_round_truediv [of b a]
    by (simp add: py_truediv_def)
  ultimately show ?thesis
    using assms by (simp add: round_rnd)
qed

lemma sum_exact:
  assumes "accurate p rnd" and "17 \<le> p" and "- 2300 \<le> n" and "n \<le> 2300" and "(100::int) dvd n"
  shows "rnd (rnd (real_of_int n / 100) + 122) = real_of_int (n div 100 + 122)"
proof -
  have "\<bar>n div 100\<bar> < 131072" and b: "\<bar>n div 100 + 122\<bar> < 131072"
    using assms(3,4) by simp_all
  from accurate_17(2) [OF assms(1,2) this(1)] assms(5)
  have "rnd (real_of_int n / 100) = real_of_int (n div 100)"
    by (simp add: real_of_int_div)
  then show ?thesis
    using accurate_17(2) [OF assms(1,2) b] by simp
qed

lemma sum_near:
  assumes "accurate p rnd" and "17 \<le> p" and "- 2300 \<le> n" and "n \<le> 2300"
  shows "\<bar>rnd (rnd (real_of_int n / 100) + 122) - real_of_int (n + 12200) / real_of_int 100\<bar>
           < 1 / real_of_int 100"
proof -
  define x y z where "x = real_of_int n / 100" and "y = rnd x" and "z = y + 122"
  have x: "\<bar>x\<bar> \<le> 23"
    using assms(3,4) by (simp add: x_def abs_le_iff)
  have "\<bar>y - x\<bar> \<le> \<bar>x\<bar> / 131072"
    unfolding y_def by (rule accurate_17(1) [OF assms(1,2)])
  with x have y: "\<bar>y - x\<bar> \<le> 1 / 1000"
    by linarith
  with x have "\<bar>z\<bar> \<le> 146"
    unfolding z_def by linarith
  moreover have "\<bar>rnd z - z\<bar> \<le> \<bar>z\<bar> / 131072"
    by (rule accurate_17(1) [OF assms(1,2)])
  ultimately have "\<bar>rnd z - z\<bar> \<le> 1 / 500"
    by linarith
  with y have "\<bar>rnd z - (x + 122)\<bar> < 1 / 100"
    unfolding z_def by linarith
  then show ?thesis
    by (simp add: x_def y_def z_def add_divide_distrib)
qed

lemma speed_robust:
  assumes "accurate p rnd" and "17 \<le> p" and "- 2300 \<le> n" and "n \<le> 2300"
  shows "py_int (fl_add rnd (fl_truediv rnd n 100) 122) = n div 100 + 122"
proof -
  define y where "y = rnd (rnd (real_of_int n / 100) + 122)"
  have y: "fl_add rnd (fl_truediv rnd n 100) 122 = y"
    using assms by (simp add: y_def fl_add_def fl_truediv_eq fl_of_int_exact)
  have m: "99 \<le> n div 100 + 122"
    using assms(3) by simp
  have "\<lfloor>y\<rfloor> = n div 100 + 122"
  proof (cases "(100::int) dvd n")
    case True
    from sum_exact [OF assms this] show ?thesis
      unfolding y_def by (simp only: floor_of_int)
  next
    case False
    then have "\<not> (100::int) dvd (n + 12200)"
      by (simp add: dvd_add_left_iff)
    from floor_near [OF _ this sum_near [OF assms]] show ?thesis
      by (simp add: y_def)
  qed
  moreover from this m have "0 \<le> y"
    by (metis zero_le_floor order_trans zero_le_numeral)
  ultimately show ?thesis
    by (simp add: y py_int_nonneg)
qed

section \<open>The formulas agree with the exact model\<close>

lemma intensityScaled_fl_eq:
  assumes "accurate p rnd" and "17 \<le> p"
  shows "intensityScaled_fl rnd i = intensityScaled i"
  by (simp add: intensityScaled_fl_def intensityScaled_eq trunc_robust [OF assms] max_def min_def)

lemma tri_scaled_fl_eq:
  assumes "accurate p rnd" and "17 \<le> p"
  shows "tri_scaled_fl rnd c = tri_scaled c"
  by (simp add: tri_scaled_fl_def tri_scaled_eq trunc_robust [OF assms] max_def min_def)

lemma angle_conv_fl_eq:
  assumes "accurate p rnd" and "17 \<le> p"
  shows "angle_conv_fl rnd a = angle_conv a"
  by (simp add: angle_conv_fl_def angle_conv_eq trunc_robust [OF assms] max_def min_def)

lemma speed_conv_fl_eq:
  assumes "accurate p rnd" and "17 \<le> p"
  shows "speed_conv_fl rnd s = speed_conv s"
  by (simp add: speed_conv_fl_def speed_conv_eq speed_robust [OF assms] max_def min_def)

lemma sensor_value_fl_eq:
  assumes "accurate p rnd" and "17 \<le> p" and "0 \<le> raw" and "raw \<le> 255"
  shows "sensor_value_fl rnd sensor raw = sensor_value sensor raw"
  using assms(3,4) by (simp add: sensor_value_fl_def sensor_value_eq round_robust [OF assms(1,2)])

lemma battery_value_fl_eq:
  assumes "accurate p rnd" and "17 \<le> p" and "0 \<le> raw" and "raw \<le> 255"
  shows "battery_value_fl rnd raw = battery_value raw"
proof -
  have e: "raw * 406 = 2 * (raw * 203)" "(10::int) = 2 * 5"
    by simp_all
  show ?thesis
    unfolding battery_value_fl_def battery_value_eq e
    by (rule round_robust_even [OF assms(1,2)]) (use assms(3,4) in simp_all)
qed

section \<open>The precision that is needed\<close>

lemma sixteen_bits_are_not_enough:
  "accurate 16 (nearest 16)"
  "battery_value_fl (nearest 16) 209 = 8486"
  "battery_value 209 = 8485"
proof -
  have a: "nearest 16 84854 = 84854"
    by (subst nearest_eq [of 16]) (simp_all add: round_def)
  have b: "nearest 16 10 = 10"
    by (subst nearest_eq [of 3]) (simp_all add: round_def power_int_minus)
  have c: "nearest 16 (42427 / 5) = 16971 / 2"
    by (subst nearest_eq [of 13]) (simp_all add: round_def power_int_minus)
  show "accurate 16 (nearest 16)"
    by (rule nearest_accurate)
  show "battery_value_fl (nearest 16) 209 = 8486"
    by (simp add: battery_value_fl_def fl_truediv_def fl_of_int_def a b c py_round_def)
  show "battery_value 209 = 8485"
    by (simp add: hb_scale rhe_div_def)
qed

section \<open>Properties of the formulas in floating point\<close>

text \<open>
  Claim C16 (equivalence). The bytes the encoder sends do not depend on the rounding of
  the interpreter's floats: for every rounding with a relative error of at most
  \<open>2\<^sup>-\<^sup>1\<^sup>7\<close> that keeps the integers below \<open>2\<^sup>1\<^sup>7\<close> and their halves, the brightness,
  colour, angle and speed bytes computed in floating point are those of the exact
  model, for all arguments.
\<close>

theorem encoder_survives_rounding:
  assumes "accurate p rnd" and "17 \<le> p"
  shows "intensityScaled_fl rnd i = intensityScaled i \<and> tri_scaled_fl rnd c = tri_scaled c
         \<and> angle_conv_fl rnd a = angle_conv a \<and> speed_conv_fl rnd s = speed_conv s"
  by (simp add: intensityScaled_fl_eq [OF assms] tri_scaled_fl_eq [OF assms]
      angle_conv_fl_eq [OF assms] speed_conv_fl_eq [OF assms])

theorem encoder_survives_rounding_witness:
  "intensityScaled_fl (nearest 24) 50 = 127 \<and> tri_scaled_fl (nearest 24) 33 = 84
   \<and> angle_conv_fl (nearest 24) 90 = 127 \<and> speed_conv_fl (nearest 24) (- 55) = 109"
  using encoder_survives_rounding [OF nearest_accurate, of 24 50 33 90 "- 55"]
  by (simp add: hb_scale)

text \<open>
  Claim C17 (equivalence). The readings do not depend on the rounding of the
  interpreter's floats either: under the same assumption, for every reply byte and
  every sensor kind, \<^verbatim>\<open>round()\<close> of the float quotient is \<^verbatim>\<open>round()\<close> of the exact
  quotient, ties included (they are exact in floating point).
\<close>

theorem decoder_survives_rounding:
  assumes "accurate p rnd" and "17 \<le> p" and "0 \<le> raw" and "raw \<le> 255"
  shows "sensor_value_fl rnd sensor raw = sensor_value sensor raw
         \<and> battery_value_fl rnd raw = battery_value raw"
  by (simp add: sensor_value_fl_eq [OF assms] battery_value_fl_eq [OF assms])

theorem decoder_survives_rounding_witness:
  "sensor_value_fl (nearest 24) 3 50 = 58 \<and> battery_value_fl (nearest 24) 50 = 2030"
  using decoder_survives_rounding [OF nearest_accurate, of 24 50 3]
  by (simp add: hb_scale rhe_div_def)

end
