(* ===== verification/HB_Codec.thy ===== *)
theory HB_Codec
  imports HB_Session
begin

text \<open>
  The frames of \<^verbatim>\<open>src/hummingbird.py\<close> as the controller reads them.

  \<^item> \<open>request\<close> is what a frame asks of the controller, after the frame formats of the
    specification: the handshake of the bring-up, the brightness of the LED on port 1,
    the three colours of a tri-colour LED, the pulse of a servo or the code 255 that
    switches it off, the six-byte sensor poll and the four-byte battery poll.
    \<open>encode_request\<close> is the frame of a request, \<open>decode_frame\<close> reads a frame back,
    and \<open>valid_request\<close> says which requests have a frame of their own.
  \<^item> \<open>requests c\<close> is what the call \<open>c\<close> asks for, in terms of its arguments: the
    clamped percentage, angle or speed scaled in integer arithmetic.

  The lemmas are the two round trips of the frame format and the fact that the frame
  of every accepted call is the encoding of its request; the theorem reads the bus
  after a whole program.
\<close>

section \<open>Requests to the controller\<close>

datatype request =
    Handshake
  | Led u8
  | TriLed int u8 u8 u8
  | ServoOff int
  | ServoPulse int u8
  | ReadSensors
  | ReadBattery

fun valid_request :: "request \<Rightarrow> bool" where
  "valid_request (TriLed port r g b) = (1 \<le> port \<and> port \<le> 2)"
| "valid_request (ServoOff port) = (1 \<le> port \<and> port \<le> 4)"
| "valid_request (ServoPulse port pulse) = (1 \<le> port \<and> port \<le> 4 \<and> pulse \<noteq> 0xFF)"
| "valid_request m = True"

fun encode_request :: "request \<Rightarrow> u8 list" where
  "encode_request Handshake = [0xCB, 0xFF, 0xFF, 0xFF]"
| "encode_request (Led b) = [0xC0, b, 0xFF, 0xFF]"
| "encode_request (TriLed port r g b) = [0xC3 + word_of_int port, r, g, b]"
| "encode_request (ServoOff port) = [0xC5 + word_of_int port, 0xFF, 0xFF, 0xFF]"
| "encode_request (ServoPulse port pulse) = [0xC5 + word_of_int port, pulse, 0xFF, 0xFF]"
| "encode_request ReadSensors = [0xCC, 0x66, 0x77, 0x88, 0x55, 0x66]"
| "encode_request ReadBattery = [0x55, 0x66, 0x77, 0x88]"

definition decode4 :: "u8 \<Rightarrow> u8 \<Rightarrow> u8 \<Rightarrow> u8 \<Rightarrow> request option" where
  "decode4 op a b c =
     (if op = 0xC4 \<or> op = 0xC5 then Some (TriLed (uint op - 0xC3) a b c)
      else if b \<noteq> 0xFF \<or> c \<noteq> 0xFF then
        (if op = 0x55 \<and> a = 0x66 \<and> b = 0x77 \<and> c = 0x88 then Some ReadBattery else None)
      else if op = 0xCB then (if a = 0xFF then Some Handshake else None)
      else if op = 0xC0 then Some (Led a)
      else if op = 0xC6 \<or> op = 0xC7 \<or> op = 0xC8 \<or> op = 0xC9
      then Some (if a = 0xFF then ServoOff (uint op - 0xC5) else ServoPulse (uint op - 0xC5) a)
      else None)"

fun decode_frame :: "u8 list \<Rightarrow> request option" where
  "decode_frame [op, a, b, c] = decode4 op a b c"
| "decode_frame [a, b, c, d, e, f] =
     (if [a, b, c, d, e, f] = [0xCC, 0x66, 0x77, 0x88, 0x55, 0x66] then Some ReadSensors else None)"
| "decode_frame f = None"

fun requests :: "call \<Rightarrow> request list" where
  "requests Start = [Handshake]"
| "requests (SetLED port intensity) =
     (if port = 1 then [Led (word_of_int (max 0 (min intensity 100) * 255 div 100))] else [])"
| "requests (SetTriLED port red green blue) =
     [TriLed port (word_of_int (max 0 (min red 100) * 255 div 100))
        (word_of_int (max 0 (min green 100) * 255 div 100))
        (word_of_int (max 0 (min blue 100) * 255 div 100))]"
| "requests (SetPositionServo port angle) =
     [ServoPulse port (word_of_int (max 0 (min angle 180) * 254 div 180))]"
| "requests (SetRotationServo port speed) =
     (let s = max (- 100) (min speed 100)
      in if - 10 < s \<and> s < 10 then [ServoOff port]
         else [ServoPulse port (word_of_int (s * 23 div 100 + 122))])"
| "requests (GetSensor sensor port) = [ReadSensors]"
| "requests GetBattery = [ReadBattery]"

section \<open>Round trips\<close>

lemma decode_encode: "valid_request m \<Longrightarrow> decode_frame (encode_request m) = Some m"
proof (cases m)
  case (TriLed port r g b)
  moreover assume "valid_request m"
  ultimately have "port = 1 \<or> port = 2" by auto
  with TriLed show ?thesis
    by (auto simp: decode4_def)
next
  case (ServoOff port)
  moreover assume "valid_request m"
  ultimately have "port = 1 \<or> port = 2 \<or> port = 3 \<or> port = 4" by auto
  with ServoOff show ?thesis
    by (auto simp: decode4_def)
next
  case (ServoPulse port pulse)
  moreover assume "valid_request m"
  ultimately have "port = 1 \<or> port = 2 \<or> port = 3 \<or> port = 4" and "pulse \<noteq> 0xFF" by auto
  with ServoPulse show ?thesis
    by (auto simp: decode4_def)
qed (simp_all add: decode4_def)

lemma encode_decode:
  assumes "decode_frame f = Some m"
  shows "encode_request m = f \<and> valid_request m"
  using assms
proof (cases f rule: decode_frame.cases)
  case (1 op a b c)
  with assms show ?thesis
    by (auto simp: decode4_def split: if_splits)
next
  case (2 a b c d e f)
  with assms show ?thesis
    by (auto split: if_splits)
qed simp_all

lemma byte_is_255:
  fixes x :: int
  assumes "0 \<le> x" and "x < 256"
  shows "(word_of_int x :: u8) = 0xFF \<longleftrightarrow> x = 255"
proof
  assume "(word_of_int x :: u8) = 0xFF"
  then have "uint (word_of_int x :: u8) = 255"
    by simp
  with uint_py_byte [OF assms] show "x = 255"
    by simp
qed simp

lemma rotation_pulse:
  fixes s :: int
  assumes "- 100 \<le> s" and "s \<le> 100"
  shows "0 \<le> s * 23 div 100 + 122" and "s * 23 div 100 + 122 < 255"
proof -
  from assms have "(- 2300) div 100 \<le> s * 23 div 100" and "s * 23 div 100 \<le> 2300 div 100"
    by (intro zdiv_mono1; simp)+
  then show "0 \<le> s * 23 div 100 + 122" and "s * 23 div 100 + 122 < 255"
    by simp_all
qed

lemma requests_valid:
  assumes "accepted c"
  shows "list_all valid_request (requests c)"
proof (cases c)
  case (SetPositionServo port angle)
  have "0 \<le> angle_conv angle" "angle_conv angle < 256" "angle_conv angle \<noteq> 255"
    using angle_conv_bounds [of angle] by simp_all
  with SetPositionServo assms show ?thesis
    by (simp add: angle_conv_eq [symmetric] byte_is_255)
next
  case (SetRotationServo port speed)
  define s where "s = max (- 100) (min speed 100)"
  have "- 100 \<le> s" "s \<le> 100"
    by (simp_all add: s_def)
  from rotation_pulse [OF this]
  have b: "0 \<le> s * 23 div 100 + 122" "s * 23 div 100 + 122 < 256" "s * 23 div 100 + 122 \<noteq> 255"
    by simp_all
  from byte_is_255 [OF b(1,2)] b(3) have "(word_of_int (s * 23 div 100 + 122) :: u8) \<noteq> 0xFF"
    by (simp only: not_False_eq_True)
  with SetRotationServo assms show ?thesis
    by (simp add: Let_def s_def del: of_int_add)
qed (use assms in simp_all)

section \<open>The frames of the driver are encoded requests\<close>

lemma bus_frames_requests:
  assumes "accepted c"
  shows "bus_frames c = map encode_request (requests c)"
proof (cases c)
  case (SetRotationServo port speed)
  with assms show ?thesis
    by (simp add: bus_frames_def frame_def servo_port_val_def speed_conv_eq Let_def)
qed (use assms in \<open>simp_all add: bus_frames_def frame_def poll_bytes_def battery_bytes_def
      tri_port_val_def servo_port_val_def hb_scale\<close>)

lemma decode_requests:
  assumes "accepted c"
  shows "map decode_frame (bus_frames c) = map Some (requests c)"
  using requests_valid [OF assms]
  by (simp add: bus_frames_requests [OF assms] list_all_iff decode_encode comp_def)

lemma decode_program:
  "map decode_frame (concat (map bus_frames cs)) = map Some (concat (map requests (filter accepted cs)))"
proof (induction cs)
  case Nil
  show ?case by simp
next
  case (Cons c cs)
  show ?case
  proof (cases "accepted c")
    case True
    with Cons decode_requests [OF True] show ?thesis
      by simp
  next
    case False
    with Cons show ?thesis
      by (simp add: bus_frames_def)
  qed
qed

section \<open>Properties of the frames as requests\<close>

text \<open>
  Claim C13 (roundtrip). What the controller reads is what the program asked for. A
  program that starts with the bring-up on a freshly booted board returns, and the
  frames it has put on the bus, decoded by the frame format of the controller, are
  the handshake followed by the requests of its accepted calls in program order: the
  brightness, colours and pulse as the bytes of the clamped arguments, on the port of
  the call. No frame is ambiguous, no byte wraps around, and a position never reads as
  the stop code of a servo.
\<close>

theorem controller_decodes_program:
  "\<exists>vs w'. run_calls (Start # cs) (boot d) = Some (Inr (vs, w'))
     \<and> map decode_frame (frames (trace w'))
         = map Some (Handshake # concat (map requests (filter accepted cs)))"
  by (simp add: run_calls_eq booted_outcomes decode_program decode4_def)

end
