(* ===== verification/Spec2Isabelle.thy ===== *)
theory Spec2Isabelle
  imports HB_Serial HB_Progress HB_Window HB_Float HB_Codec
begin

text \<open>
  \<^bold>\<open>A verification development for the Hummingbird bit driver\<close>
  (\<^verbatim>\<open>src/hummingbird.py\<close>, class \<^verbatim>\<open>hummingbird\<close>, MicroPython on the micro:bit v2).

  \<^bold>\<open>The program.\<close> The driver is one class with one piece of state, the class attribute
  \<^verbatim>\<open>readyToSend\<close>, and seven static methods. \<^verbatim>\<open>startHummingbird\<close> brings the board up and
  sets the token; \<^verbatim>\<open>setLED\<close>, \<^verbatim>\<open>setTriLED\<close>, \<^verbatim>\<open>setPositionServo\<close> and
  \<^verbatim>\<open>setRotationServo\<close> encode their arguments into a four-byte command and clock it over
  the SPI bus; \<^verbatim>\<open>getSensor\<close> and \<^verbatim>\<open>getBattery\<close> clock a fixed poll and decode one of the
  bytes that come back. Every method but the bring-up runs the same gate first: a poll
  of the token bounded by 25 sleeps of 10 ms, the check of port and token, an
  unbounded spin on the token, then \<^verbatim>\<open>readyToSend = False\<close>, the transaction, and
  \<^verbatim>\<open>readyToSend = True\<close>. A transaction is framed by the strobe line (pin 16, low during
  the exchange) and by fixed delays.

  \<^bold>\<open>The theories\<close>, in import order.
  \<^descr>[\<open>HB_Prelude\<close>] results of calls (\<open>error + 'a\<close>, and \<open>option\<close> around it for a call
    that may not return), statement blocks (\<open>exec\<close>), and the Python built-ins the
    driver uses: \<open>py_truediv\<close>, \<open>py_int\<close>, \<open>py_round\<close>, \<open>py_bytes\<close>, \<open>bytearray\<close>,
    \<open>int_from_bytes_big\<close>, \<open>py_index\<close>, with their characterisations in integer
    arithmetic.
  \<^descr>[\<open>HB_Hardware\<close>] the record \<open>world\<close> (the token, the trace of every call made on
    the board, the controller at the other end of the bus), the class constants, and one
    definition per library call (\<^verbatim>\<open>sleep\<close>, \<^verbatim>\<open>sleep_us\<close>, \<^verbatim>\<open>write_digital\<close>,
    \<^verbatim>\<open>write_analog\<close>, \<^verbatim>\<open>spi.init\<close>, \<^verbatim>\<open>spi.write\<close>, \<^verbatim>\<open>spi.write_readinto\<close>,
    \<^verbatim>\<open>display.scroll\<close>, \<^verbatim>\<open>display.show\<close>, \<^verbatim>\<open>print\<close>). The controller is a codatatype
    \<open>device\<close> about which nothing is assumed.
  \<^descr>[\<open>HB_Encoder\<close>] the arithmetic of the four actuator methods: \<open>intensityScaled\<close>,
    \<open>tri_scaled\<close>, \<open>tri_port_val\<close>, \<open>angle_conv\<close>, \<open>servo_port_val\<close>, \<open>speed_conv\<close>;
    integer forms, ranges, end points, monotonicity.
  \<^descr>[\<open>HB_Decoder\<close>] the formulas of \<^verbatim>\<open>getSensor\<close> and \<^verbatim>\<open>getBattery\<close>: \<open>sensor_value\<close>,
    \<open>battery_value\<close>; integer forms, where rounding halves to even matters, ranges,
    monotonicity.
  \<^descr>[\<open>HB_Float\<close>] the same formulas with the roundings of floating point made explicit
    (\<open>fl_of_int\<close>, \<open>fl_truediv\<close>, \<open>fl_add\<close> over a \<open>rounding\<close>; \<open>intensityScaled_fl\<close>,
    \<open>tri_scaled_fl\<close>, \<open>angle_conv_fl\<close>, \<open>speed_conv_fl\<close>, \<open>sensor_value_fl\<close>,
    \<open>battery_value_fl\<close>), the assumption \<open>accurate\<close> on a rounding, and the rounding
    \<open>nearest\<close> to a given number of significant bits, which satisfies it.
  \<^descr>[\<open>HB_Gate\<close>] the two waiting loops: \<open>coarse_wait\<close> (a \<open>function\<close> with the measure
    \<open>25 - timeout\<close>) and \<open>spin_wait\<close> (a \<open>partial_function\<close> into \<open>option\<close>); their exact
    results for a caller running alone.
  \<^descr>[\<open>HB_Protocol\<close>] the bus protocol as a specification: \<open>transaction\<close>, the gap
    profiles, the strobe line as the state machine \<open>bus\<close>, the predicate \<open>framed\<close>, the
    abstraction \<open>frames\<close> of a trace to the frames it put on the bus, and \<open>elapsed_us\<close>.
  \<^descr>[\<open>HB_Driver\<close>] the seven methods, statement by statement (\<open>startHummingbird\<close>,
    \<open>setLED\<close>, \<open>setTriLED\<close>, \<open>setPositionServo\<close>, \<open>setRotationServo\<close>, \<open>getSensor\<close>,
    \<open>getBattery\<close> and their transaction blocks), and the exact outcome of each on every
    input.
  \<^descr>[\<open>HB_Session\<close>] programs as sequences of calls (\<open>call\<close>, \<open>invoke\<close>, \<open>run_calls\<close>),
    the bus-level specification (\<open>accepted\<close>, \<open>frame_of\<close>, \<open>spec_step\<close>), and the
    refinement of the specification by the driver; the calls a program makes on the
    display and the console (\<open>shown\<close>, \<open>display_of\<close>) and the time each call sleeps.
  \<^descr>[\<open>HB_Codec\<close>] the frames as the controller reads them: \<open>request\<close>,
    \<open>encode_request\<close>, \<open>decode_frame\<close>, and the requests of a call in terms of its
    arguments (\<open>requests\<close>); the round trips of the frame format.
  \<^descr>[\<open>HB_Threads\<close>] one call as a thread that can be suspended: the statements of the
    transaction blocks as data (\<open>stmt\<close>, \<open>run_stmt\<close>, \<open>code_of\<close>), the places a call can
    be at (\<open>ctl\<close>), one statement at a time (\<open>micro\<close>), and a run up to the next blocking
    call (\<open>advance\<close>, a \<open>function\<close> with the measure \<open>rank\<close>). A call run alone (\<open>solo\<close>)
    is the method of \<open>HB_Driver\<close>.
  \<^descr>[\<open>HB_Concurrent\<close>] a pool of such threads sharing one world under a scheduler
    (\<open>sys_step\<close>, \<open>reach\<close>, \<open>schedule\<close>), cooperative when it steps by \<open>advance\<close> and
    preemptive when it steps by \<open>micro\<close>; the invariant \<open>coop_inv\<close>, proved for every
    step that is \<open>gated\<close>, and what follows from it; the schedules that break the
    protocol.
  \<^descr>[\<open>HB_Serial\<close>] runs against sequential programs: worlds up to the
    sleeps of waiting callers (\<open>unpolled\<close>, \<open>alike\<close>), the pool a sequential program
    leaves (\<open>returned\<close>), threads that were not served (\<open>waiting\<close>), and the invariant
    \<open>lin\<close> that ties every reachable state to a sequential program of the calls served
    so far, proved for every step that is gated and \<open>orderly\<close>.
  \<^descr>[\<open>HB_Window\<close>] the step \<open>fine\<close> of a scheduler that interrupts a call after any
    statement except between its last look at the token and \<^verbatim>\<open>readyToSend = False\<close>: it is
    gated and orderly, so the gate holds and the runs are serialisable under it.
  \<^descr>[\<open>HB_Progress\<close>] the number of atomic steps a call has left (\<open>togo\<close>) and the
    number of times a schedule chooses a thread (\<open>turns\<close>): no call waits forever.
  \<^descr>[\<open>Spec2Isabelle\<close>] this theory: what holds of a whole program run from power-up,
    a cooperative run against the sequential program of the calls it served, and the
    two together: the bring-up followed by any cooperative run, as the controller
    reads it.

  \<^bold>\<open>How the model corresponds to the code.\<close> Python integers are \<open>int\<close>; bytes on the bus
  are \<open>8 word\<close>. In \<open>HB_Encoder\<close>, \<open>HB_Decoder\<close> and the theories built on them a float
  is an exact real. \<open>HB_Float\<close> justifies this: it repeats the formulas over an arbitrary
  rounding of each float operation and shows that the results are the same whenever
  the rounding has a relative error of at most \<open>2\<^sup>-\<^sup>1\<^sup>7\<close> and keeps the integers below
  \<open>2\<^sup>1\<^sup>7\<close> and their halves, as every binary format with 17 or more significant bits
  does (the quotients the driver forms stay far enough from the boundaries that
  \<open>int()\<close> and \<open>round()\<close> look at, and the ties of \<open>round()\<close> are exact). A method takes the
  world and
  returns \<open>None\<close> if it never returns, \<open>Some (Inl e)\<close> if a library call raises, and
  \<open>Some (Inr \<dots>)\<close> with its value and the new world otherwise. Every library call is
  recorded in the trace in the order it is made, so the trace is what an observer of
  the pins and of the bus sees. The loops are recursive functions; the spin wait, which
  has no bound in the source, has none in the model either.

  \<^bold>\<open>Several callers.\<close> The source starts no thread, but the token is there for callers
  that interleave (``Wait for other functions in other threads''). A thread is a call
  with the place it has reached; the pool shares the world. The blocking calls
  (\<^verbatim>\<open>sleep\<close>, \<^verbatim>\<open>sleep_us\<close>, \<^verbatim>\<open>display.scroll\<close>) are the points where a cooperative
  scheduler can switch to another thread, so its atomic step is \<open>advance\<close>: run to the
  next blocking call. The preemptive scheduler switches after any statement, and the
  two evaluations of the token (the check and the spin condition) are steps of their
  own there. Between the two is the scheduler of \<open>HB_Window\<close>, which switches after
  any statement but not inside the window from the last look at the token to the
  assignment that takes it. New calls may be made at any time; the bring-up is not among them, because
  it does not take the gate.

  \<^bold>\<open>Bounds.\<close> The poll bound 25 and the delays 4, 100, 500 microseconds and 2000 ms are
  the source's constants. \<open>coarse_wait\<close> and \<open>advance\<close> are total by their measures and
  \<open>spin_wait\<close> is partial by type; the theorems of \<open>HB_Driver\<close> and \<open>HB_Session\<close> show
  that every method nevertheless returns. The only fuel is that of \<open>solo\<close>, the number of
  atomic steps given to a call running alone: 26 is enough for every call (25 sleeps of
  the poll and the step that gives up; a transaction block makes at most ten blocking
  calls), and the theorem holds for every larger number. In a pool the same count
  gives the bound 34 of \<open>HB_Progress\<close> (\<open>togo\<close> of a call just made: 25 polls, one
  step into the block or out, eight more steps inside the longest block, that of
  \<^verbatim>\<open>getSensor\<close>); the schedule \<open>latecomer\<close> shows that 33 are not enough.
  The precision 17 of \<open>HB_Float\<close> is the least that will do: the largest integer the
  formulas convert, 103530, has 17 bits, and rounded to 16 bits the battery reading
  for the byte 209 is off by one (\<open>sixteen_bits_are_not_enough\<close>); the float formats of
  MicroPython have 22 significant bits or more.

  \<^bold>\<open>What is shown.\<close> The encoder and decoder compute the integer formulas, within the
  byte and pin ranges. Each method, for a caller running alone, returns without raising
  and either performs exactly one transaction with the bytes and gaps of the protocol,
  or does nothing but idle through the poll (port out of range, token taken). The
  trace stays framed, the frames on the bus are those of the bus-level specification,
  and the token is restored by every method. A call sleeps 808 microseconds for a
  command frame, 816 for the sensor poll and 250 ms when the token is taken; a program
  prints its greeting once, shows one image and scrolls one number per accepted
  \<^verbatim>\<open>setLED\<close>. Read back by the frame format of the
  controller, the frames of a program are the requests of its accepted calls: no two
  requests share a frame and no byte wraps around. For several callers under cooperative
  scheduling: at most one call is inside a transaction block and the token is false
  while it is, the strobe protocol is never violated, no call raises, a transaction
  once begun runs to its end, and every call has returned once the scheduler has
  chosen it 34 times. Cooperative runs are serialisable: whenever
  no call is inside its block, the calls served so far have returned the values, and
  the controller and the trace are (up to the sleeps of waiting callers) in the state,
  that the methods of \<open>HB_Driver\<close> produce when they run these calls one after the
  other; every other call is waiting or has returned its default. Conversely every
  sequential program is a cooperative run. Mutual exclusion, the strobe protocol,
  whole frames and serialisability also hold when calls are interrupted at any
  statement outside the window between the last look at the token and the assignment
  that takes it: the invariants are proved once, for every step of a scheduler that
  is \<open>gated\<close> and \<open>orderly\<close>, and both \<open>advance\<close> and \<open>fine\<close> are. Under
  fully preemptive scheduling, which interrupts inside that window, and when the
  bring-up is called during a transaction, concrete schedules violate the protocol; a
  waiting call that is not served within 25 polls is dropped.

  \<^bold>\<open>What is not modelled.\<close> Electrical behaviour and real time beyond the sum of the
  requested sleeps (the time \<^verbatim>\<open>display.scroll\<close> blocks is not counted); what the LED
  matrix of the display shows while it renders the calls made on it; the
  controller's firmware (the theorems hold for every \<open>device\<close>); the scheduler's policy
  and fairness (every interleaving at the switching points is a run); overflow and
  subnormal numbers of the float format (no value of a formula exceeds 103530).
\<close>

section \<open>A program run from power-up\<close>

text \<open>
  Claim C6 (refinement). A program that starts with the bring-up on a freshly booted
  board returns a value for every call, ends with the token free and the strobe
  released, and has put on the bus exactly the frames of its accepted calls, in
  program order: the handshake \<open>CB FF FF FF\<close> first, then one frame per accepted call
  (none for the LED ports 2 and 3), and nothing for a call whose port is out of range.
\<close>

theorem booted_program_frames:
  "\<exists>vs w'. run_calls (Start # cs) (boot d) = Some (Inr (vs, w'))
     \<and> length vs = Suc (length cs)
     \<and> readyToSend w' \<and> framed (trace w')
     \<and> frames (trace w') = [0xCB, 0xFF, 0xFF, 0xFF] # concat (map bus_frames cs)"
  using booted_outcomes [of cs d] by (simp add: run_calls_eq)

section \<open>Concurrent calls against the sequential driver\<close>

text \<open>
  Claim C2 (refinement). Cooperative runs are serialisable. Start from any world with a
  framed trace; let calls be made and scheduled cooperatively in any way; stop at a
  moment when no call is inside its block. Then the pool splits into the calls that
  were served and the others. The served calls, written one after the other as a
  sequential program and run by the methods of the driver from the initial world,
  return the values that the threads returned, leave the controller in the same
  state and the token as it is, and make the same calls on the board in the same
  order, up to the 10 ms sleeps of waiting callers; in particular the frames on the
  bus are the same. Each of the others is still in its bounded poll or has returned
  the default of its method.
\<close>

theorem concurrent_calls_are_serialised:
  assumes "reach advance ([], w0) s" and "framed (trace w0)" and "holders (fst s) = []"
  shows "\<exists>cs vs w' others. run_calls cs w0 = Some (Inr (vs, w'))
           \<and> mset (fst s) = mset (zip cs (map Done vs) @ others) \<and> list_all waiting others
           \<and> readyToSend (snd s) = readyToSend w' \<and> dev (snd s) = dev w'
           \<and> unpolled (trace (snd s)) = unpolled (trace w')
           \<and> frames (trace (snd s)) = frames (trace w')"
proof -
  from assms obtain cs others where "mset (fst s) = mset (returned cs w0 @ others)"
    and "list_all waiting others" and a: "alike (snd s) (outcomes cs w0)"
    by (rule serialised_reachable)
  with alike_frames [OF a] show ?thesis
    by (auto simp: run_calls_eq returned_def alike_def)
qed

theorem concurrent_calls_are_serialised_witness:
  "\<exists>cs vs w' others. run_calls cs ready_world = Some (Inr (vs, w'))
     \<and> mset [(SetTriLED 1 100 0 0, Done None), (GetBattery, Done (Some 4831))]
         = mset (zip cs (map Done vs) @ others)
     \<and> list_all waiting others
     \<and> readyToSend (snd (schedule advance both_served ([], ready_world))) = readyToSend w'
     \<and> dev (snd (schedule advance both_served ([], ready_world))) = dev w'
     \<and> unpolled (trace (snd (schedule advance both_served ([], ready_world))))
         = unpolled (trace w')
     \<and> [[0xC4, 255, 0, 0], [0x55, 0x66, 0x77, 0x88]] = frames (trace w')"
proof -
  have "reach advance ([], ready_world) (schedule advance both_served ([], ready_world))"
    by (rule schedule_reach) (simp add: both_served_def two_callers_def)
  moreover have "holders (fst (schedule advance both_served ([], ready_world))) = []"
    and "fst (schedule advance both_served ([], ready_world))
      = [(SetTriLED 1 100 0 0, Done None), (GetBattery, Done (Some 4831))]"
    and "frames (trace (snd (schedule advance both_served ([], ready_world))))
      = [[0xC4, 255, 0, 0], [0x55, 0x66, 0x77, 0x88]]"
    by (simp_all add: both_served_def two_callers_def eval_nat_numeral frames_def)
      (simp_all add: run_simps py_index_def hb_scale rhe_div_def)
  ultimately show ?thesis
    using concurrent_calls_are_serialised
      [of ready_world "schedule advance both_served ([], ready_world)"]
    by simp
qed

section \<open>The whole system from power-up\<close>

text \<open>
  Claim C3 (refinement). The system as a whole. Power the board up, let the program run
  the bring-up, and then let any number of callers use the driver, scheduled
  cooperatively in any way. At every moment when no call is inside its block, what the
  controller has received, read back by its frame format, is the handshake followed by
  the requests of the calls served so far, one after the other and none mixed with
  another; these calls have returned the values, and the controller is in the state,
  of the sequential program that makes the bring-up and then these calls in this
  order; every other call is still polling or has returned its default; and the token
  is free.
\<close>

theorem booted_system_is_serialised:
  assumes "invoke Start (boot d) = Some (Inr (v, w0))" and "reach advance ([], w0) s"
    and "holders (fst s) = []"
  shows "\<exists>cs vs w' others. run_calls (Start # cs) (boot d) = Some (Inr (None # vs, w'))
           \<and> mset (fst s) = mset (zip cs (map Done vs) @ others) \<and> list_all waiting others
           \<and> dev (snd s) = dev w' \<and> readyToSend (snd s)
           \<and> frames (trace (snd s)) = [0xCB, 0xFF, 0xFF, 0xFF] # concat (map bus_frames cs)
           \<and> map decode_frame (frames (trace (snd s)))
               = map Some (Handshake # concat (map requests (filter accepted cs)))"
proof -
  from assms(1) have w0: "w0 = outcome Start (boot d)"
    by (simp add: invoke_eq)
  then have "framed (trace w0)"
    using booted_outcomes(2) [of "[]" d] by (simp add: outcomes_def)
  with assms(2) obtain cs others where "mset (fst s) = mset (returned cs w0 @ others)"
    and "list_all waiting others" and a: "alike (snd s) (outcomes cs w0)"
    using assms(3) by (rule serialised_reachable)
  moreover have "outcomes cs w0 = outcomes (Start # cs) (boot d)"
    by (simp add: outcomes_def w0)
  moreover note alike_frames [OF a] booted_outcomes [of cs d]
  ultimately show ?thesis
    using a
    by (auto simp: run_calls_eq returned_def alike_def w0 value_of_def decode_program decode4_def)
qed

theorem booted_system_is_serialised_witness:
  "\<exists>cs vs w' others. run_calls (Start # cs) (boot (echo_device 7)) = Some (Inr (None # vs, w'))
     \<and> mset (fst (schedule advance both_served ([], outcome Start (boot (echo_device 7)))))
         = mset (zip cs (map Done vs) @ others)
     \<and> list_all waiting others
     \<and> dev (snd (schedule advance both_served ([], outcome Start (boot (echo_device 7))))) = dev w'
     \<and> readyToSend (snd (schedule advance both_served ([], outcome Start (boot (echo_device 7)))))
     \<and> frames (trace (snd (schedule advance both_served ([], outcome Start (boot (echo_device 7))))))
         = [0xCB, 0xFF, 0xFF, 0xFF] # concat (map bus_frames cs)
     \<and> map decode_frame (frames (trace (snd (schedule advance both_served
           ([], outcome Start (boot (echo_device 7)))))))
         = map Some (Handshake # concat (map requests (filter accepted cs)))"
proof -
  let ?w0 = "outcome Start (boot (echo_device 7))"
  have "reach advance ([], ?w0) (schedule advance both_served ([], ?w0))"
    by (rule schedule_reach) (simp add: both_served_def two_callers_def)
  moreover have "holders (fst (schedule advance both_served ([], ?w0))) = []"
    by (simp add: both_served_def two_callers_def eval_nat_numeral) (simp add: run_simps py_index_def)
  ultimately show ?thesis
    by (rule booted_system_is_serialised [OF invoke_eq])
qed

end
